(* ===== verification/Prelude.thy ===== *)
theory Prelude
  imports Main "HOL-Library.Word"
begin

unbundle bit_operations_syntax

text \<open>
  The vocabulary every component of the kernel model shares: the C integer types as
  machine words, the outcome of a kernel function (a value, a call of \<open>panic()\<close>, or
  a loop that never ends), and byte-addressed physical memory with little-endian
  64-bit loads and stores. The lemmas are about regions of memory and about bits.
\<close>

section \<open>Types of the kernel\<close>

text \<open>kernel/include/types.h. A C \<open>int\<close> is a 32-bit word read with \<open>sint\<close>.\<close>

type_synonym u8 = "8 word"
type_synonym u16 = "16 word"
type_synonym u32 = "32 word"
type_synonym u64 = "64 word"
type_synonym i32 = "32 word"
type_synonym memory = "u64 \<Rightarrow> u8"

named_theorems kernel_defs \<open>unfolding equations of small kernel operations\<close>
named_theorems mem_frame \<open>memory outside the region an operation writes\<close>

section \<open>Outcomes\<close>

text \<open>
  \<open>panic(s)\<close> prints \<open>s\<close> and loops (kernel/lib/printf.c); \<open>Hang\<close> is a spin that cannot
  end on the single hart. Neither returns to the caller, so no state comes with them.
\<close>

datatype 'a res = Ok 'a | Panic string | Hang

primrec bind_res :: "'a res \<Rightarrow> ('a \<Rightarrow> 'b res) \<Rightarrow> 'b res" where
  "bind_res (Ok x) f = f x"
| "bind_res (Panic e) f = Panic e"
| "bind_res Hang f = Hang"

lemma bind_res_cong [fundef_cong]:
  "r = r' \<Longrightarrow> (\<And>x. r' = Ok x \<Longrightarrow> f x = g x) \<Longrightarrow> bind_res r f = bind_res r' g"
  by (cases r') auto

lemma bind_res_eq_Ok: "bind_res r f = Ok y \<longleftrightarrow> (\<exists>x. r = Ok x \<and> f x = Ok y)"
  by (cases r) auto

lemma bind_res_eq_Panic:
  "bind_res r f = Panic e \<longleftrightarrow> r = Panic e \<or> (\<exists>x. r = Ok x \<and> f x = Panic e)"
  by (cases r) auto

text \<open>A \<open>for\<close> loop over a list of indices that stops at the first panic.\<close>

primrec fold_res :: "('i \<Rightarrow> 's \<Rightarrow> 's res) \<Rightarrow> 'i list \<Rightarrow> 's \<Rightarrow> 's res" where
  "fold_res f [] s = Ok s"
| "fold_res f (i # is) s = bind_res (f i s) (fold_res f is)"

lemma fold_res_invariant:
  assumes "P 0 s" "\<And>k s. k < length is \<Longrightarrow> P k s \<Longrightarrow> \<exists>s'. f (is ! k) s = Ok s' \<and> P (Suc k) s'"
  shows "\<exists>s'. fold_res f is s = Ok s' \<and> P (length is) s'"
  using assms
proof (induction "is" arbitrary: s P)
  case (Cons i "is")
  obtain s1 where s1: "f i s = Ok s1" "P 1 s1" using Cons.prems(2)[of 0 s] Cons.prems(1) by auto
  have "\<exists>s'. fold_res f is s1 = Ok s' \<and> P (Suc (length is)) s'"
  proof (rule Cons.IH[where P = "\<lambda>k. P (Suc k)"])
    show "P (Suc 0) s1" using s1(2) by simp
    show "\<exists>s'. f (is ! k) s = Ok s' \<and> P (Suc (Suc k)) s'" if "k < length is" "P (Suc k) s" for k s
      using Cons.prems(2)[of "Suc k" s] that by simp
  qed
  then show ?case using s1(1) by simp
qed simp

lemma fold_res_upt:
  assumes "P 0 s" "\<And>k s. k < n \<Longrightarrow> P k s \<Longrightarrow> \<exists>s'. f k s = Ok s' \<and> P (Suc k) s'"
  shows "\<exists>s'. fold_res f [0..<n] s = Ok s' \<and> P n s'"
proof -
  have "\<exists>s'. fold_res f [0..<n] s = Ok s' \<and> P (length [0..<n]) s'"
    using assms by (intro fold_res_invariant) simp_all
  then show ?thesis by simp
qed

section \<open>Words\<close>

lemma unat_u64_less: "unat (a :: u64) < 2 ^ 64"
proof -
  have "unat a < 2 ^ LENGTH(64)" by (rule unsigned_less)
  then show ?thesis by simp
qed

lemma unat_u32_less: "unat (a :: u32) < 2 ^ 32"
proof -
  have "unat a < 2 ^ LENGTH(32)" by (rule unsigned_less)
  then show ?thesis by simp
qed

lemma unat_u8_less: "unat (a :: u8) < 256"
proof -
  have "unat a < 2 ^ LENGTH(8)" by (rule unsigned_less)
  then show ?thesis by simp
qed

lemma unat_of_nat_u64: "n < 2 ^ 64 \<Longrightarrow> unat (of_nat n :: u64) = n"
  by (simp add: unat_of_nat take_bit_nat_eq_self)

lemma unat_ucast_u64: "unat (ucast (n :: u32) :: u64) = unat n"
  using unat_u32_less[of n] by (simp add: unsigned_ucast_eq take_bit_nat_eq_self_iff)

lemma unat_add_u64: "unat a + unat b < 2 ^ 64 \<Longrightarrow> unat (a + b :: u64) = unat a + unat b"
  by (simp add: unat_plus_if')

lemma bit_imp_exp_le: "bit (w :: u64) n \<Longrightarrow> 2 ^ n \<le> unat w"
proof -
  assume "bit w n"
  then have "bit (unat w) n" by (simp add: bit_unsigned_iff)
  then have "odd (unat w div 2 ^ n)" by (simp add: bit_iff_odd)
  then have "unat w div 2 ^ n \<noteq> 0" by (metis even_zero)
  then show ?thesis by (simp add: div_eq_0_iff)
qed

lemma bit_imp_less: "bit (w :: u64) n \<Longrightarrow> unat w < 2 ^ k \<Longrightarrow> n < k"
proof (rule ccontr)
  assume "bit w n" "unat w < 2 ^ k" "\<not> n < k"
  then have "(2 :: nat) ^ k \<le> 2 ^ n" "2 ^ n \<le> unat w"
    by (simp_all add: power_increasing bit_imp_exp_le)
  with \<open>unat w < 2 ^ k\<close> show False by simp
qed

lemma align_and_not: "a AND NOT (mask n) = push_bit n (drop_bit n (a :: u64))"
  by (rule bit_word_eqI) (auto simp: bit_simps)

lemma unat_align:
  "unat (push_bit n (drop_bit n (a :: u64))) = unat a div 2 ^ n * 2 ^ n"
proof -
  have "unat a div 2 ^ n * 2 ^ n \<le> unat a" by simp
  then have lt: "unat a div 2 ^ n * 2 ^ n < 2 ^ 64"
    using unat_u64_less by (rule le_less_trans)
  have "take_bit 64 (unat a) = unat a"
    using unat_u64_less by (rule take_bit_nat_eq_self)
  then have "unat (push_bit n (drop_bit n a)) = take_bit 64 (push_bit n (drop_bit n (unat a)))"
    by (simp only: unsigned_push_bit_eq unsigned_drop_bit_eq) simp
  with lt show ?thesis
    by (simp add: push_bit_eq_mult drop_bit_eq_div take_bit_eq_mod)
qed

section \<open>Regions of memory\<close>

text \<open>The \<open>n\<close> bytes from address \<open>d\<close> on (addresses wrap at 64 bits).\<close>

definition in_region :: "u64 \<Rightarrow> nat \<Rightarrow> u64 \<Rightarrow> bool" where
  "in_region d n a \<longleftrightarrow> unat (a - d) < n"

lemma in_region_0 [simp]: "\<not> in_region d 0 a"
  by (simp add: in_region_def)

lemma in_region_self [simp]: "in_region d n d \<longleftrightarrow> 0 < n"
  by (simp add: in_region_def)

lemma in_region_offset: "unat i < n \<Longrightarrow> in_region d n (d + i)"
  by (simp add: in_region_def)

text \<open>A region is its first byte and the region one further on.\<close>

lemma in_region_Suc:
  assumes "n < 2 ^ 64"
  shows "in_region d (Suc n) a \<longleftrightarrow> a = d \<or> in_region (d + 1) n a"
proof (cases "a = d")
  case False
  then have nz: "a - d \<noteq> 0" by simp
  then have "unat (a - d - 1) = unat (a - d) - 1"
    by (metis unat_minus_one)
  moreover have "unat (a - d) \<noteq> 0" using nz by (simp add: unat_eq_0)
  moreover have "a - (d + 1) = a - d - 1" by (simp add: algebra_simps)
  ultimately have "unat (a - (d + 1)) < n \<longleftrightarrow> unat (a - d) < Suc n" by (simp only:) auto
  then show ?thesis using False by (simp add: in_region_def)
qed simp

lemma not_in_region_next:
  assumes "n < 2 ^ 64"
  shows "\<not> in_region (d + 1) n d"
proof -
  have "d - (d + 1) = - 1" by simp
  moreover have "unat (- 1 :: u64) = 2 ^ 64 - 1"
    by (simp add: unsigned_minus_1_eq_mask mask_eq_exp_minus_1)
  ultimately have "unat (d - (d + 1)) = 2 ^ 64 - 1" by (simp only:)
  then show ?thesis using assms by (simp only: in_region_def)
qed

section \<open>64-bit loads and stores\<close>

definition load64 :: "memory \<Rightarrow> u64 \<Rightarrow> u64" where
  "load64 m a =
     ucast (m a) OR push_bit 8 (ucast (m (a + 1))) OR push_bit 16 (ucast (m (a + 2)))
     OR push_bit 24 (ucast (m (a + 3))) OR push_bit 32 (ucast (m (a + 4)))
     OR push_bit 40 (ucast (m (a + 5))) OR push_bit 48 (ucast (m (a + 6)))
     OR push_bit 56 (ucast (m (a + 7)))"

definition store64 :: "memory \<Rightarrow> u64 \<Rightarrow> u64 \<Rightarrow> memory" where
  "store64 m a v =
     m(a := ucast v, a + 1 := ucast (drop_bit 8 v), a + 2 := ucast (drop_bit 16 v),
       a + 3 := ucast (drop_bit 24 v), a + 4 := ucast (drop_bit 32 v),
       a + 5 := ucast (drop_bit 40 v), a + 6 := ucast (drop_bit 48 v),
       a + 7 := ucast (drop_bit 56 v))"

lemma load64_store64 [simp]: "load64 (store64 m a v) a = v"
proof (rule bit_word_eqI)
  fix n assume "n < LENGTH(64)"
  then consider "n < 8" | "8 \<le> n" "n < 16" | "16 \<le> n" "n < 24" | "24 \<le> n" "n < 32"
    | "32 \<le> n" "n < 40" | "40 \<le> n" "n < 48" | "48 \<le> n" "n < 56" | "56 \<le> n" "n < 64"
    by (simp, linarith)
  then show "bit (load64 (store64 m a v) a) n \<longleftrightarrow> bit v n"
    by cases (simp_all add: load64_def store64_def bit_simps less_diff_conv2)
qed

lemma store64_outside [mem_frame]: "\<not> in_region a 8 x \<Longrightarrow> store64 m a v x = m x"
  by (auto simp: store64_def in_region_def)

lemma load64_cong:
  "(\<And>x. in_region a 8 x \<Longrightarrow> m x = m' x) \<Longrightarrow> load64 m a = load64 m' a"
  by (simp add: load64_def in_region_def)

lemma load64_zero: "(\<And>x. in_region a 8 x \<Longrightarrow> m x = 0) \<Longrightarrow> load64 m a = 0"
  by (simp add: load64_def in_region_def)

text \<open>Two 8-byte aligned words of memory are the same word or do not overlap.\<close>

lemma aligned8_disjoint:
  assumes "unat a mod 8 = 0" "unat b mod 8 = 0" "a \<noteq> b"
  shows "\<not> in_region a 8 b"
proof
  assume "in_region a 8 b"
  then have lt: "unat (b - a) < 8" by (simp add: in_region_def)
  have "unat (b - a) mod 8 = 0"
  proof (cases "unat a \<le> unat b")
    case True
    then have "unat (b - a) = unat b - unat a" by (simp add: unat_sub word_le_nat_alt)
    then show ?thesis using assms True by (simp add: mod_diff_eq dvd_diff_nat mod_eq_0_iff_dvd)
  next
    case False
    then have "unat (b - a) = 2 ^ 64 + unat b - unat a" by (simp add: unat_sub_if')
    moreover have "8 dvd (2 ^ 64 + unat b - unat a)"
      using assms(1,2) by (intro dvd_diff_nat dvd_add) (simp_all add: mod_eq_0_iff_dvd)
    ultimately show ?thesis by (simp add: mod_eq_0_iff_dvd)
  qed
  with lt have "unat (b - a) = 0" by simp
  then have "b - a = 0" by (simp add: unat_eq_0)
  with assms(3) show False by simp
qed

lemma aligned8_regions:
  assumes "unat a mod 8 = 0" "unat b mod 8 = 0" "a \<noteq> b" "in_region b 8 x"
  shows "\<not> in_region a 8 x"
proof -
  have round: "unat x div 8 = unat c div 8" if c: "unat c mod 8 = 0" and r: "in_region c 8 x" for c
  proof -
    have d: "unat (x - c) < 8" using r by (simp add: in_region_def)
    obtain q where q: "unat c = 8 * q"
      using c by (metis mod_0_imp_dvd dvdE)
    have "unat c + unat (x - c) < 2 ^ 64" using unat_u64_less[of c] d q by simp
    then have "unat x = unat c + unat (x - c)"
      using unat_add_u64[of c "x - c"] by simp
    then show ?thesis using d q by simp
  qed
  show ?thesis
  proof
    assume "in_region a 8 x"
    then have "unat a div 8 = unat b div 8" using round[of a] round[of b] assms by simp
    then have "unat a = unat b" using assms(1,2) by (metis mult_div_mod_eq)
    with assms(3) show False by (simp add: word_unat_eq_iff)
  qed
qed

lemma load64_store64_other:
  assumes "unat a mod 8 = 0" "unat b mod 8 = 0" "a \<noteq> b"
  shows "load64 (store64 m a v) b = load64 m b"
  using aligned8_regions[OF assms] by (intro load64_cong store64_outside)

end
