(* ===== verification/Riscv.thy ===== *)
theory Riscv
  imports Prelude
begin

text \<open>
  The constants and macros of kernel/include/riscv.h, memlayout.h and param.h: page
  rounding, Sv39 page-table entries and indices, the memory map and the sizes of the
  kernel's tables. The lemmas relate the bit-level macros to arithmetic on addresses.
\<close>

section \<open>param.h and memlayout.h\<close>

definition NPROC :: nat where "NPROC = 16"
definition NCPU :: nat where "NCPU = 1"
definition NOFILE :: nat where "NOFILE = 16"
definition PAGE_POOL_CAP :: nat where "PAGE_POOL_CAP = 16"

definition UART0 :: u64 where "UART0 = 0x10000000"
definition VIRTIO0 :: u64 where "VIRTIO0 = 0x10001000"
definition PLIC :: u64 where "PLIC = 0x0c000000"
definition KERNBASE :: u64 where "KERNBASE = 0x80000000"
definition PHYSTOP :: u64 where "PHYSTOP = 0x88000000"

section \<open>riscv.h: pages and page-table entries\<close>

definition PAGESIZE :: u64 where "PAGESIZE = 4096"

definition PAGEROUNDUP :: "u64 \<Rightarrow> u64" where
  "PAGEROUNDUP sz = (sz + PAGESIZE - 1) AND NOT (PAGESIZE - 1)"

definition PAGEROUNDDOWN :: "u64 \<Rightarrow> u64" where
  "PAGEROUNDDOWN a = a AND NOT (PAGESIZE - 1)"

definition PTE_V :: u64 where "PTE_V = push_bit 0 1"
definition PTE_R :: u64 where "PTE_R = push_bit 1 1"
definition PTE_W :: u64 where "PTE_W = push_bit 2 1"
definition PTE_X :: u64 where "PTE_X = push_bit 3 1"
definition PTE_U :: u64 where "PTE_U = push_bit 4 1"

definition PA2PTE :: "u64 \<Rightarrow> u64" where "PA2PTE pa = push_bit 10 (drop_bit 12 pa)"
definition PTE2PA :: "u64 \<Rightarrow> u64" where "PTE2PA pte = push_bit 12 (drop_bit 10 pte)"
definition PTE_FLAGS :: "u64 \<Rightarrow> u64" where "PTE_FLAGS pte = pte AND 0x3FF"

definition PXSHIFT :: "nat \<Rightarrow> nat" where "PXSHIFT level = 12 + 9 * level"

definition PX :: "nat \<Rightarrow> u64 \<Rightarrow> u64" where
  "PX level va = drop_bit (PXSHIFT level) va AND 0x1FF"

definition MAXVA :: u64 where "MAXVA = push_bit (9 + 9 + 9 + 12 - 1) 1"
definition TRAMPOLINE :: u64 where "TRAMPOLINE = MAXVA - PAGESIZE"
definition TRAPFRAME :: u64 where "TRAPFRAME = TRAMPOLINE - PAGESIZE"
definition KSTACK :: "u64 \<Rightarrow> u64" where
  "KSTACK p = TRAMPOLINE - (p + 1) * 2 * PAGESIZE"

definition MAKE_SATP :: "u64 \<Rightarrow> u64" where
  "MAKE_SATP pagetable = push_bit 60 8 OR drop_bit 12 pagetable"

section \<open>Page arithmetic\<close>

text \<open>\<open>a % PAGESIZE == 0\<close>, the test the allocator and the page-table code make.\<close>

definition page_aligned :: "u64 \<Rightarrow> bool" where
  "page_aligned a \<longleftrightarrow> a mod PAGESIZE = 0"

lemma PAGESIZE_mask: "PAGESIZE - 1 = mask 12"
  by (simp add: PAGESIZE_def mask_eq_exp_minus_1)

lemma unat_PAGESIZE [simp]: "unat PAGESIZE = 4096"
  by (simp add: PAGESIZE_def)

lemma PAGEROUNDDOWN_shift: "PAGEROUNDDOWN a = push_bit 12 (drop_bit 12 a)"
  unfolding PAGEROUNDDOWN_def PAGESIZE_mask by (rule align_and_not)

lemma unat_PAGEROUNDDOWN: "unat (PAGEROUNDDOWN a) = unat a div 4096 * 4096"
  using unat_align[of 12 a] by (simp add: PAGEROUNDDOWN_shift)

lemma page_aligned_unat: "page_aligned a \<longleftrightarrow> unat a mod 4096 = 0"
  by (simp add: page_aligned_def PAGESIZE_def word_unat_eq_iff unat_mod)

lemma page_aligned_unatE: "page_aligned a \<Longrightarrow> unat a = 4096 * (unat a div 4096)"
  using mult_div_mod_eq[of 4096 "unat a"] by (simp add: page_aligned_unat)

lemma page_aligned_0 [simp]: "page_aligned 0"
  by (simp add: page_aligned_def)

lemma page_aligned_PAGEROUNDDOWN [simp]: "page_aligned (PAGEROUNDDOWN a)"
  by (simp add: page_aligned_unat unat_PAGEROUNDDOWN)

lemma PAGEROUNDUP_rounddown: "PAGEROUNDUP sz = PAGEROUNDDOWN (sz + PAGESIZE - 1)"
  by (simp add: PAGEROUNDUP_def PAGEROUNDDOWN_def)

lemma page_aligned_PAGEROUNDUP [simp]: "page_aligned (PAGEROUNDUP a)"
  by (simp add: PAGEROUNDUP_rounddown)

lemma page_aligned_add [simp]: "page_aligned a \<Longrightarrow> page_aligned (a + PAGESIZE) \<longleftrightarrow> True"
  by (auto simp: page_aligned_unat unat_plus_if' mod_add_eq mod_eq_0_iff_dvd intro!: dvd_diff_nat)

lemma div_page_iff:
  fixes a k :: nat
  assumes "4096 * k \<le> a"
  shows "a - 4096 * k < 4096 \<longleftrightarrow> a div 4096 = k"
proof -
  have "a = 4096 * (a div 4096) + a mod 4096" "a mod 4096 < 4096" by simp_all
  with assms show ?thesis by linarith
qed

text \<open>The page at \<open>p\<close> is the set of addresses with the same page number.\<close>

lemma in_region_page:
  assumes "page_aligned p"
  shows "in_region p 4096 a \<longleftrightarrow> unat a div 4096 = unat p div 4096"
proof -
  define k where "k = unat p div 4096"
  have p: "unat p = 4096 * k" using page_aligned_unatE[OF assms] by (simp add: k_def)
  show ?thesis
  proof (cases "unat p \<le> unat a")
    case True
    then have "unat (a - p) = unat a - 4096 * k"
      by (simp add: unat_sub word_le_nat_alt p)
    then show ?thesis using True p div_page_iff[of k "unat a"] unfolding in_region_def by simp
  next
    case False
    then have "unat (a - p) = 2 ^ 64 + unat a - 4096 * k"
      by (simp add: unat_sub_if' p)
    moreover have "4096 * k < 2 ^ 64" using unat_u64_less[of p] p by simp
    moreover have "unat a div 4096 \<noteq> k" using False p by auto
    ultimately show ?thesis using False p unfolding in_region_def by simp
  qed
qed

lemma in_region_pages_disjoint:
  assumes "page_aligned p" "page_aligned q" "p \<noteq> q" "in_region p 4096 a"
  shows "\<not> in_region q 4096 a"
proof
  assume "in_region q 4096 a"
  then have "unat p div 4096 = unat q div 4096" using assms by (simp add: in_region_page)
  then have "unat p = unat q" using assms(1,2) page_aligned_unatE by metis
  with assms(3) show False by (simp add: word_unat_eq_iff)
qed

lemma PAGEROUNDDOWN_iff:
  assumes "page_aligned p"
  shows "PAGEROUNDDOWN a = p \<longleftrightarrow> in_region p 4096 a"
proof -
  have "unat p = unat p div 4096 * 4096" using page_aligned_unatE[OF assms] by simp
  then show ?thesis by (auto simp: word_unat_eq_iff unat_PAGEROUNDDOWN in_region_page assms)
qed

lemma page_aligned_bit: "page_aligned a \<Longrightarrow> bit a n \<Longrightarrow> 12 \<le> n"
proof -
  assume "page_aligned a" "bit a n"
  then have "take_bit 12 a = 0" by (simp add: page_aligned_def PAGESIZE_def take_bit_eq_mod)
  then have "\<not> bit (take_bit 12 a) n" by simp
  then show ?thesis using \<open>bit a n\<close> by (simp add: bit_take_bit_iff)
qed

section \<open>Page-table entries\<close>

lemma unat_less_no_bit: "unat (f :: u64) < 2 ^ k \<Longrightarrow> k \<le> n \<Longrightarrow> \<not> bit f n"
  using bit_imp_less[of f n k] by auto

text \<open>An entry built from a page address and flag bits gives the address back.\<close>

lemma PTE2PA_PA2PTE:
  assumes "page_aligned pa" "unat pa < 2 ^ 56" "unat f < 2 ^ 10"
  shows "PTE2PA (PA2PTE pa OR f) = pa"
proof (rule bit_word_eqI)
  fix n :: nat assume "n < LENGTH(64)"
  have pa: "bit pa n \<Longrightarrow> 12 \<le> n \<and> n < 56"
    using assms page_aligned_bit bit_imp_less[of _ _ 56] by blast
  show "bit (PTE2PA (PA2PTE pa OR f)) n \<longleftrightarrow> bit pa n"
  proof (cases "12 \<le> n")
    case True
    then obtain k where n: "n = k + 12" by (metis add.commute le_Suc_ex)
    have "\<not> bit f (k + 10)" using assms(3) by (rule unat_less_no_bit) simp
    with n \<open>n < LENGTH(64)\<close> pa show ?thesis
      by (auto simp: PTE2PA_def PA2PTE_def bit_simps add.commute)
  qed (use pa in \<open>auto simp: PTE2PA_def bit_simps\<close>)
qed

lemma PTE_FLAGS_PA2PTE:
  assumes "unat f < 2 ^ 10"
  shows "PTE_FLAGS (PA2PTE pa OR f) = f"
proof (rule bit_word_eqI)
  fix n :: nat assume "n < LENGTH(64)"
  have mask: "(0x3FF :: u64) = mask 10" by (simp add: mask_eq_exp_minus_1)
  have "\<not> bit f n" if "10 \<le> n" using assms that by (rule unat_less_no_bit)
  then show "bit (PTE_FLAGS (PA2PTE pa OR f)) n \<longleftrightarrow> bit f n"
    unfolding PTE_FLAGS_def mask by (cases "n < 10") (auto simp: PA2PTE_def bit_simps)
qed

lemma PTE_V_bit: "pte AND PTE_V \<noteq> 0 \<longleftrightarrow> bit pte 0"
proof -
  have "pte AND 1 \<noteq> 0 \<longleftrightarrow> bit pte 0" by (simp add: and_one_eq bit_0 odd_iff_mod_2_eq_one)
  then show ?thesis by (simp add: PTE_V_def)
qed

text \<open>A page-table index selects one of the 512 words of a table page.\<close>

lemma PX_less: "unat (PX level va) < 512"
proof -
  have "unat (drop_bit (PXSHIFT level) va AND 0x1FF) \<le> unat (0x1FF :: u64)"
    by (rule word_and_le1 [THEN word_le_nat_alt [THEN iffD1]])
  then show ?thesis by (simp add: PX_def)
qed

lemma table_slot:
  assumes "page_aligned pt" "unat i < 512"
  shows "unat (pt + 8 * i) = unat pt + 8 * unat i"
    and "unat (pt + 8 * i) mod 8 = 0"
    and "in_region (pt + 8 * i) 8 x \<Longrightarrow> in_region pt 4096 x"
proof -
  obtain k where k: "unat pt = 4096 * k" using page_aligned_unatE[OF assms(1)] by metis
  have i: "unat (8 * i) = 8 * unat i" using assms(2) by (simp add: unat_word_ariths)
  have lt: "unat pt + 8 * unat i < 2 ^ 64"
    using unat_u64_less[of pt] k assms(2) by simp
  show eq: "unat (pt + 8 * i) = unat pt + 8 * unat i"
    using lt unat_add_u64[of pt "8 * i"] i by simp
  have "unat pt + 8 * unat i = 8 * (512 * k + unat i)" using k by simp
  then show "unat (pt + 8 * i) mod 8 = 0" unfolding eq by simp
  assume r: "in_region (pt + 8 * i) 8 x"
  then have d: "unat (x - (pt + 8 * i)) < 8" by (simp add: in_region_def)
  have "unat (x - (pt + 8 * i) + 8 * i) = unat (x - (pt + 8 * i)) + unat (8 * i)"
    using d i assms(2) by (intro unat_add_u64) simp
  moreover have "x - (pt + 8 * i) + 8 * i = x - pt" by simp
  ultimately have "unat (x - pt) = unat (x - (pt + 8 * i)) + 8 * unat i"
    by (simp only: i)
  then show "in_region pt 4096 x" using d assms(2) by (simp add: in_region_def)
qed

end
