(* ===== verification/Spinlock.thy ===== *)
theory Spinlock
  imports Riscv
begin

text \<open>
  kernel/sync/spinlock.c with the interrupt-enable bit of riscv.h and the per-CPU state
  of proc.h. The state is one record: the \<open>sstatus\<close> and \<open>tp\<close> registers, the array
  \<open>cpus[]\<close> and the spinlocks, a store from lock addresses to \<open>struct spinlock\<close>. The
  lemmas say that acquiring a free lock and releasing it gives back the interrupt state
  and the nesting depth, so that the components above can treat a locked section as a
  plain update.
\<close>

section \<open>State\<close>

text \<open>Addresses of the kernel's spinlocks.\<close>

datatype lockaddr =
    L_kmem | L_page_cache | L_pid | L_wait | L_proc nat | L_ticks | L_bcache | L_log
  | L_itable | L_ftable | L_vdisk | L_pipe u64 | L_bufsleep nat | L_inodesleep nat

record kcontext =
  ctx_ra :: u64
  ctx_sp :: u64
  ctx_s0 :: u64
  ctx_s1 :: u64
  ctx_s2 :: u64
  ctx_s3 :: u64
  ctx_s4 :: u64
  ctx_s5 :: u64
  ctx_s6 :: u64
  ctx_s7 :: u64
  ctx_s8 :: u64
  ctx_s9 :: u64
  ctx_s10 :: u64
  ctx_s11 :: u64

text \<open>\<open>struct cpu\<close>; a process pointer is an index into \<open>proc[]\<close>, null is \<open>None\<close>.\<close>

record cpu =
  cpu_proc :: "nat option"
  cpu_context :: kcontext
  noff :: u32
  intena :: u32

text \<open>\<open>struct spinlock\<close>; a CPU pointer is an index into \<open>cpus[]\<close>.\<close>

record spinlock =
  locked :: i32
  lk_name :: string
  lk_cpu :: "nat option"

record sync =
  sstatus :: u64
  tp :: u64
  cpus :: "cpu list"
  locks :: "lockaddr \<Rightarrow> spinlock"

section \<open>Interrupt enable (riscv.h) and the current CPU (proc.c)\<close>

definition SSTATUS_SPP :: u64 where "SSTATUS_SPP = push_bit 8 1"
definition SSTATUS_SPIE :: u64 where "SSTATUS_SPIE = push_bit 5 1"
definition SSTATUS_SIE :: u64 where "SSTATUS_SIE = push_bit 1 1"

definition intr_on :: "sync \<Rightarrow> sync" where
  "intr_on y = y\<lparr>sstatus := sstatus y OR SSTATUS_SIE\<rparr>"

definition intr_off :: "sync \<Rightarrow> sync" where
  "intr_off y = y\<lparr>sstatus := sstatus y AND NOT SSTATUS_SIE\<rparr>"

definition intr_get :: "sync \<Rightarrow> bool" where
  "intr_get y \<longleftrightarrow> sstatus y AND SSTATUS_SIE \<noteq> 0"

definition cpuid :: "sync \<Rightarrow> i32" where
  "cpuid y = ucast (tp y)"

definition mycpu :: "sync \<Rightarrow> nat" where
  "mycpu y = unat (cpuid y)"

text \<open>Write through the pointer \<open>mycpu()\<close>.\<close>

definition upd_mycpu :: "(cpu \<Rightarrow> cpu) \<Rightarrow> sync \<Rightarrow> sync" where
  "upd_mycpu f y = y\<lparr>cpus := (cpus y)[mycpu y := f (cpus y ! mycpu y)]\<rparr>"

abbreviation this_cpu :: "sync \<Rightarrow> cpu" where
  "this_cpu y \<equiv> cpus y ! mycpu y"

section \<open>spinlock.c\<close>

definition initlock :: "lockaddr \<Rightarrow> string \<Rightarrow> sync \<Rightarrow> sync" where
  "initlock lk nm y =
     y\<lparr>locks := (locks y)(lk := \<lparr>locked = 0, lk_name = nm, lk_cpu = None\<rparr>)\<rparr>"

definition holding :: "lockaddr \<Rightarrow> sync \<Rightarrow> bool" where
  "holding lk y \<longleftrightarrow> locked (locks y lk) \<noteq> 0 \<and> lk_cpu (locks y lk) = Some (mycpu y)"

definition push_off :: "sync \<Rightarrow> sync" where
  "push_off y =
     (let old = intr_get y;
          y1 = intr_off y;
          y2 = (if noff (this_cpu y1) = 0
                then upd_mycpu (intena_update (\<lambda>_. if old then 1 else 0)) y1 else y1)
      in upd_mycpu (noff_update (\<lambda>n. n + 1)) y2)"

definition pop_off :: "sync \<Rightarrow> sync res" where
  "pop_off y =
     (if intr_get y then Panic ''pop_off - interruptible''
      else if noff (this_cpu y) < 1 then Panic ''pop_off''
      else let y1 = upd_mycpu (noff_update (\<lambda>n. n - 1)) y
           in if noff (this_cpu y1) = 0 \<and> intena (this_cpu y1) \<noteq> 0
              then Ok (intr_on y1) else Ok y1)"

text \<open>
  The atomic swap loop ends at once when the lock is free. When it is not, it is held by
  another CPU (the \<open>holding\<close> test has passed); with interrupts off and \<open>NCPU\<close> = 1
  nobody can release it, so the loop never ends.
\<close>

definition acquire :: "lockaddr \<Rightarrow> sync \<Rightarrow> sync res" where
  "acquire lk y =
     (let y1 = push_off y
      in if holding lk y1 then Panic ''acquire''
         else if locked (locks y1 lk) \<noteq> 0 then Hang
         else Ok (y1\<lparr>locks := (locks y1)
                (lk := (locks y1 lk)\<lparr>locked := 1, lk_cpu := Some (mycpu y1)\<rparr>)\<rparr>))"

definition release :: "lockaddr \<Rightarrow> sync \<Rightarrow> sync res" where
  "release lk y =
     (if \<not> holding lk y then Panic ''release''
      else pop_off (y\<lparr>locks := (locks y)
             (lk := (locks y lk)\<lparr>lk_cpu := None, locked := 0\<rparr>)\<rparr>))"

section \<open>Well-formed states\<close>

text \<open>
  The hart id names one of the \<open>NCPU\<close> entries of \<open>cpus[]\<close>, interrupts are off while the
  nesting depth is not zero, and \<open>d\<close> more nested sections do not wrap it.
\<close>

definition wf_sync :: "nat \<Rightarrow> sync \<Rightarrow> bool" where
  "wf_sync d y \<longleftrightarrow> length (cpus y) = NCPU \<and> mycpu y < NCPU
     \<and> unat (noff (this_cpu y)) + d < 2 ^ 32
     \<and> (noff (this_cpu y) \<noteq> 0 \<longrightarrow> \<not> intr_get y)"

definition lock_free :: "lockaddr \<Rightarrow> sync \<Rightarrow> bool" where
  "lock_free lk y \<longleftrightarrow> locked (locks y lk) = 0 \<and> lk_cpu (locks y lk) = None"

text \<open>The state inside a locked section, and the state after it.\<close>

definition took :: "lockaddr \<Rightarrow> sync \<Rightarrow> sync" where
  "took lk y = (let y1 = push_off y in
     y1\<lparr>locks := (locks y1)(lk := (locks y1 lk)\<lparr>locked := 1, lk_cpu := Some (mycpu y1)\<rparr>)\<rparr>)"

definition settled :: "sync \<Rightarrow> sync" where
  "settled y = (if noff (this_cpu y) = 0
     then upd_mycpu (intena_update (\<lambda>_. if intr_get y then 1 else 0)) y else y)"

section \<open>Lemmas\<close>

lemma mycpu_simps [simp]:
  "mycpu (intr_on y) = mycpu y" "mycpu (intr_off y) = mycpu y" "mycpu (upd_mycpu f y) = mycpu y"
  "mycpu (y\<lparr>locks := l\<rparr>) = mycpu y" "mycpu (y\<lparr>cpus := c\<rparr>) = mycpu y"
  "mycpu (y\<lparr>sstatus := x\<rparr>) = mycpu y"
  by (simp_all add: mycpu_def cpuid_def intr_on_def intr_off_def upd_mycpu_def)

lemma intr_simps [simp]:
  "intr_get (y\<lparr>locks := l\<rparr>) = intr_get y" "intr_get (upd_mycpu f y) = intr_get y"
  "intr_get (intr_on y)" "\<not> intr_get (intr_off y)"
proof -
  have "(a AND NOT b) AND b = 0" for a b :: u64 by (rule bit_word_eqI) (auto simp: bit_simps)
  then show "\<not> intr_get (intr_off y)" by (simp add: intr_get_def intr_off_def)
  have "(a OR b) AND b = b" for a b :: u64 by (rule bit_word_eqI) (auto simp: bit_simps)
  then show "intr_get (intr_on y)" by (simp add: intr_get_def intr_on_def SSTATUS_SIE_def)
qed (simp_all add: intr_get_def upd_mycpu_def)

lemma upd_mycpu_simps [simp]:
  "sstatus (upd_mycpu f y) = sstatus y" "tp (upd_mycpu f y) = tp y" "locks (upd_mycpu f y) = locks y"
  "length (cpus (upd_mycpu f y)) = length (cpus y)"
  "mycpu y < length (cpus y) \<Longrightarrow> cpus (upd_mycpu f y) ! mycpu y = f (cpus y ! mycpu y)"
  "mycpu y < length (cpus y) \<Longrightarrow> upd_mycpu f (upd_mycpu g y) = upd_mycpu (f \<circ> g) y"
  by (simp_all add: upd_mycpu_def mycpu_def cpuid_def)

lemma upd_mycpu_id: "f (this_cpu y) = this_cpu y \<Longrightarrow> upd_mycpu f y = y"
  by (simp add: upd_mycpu_def)

text \<open>Clearing the enable bit and, if it was set, setting it again changes nothing.\<close>

lemma sie_restore:
  "intr_get y \<Longrightarrow> sstatus y AND NOT SSTATUS_SIE OR SSTATUS_SIE = sstatus y"
  "\<not> intr_get y \<Longrightarrow> sstatus y AND NOT SSTATUS_SIE = sstatus y"
proof -
  have sie: "bit SSTATUS_SIE n \<longleftrightarrow> n = 1" for n by (auto simp: SSTATUS_SIE_def bit_simps)
  have get: "intr_get y \<longleftrightarrow> bit (sstatus y) 1"
  proof -
    have "sstatus y AND SSTATUS_SIE = (if bit (sstatus y) 1 then SSTATUS_SIE else 0)"
      by (rule bit_word_eqI) (auto simp: bit_simps sie)
    then show ?thesis by (simp add: intr_get_def SSTATUS_SIE_def)
  qed
  show "intr_get y \<Longrightarrow> sstatus y AND NOT SSTATUS_SIE OR SSTATUS_SIE = sstatus y"
    by (rule bit_word_eqI) (auto simp: bit_simps sie get)
  show "\<not> intr_get y \<Longrightarrow> sstatus y AND NOT SSTATUS_SIE = sstatus y"
    by (rule bit_word_eqI) (auto simp: bit_simps sie get)
qed

lemma push_off_intr [simp]: "\<not> intr_get (push_off y)"
  by (simp add: push_off_def Let_def)

lemma push_off_simps [simp]:
  "mycpu (push_off y) = mycpu y" "locks (push_off y) = locks y"
  "length (cpus (push_off y)) = length (cpus y)"
  by (simp_all add: push_off_def Let_def) (simp_all add: intr_off_def)

lemma push_off_cpu:
  assumes "mycpu y < length (cpus y)"
  shows "cpus (push_off y) ! mycpu y = (this_cpu y)\<lparr>noff := noff (this_cpu y) + 1,
           intena := (if noff (this_cpu y) = 0 then if intr_get y then 1 else 0
                      else intena (this_cpu y))\<rparr>"
  using assms by (simp add: push_off_def Let_def intr_off_def upd_mycpu_def mycpu_def cpuid_def)

lemma wf_syncD:
  assumes "wf_sync d y"
  shows "mycpu y < length (cpus y)" "unat (noff (this_cpu y)) + d < 2 ^ 32"
    "noff (this_cpu y) \<noteq> 0 \<Longrightarrow> \<not> intr_get y"
  using assms by (simp_all add: wf_sync_def)

lemma noff_Suc:
  assumes "wf_sync (Suc d) y"
  shows "unat (noff (this_cpu y) + 1) = Suc (unat (noff (this_cpu y)))"
    and "noff (this_cpu y) + 1 \<noteq> 0" and "\<not> noff (this_cpu y) + 1 < 1"
proof -
  have "unat (noff (this_cpu y)) + 1 < 2 ^ 32" using wf_syncD(2)[OF assms] by simp
  then show u: "unat (noff (this_cpu y) + 1) = Suc (unat (noff (this_cpu y)))"
    by (simp add: unat_word_ariths)
  then show nz: "noff (this_cpu y) + 1 \<noteq> 0" by (metis nat.distinct(1) unat_0)
  then show "\<not> noff (this_cpu y) + 1 < 1" by (simp add: word_less_nat_alt u)
qed

lemma noff_id: "noff_update (\<lambda>x. x) c = c"
  by (cases c) simp

lemma sie_cleared: "(x AND NOT SSTATUS_SIE) AND SSTATUS_SIE = 0"
  by (rule bit_word_eqI) (auto simp: bit_simps)

text \<open>\<open>pop_off\<close> undoes \<open>push_off\<close>, whatever happened to the locks between them.\<close>

lemma pop_push_off:
  assumes "wf_sync (Suc d) y"
  shows "pop_off ((push_off y)\<lparr>locks := l\<rparr>) = Ok ((settled y)\<lparr>locks := l\<rparr>)"
proof -
  note wf = wf_syncD[OF assms] and n = noff_Suc[OF assms]
  let ?c = "mycpu y"
  have cpu: "cpus (push_off y) ! ?c = (this_cpu y)\<lparr>noff := noff (this_cpu y) + 1,
      intena := (if noff (this_cpu y) = 0 then if intr_get y then 1 else 0
                 else intena (this_cpu y))\<rparr>"
    by (rule push_off_cpu[OF wf(1)])
  show ?thesis
  proof (cases "noff (this_cpu y) = 0")
    case True
    show ?thesis
      using True wf n sie_restore[of y]
      by (simp add: pop_off_def push_off_def settled_def Let_def intr_off_def intr_on_def upd_mycpu_def
          mycpu_def cpuid_def intr_get_def comp_def noff_id sie_cleared)
  next
    case False
    then have "\<not> intr_get y" using wf by simp
    then show ?thesis
      using False wf n sie_restore[of y]
      by (simp add: pop_off_def push_off_def settled_def Let_def intr_off_def intr_on_def upd_mycpu_def
          mycpu_def cpuid_def intr_get_def comp_def noff_id sie_cleared)
  qed
qed

lemma acquire_free: "lock_free lk y \<Longrightarrow> acquire lk y = Ok (took lk y)"
  by (simp add: acquire_def took_def lock_free_def holding_def Let_def)

lemma settled_locks: "(settled y)\<lparr>locks := locks y\<rparr> = settled y"
  by (simp add: settled_def upd_mycpu_def)

lemma push_off_locks: "(push_off y)\<lparr>locks := locks y\<rparr> = push_off y"
proof -
  have "(push_off y)\<lparr>locks := locks (push_off y)\<rparr> = push_off y" by (simp del: push_off_simps)
  then show ?thesis by simp
qed

lemma release_took:
  assumes "wf_sync (Suc d) y" "lock_free lk y"
  shows "release lk (took lk y) = Ok (settled y)"
proof -
  have l: "(locks y lk)\<lparr>lk_cpu := None, locked := 0\<rparr> = locks y lk"
    using assms(2) by (cases "locks y lk") (simp add: lock_free_def)
  have "release lk (took lk y) = pop_off ((push_off y)\<lparr>locks := locks y\<rparr>)"
    using l by (simp add: release_def took_def holding_def Let_def)
  also have "\<dots> = Ok ((settled y)\<lparr>locks := locks y\<rparr>)" by (rule pop_push_off[OF assms(1)])
  also have "(settled y)\<lparr>locks := locks y\<rparr> = settled y" by (rule settled_locks)
  finally show ?thesis .
qed

lemma took_simps [simp]:
  "mycpu (took lk y) = mycpu y" "\<not> intr_get (took lk y)" "holding lk (took lk y)"
  "length (cpus (took lk y)) = length (cpus y)"
  by (simp_all add: took_def Let_def holding_def)

lemma took_noff:
  assumes "wf_sync (Suc d) y"
  shows "noff (cpus (took lk y) ! mycpu y) = noff (this_cpu y) + 1"
  using push_off_cpu[OF wf_syncD(1)[OF assms]] by (simp add: took_def Let_def)

lemma wf_sync_took: "wf_sync (Suc d) y \<Longrightarrow> wf_sync d (took lk y)"
  using noff_Suc(1)[of d y] by (simp add: wf_sync_def took_noff[of d])

lemma wf_sync_mono: "wf_sync d y \<Longrightarrow> d' \<le> d \<Longrightarrow> wf_sync d' y"
  by (simp add: wf_sync_def)

lemma settled_took: "wf_sync (Suc d) y \<Longrightarrow> settled (took lk y) = took lk y"
  using noff_Suc(2)[of d y] by (simp add: settled_def took_noff)

lemma settled_simps [simp]:
  "mycpu (settled y) = mycpu y" "intr_get (settled y) = intr_get y" "locks (settled y) = locks y"
  "lock_free lk (settled y) = lock_free lk y" "sstatus (settled y) = sstatus y"
  "cpu_proc (cpus (settled y) ! i) = cpu_proc (cpus y ! i)"
  by (simp_all add: settled_def lock_free_def)
    (cases "i = mycpu y \<and> i < length (cpus y)", auto simp: upd_mycpu_def list_update_beyond)

lemma settled_noff: "mycpu y < length (cpus y) \<Longrightarrow> noff (cpus (settled y) ! mycpu y) = noff (this_cpu y)"
  by (simp add: settled_def)

lemma settled_settled [simp]: "mycpu y < length (cpus y) \<Longrightarrow> settled (settled y) = settled y"
  by (simp add: settled_def comp_def)

lemma wf_sync_settled [simp]: "wf_sync d (settled y) \<longleftrightarrow> wf_sync d y"
proof -
  have "length (cpus (settled y)) = length (cpus y)" by (simp add: settled_def)
  then show ?thesis by (cases "mycpu y < length (cpus y)") (auto simp: wf_sync_def settled_noff)
qed

lemma lock_free_took: "lk \<noteq> lk' \<Longrightarrow> lock_free lk' (took lk y) \<longleftrightarrow> lock_free lk' y"
  by (simp add: took_def Let_def lock_free_def)

text \<open>
  C23. A spinlock section. On a free lock acquire() succeeds, the CPU then holds the lock
  with interrupts off, a second acquire() of the same lock panics, and release() gives
  back the lock, the interrupt-enable bit and the nesting depth of before.
\<close>

theorem acquire_release_section:
  assumes "wf_sync 1 y" "lock_free lk y"
  shows "\<exists>y1 y2. acquire lk y = Ok y1 \<and> holding lk y1 \<and> \<not> intr_get y1
    \<and> acquire lk y1 = Panic ''acquire''
    \<and> release lk y1 = Ok y2 \<and> locks y2 = locks y \<and> sstatus y2 = sstatus y
    \<and> noff (this_cpu y2) = noff (this_cpu y)"
proof -
  have "holding lk (push_off (took lk y))"
    by (simp add: holding_def) (simp add: took_def Let_def)
  then have "acquire lk (took lk y) = Panic ''acquire''"
    by (simp add: acquire_def Let_def)
  then show ?thesis
    using acquire_free[OF assms(2)] release_took[of 0 y lk] assms
      settled_noff[OF wf_syncD(1)[OF assms(1)]]
    by (intro exI[of _ "took lk y"] exI[of _ "settled y"]) simp
qed

definition boot_cpu :: cpu where
  "boot_cpu = \<lparr>cpu_proc = None, cpu_context = \<lparr>ctx_ra = 0, ctx_sp = 0, ctx_s0 = 0, ctx_s1 = 0,
     ctx_s2 = 0, ctx_s3 = 0, ctx_s4 = 0, ctx_s5 = 0, ctx_s6 = 0, ctx_s7 = 0, ctx_s8 = 0,
     ctx_s9 = 0, ctx_s10 = 0, ctx_s11 = 0\<rparr>, noff = 0, intena = 0\<rparr>"

text \<open>A CPU as the zero-initialised \<open>cpus[]\<close> holds it, every lock free, interrupts on.\<close>

definition boot_sync :: sync where
  "boot_sync = \<lparr>sstatus = SSTATUS_SIE, tp = 0, cpus = [boot_cpu],
     locks = (\<lambda>_. \<lparr>locked = 0, lk_name = [], lk_cpu = None\<rparr>)\<rparr>"

lemma boot_sync_wf: "d < 2 ^ 32 \<Longrightarrow> wf_sync d boot_sync" and boot_lock_free: "lock_free lk boot_sync"
  by (simp_all add: wf_sync_def boot_sync_def boot_cpu_def NCPU_def mycpu_def cpuid_def lock_free_def)

theorem acquire_release_section_witness:
  "\<exists>y1 y2. acquire L_kmem boot_sync = Ok y1 \<and> holding L_kmem y1 \<and> \<not> intr_get y1
    \<and> release L_kmem y1 = Ok y2 \<and> sstatus y2 = SSTATUS_SIE"
  using acquire_release_section[OF boot_sync_wf boot_lock_free, of L_kmem]
  by (auto simp: boot_sync_def)

text \<open>Nested sections: \<open>n\<close> calls of \<open>push_off\<close>, then \<open>n\<close> calls of \<open>pop_off\<close>.\<close>

primrec push_off_n :: "nat \<Rightarrow> sync \<Rightarrow> sync" where
  "push_off_n 0 y = y"
| "push_off_n (Suc n) y = push_off_n n (push_off y)"

primrec pop_off_n :: "nat \<Rightarrow> sync \<Rightarrow> sync res" where
  "pop_off_n 0 y = Ok y"
| "pop_off_n (Suc n) y = bind_res (pop_off_n n y) pop_off"

lemma wf_sync_push_off: "wf_sync (Suc d) y \<Longrightarrow> wf_sync d (push_off y)"
  using noff_Suc(1)[of d y] push_off_cpu[of y] by (simp add: wf_sync_def)

lemma settled_push_off: "wf_sync (Suc d) y \<Longrightarrow> settled (push_off y) = push_off y"
  using noff_Suc(2)[of d y] push_off_cpu[of y] by (simp add: settled_def wf_sync_def)

lemma pop_push_off_n:
  "wf_sync n y \<Longrightarrow> pop_off_n n (push_off_n n y) = Ok (if n = 0 then y else settled y)"
proof (induction n arbitrary: y)
  case (Suc n)
  have "pop_off_n n (push_off_n n (push_off y)) = Ok (push_off y)"
    using Suc.IH[OF wf_sync_push_off[OF Suc.prems]] settled_push_off[OF Suc.prems] by simp
  moreover have "pop_off (push_off y) = Ok (settled y)"
    using pop_push_off[OF Suc.prems, of "locks y"] by (simp add: push_off_locks settled_locks)
  ultimately show ?case by simp
qed simp

text \<open>
  C24. The comment on push_off/pop_off: it takes as many pop_off()s as push_off()s to undo
  them, and if interrupts were off before they stay off. After n of each, none of which
  panics, the interrupt-enable bit and the depth are what they were.
\<close>

theorem push_pop_off_matched:
  assumes "wf_sync n y"
  shows "\<exists>y'. pop_off_n n (push_off_n n y) = Ok y' \<and> sstatus y' = sstatus y
    \<and> noff (this_cpu y') = noff (this_cpu y) \<and> locks y' = locks y"
  using pop_push_off_n[OF assms] settled_noff[OF wf_syncD(1)[OF assms]] by simp

theorem push_pop_off_matched_witness:
  "\<exists>y'. pop_off_n 3 (push_off_n 3 boot_sync) = Ok y' \<and> sstatus y' = SSTATUS_SIE"
  using push_pop_off_matched[of 3 boot_sync] boot_sync_wf[of 3] by (auto simp: boot_sync_def)

section \<open>Sets of held locks\<close>

text \<open>
  \<open>held H y\<close>: the CPU holds exactly the locks of \<open>H\<close>, its nesting depth is their number
  and interrupts are off if there are any. Sections need not be nested: \<open>sleep\<close> takes
  the process lock and then releases the condition lock.
\<close>

definition held :: "lockaddr set \<Rightarrow> sync \<Rightarrow> bool" where
  "held H y \<longleftrightarrow> length (cpus y) = NCPU \<and> mycpu y < NCPU \<and> finite H \<and> card H < 100
     \<and> noff (this_cpu y) = of_nat (card H) \<and> (H \<noteq> {} \<longrightarrow> \<not> intr_get y)
     \<and> (\<forall>l. if l \<in> H then locked (locks y l) = 1 \<and> lk_cpu (locks y l) = Some (mycpu y)
            else lock_free l y)"

lemma heldD:
  assumes "held H y"
  shows "mycpu y < length (cpus y)" "mycpu y < NCPU" "length (cpus y) = NCPU" "finite H" "card H < 100"
    "noff (this_cpu y) = of_nat (card H)" "unat (noff (this_cpu y)) = card H"
    "H \<noteq> {} \<Longrightarrow> \<not> intr_get y" "l \<notin> H \<Longrightarrow> lock_free l y" "l \<in> H \<Longrightarrow> holding l y"
proof -
  show "unat (noff (this_cpu y)) = card H"
    using assms by (simp add: held_def unat_of_nat take_bit_nat_eq_self)
qed (use assms in \<open>auto simp: held_def holding_def split: if_splits\<close>)

lemma heldI:
  assumes "length (cpus y) = NCPU" "mycpu y < NCPU" "finite H" "card H < 100"
    "noff (this_cpu y) = of_nat (card H)" "H \<noteq> {} \<Longrightarrow> \<not> intr_get y"
    "\<And>l. l \<in> H \<Longrightarrow> locked (locks y l) = 1 \<and> lk_cpu (locks y l) = Some (mycpu y)"
    "\<And>l. l \<notin> H \<Longrightarrow> lock_free l y"
  shows "held H y"
  unfolding held_def using assms by simp

lemma held_locked: "held H y \<Longrightarrow> l \<in> H \<Longrightarrow> locked (locks y l) = 1 \<and> lk_cpu (locks y l) = Some (mycpu y)"
  unfolding held_def by (metis (full_types))

lemma lock_free_locks: "locks y' l = locks y l \<Longrightarrow> lock_free l y' = lock_free l y"
  by (simp add: lock_free_def)

lemma held_wf_sync:
  assumes "held H y" "d \<le> 1000"
  shows "wf_sync d y"
proof -
  have "noff (this_cpu y) \<noteq> 0 \<Longrightarrow> H \<noteq> {}" using heldD(6)[OF assms(1)] by auto
  then show ?thesis
    using heldD[OF assms(1)] assms(2) by (auto simp: wf_sync_def)
qed

lemma acquire_held:
  assumes "held H y" "l \<notin> H" "card H < 99"
  shows "\<exists>y'. acquire l y = Ok y' \<and> y' = took l y \<and> held (insert l H) y' \<and> sstatus y' = sstatus (intr_off y)
    \<and> cpu_proc (this_cpu y') = cpu_proc (this_cpu y) \<and> mycpu y' = mycpu y
    \<and> cpu_context (this_cpu y') = cpu_context (this_cpu y)"
proof -
  note h = heldD[OF assms(1)]
  have cpu: "cpus (push_off y) ! mycpu y = (this_cpu y)\<lparr>noff := noff (this_cpu y) + 1,
           intena := (if noff (this_cpu y) = 0 then if intr_get y then 1 else 0 else intena (this_cpu y))\<rparr>"
    by (rule push_off_cpu[OF h(1)])
  have st: "sstatus (push_off y) = sstatus (intr_off y)" by (simp add: push_off_def Let_def)
  have "held (insert l H) (took l y)"
  proof (rule heldI)
    show "noff (this_cpu (took l y)) = of_nat (card (insert l H))"
      using cpu h(4,6) assms(2) by (simp add: took_def Let_def)
    show "locked (locks (took l y) k) = 1 \<and> lk_cpu (locks (took l y) k) = Some (mycpu (took l y))"
      if "k \<in> insert l H" for k
      using that held_locked[OF assms(1)] by (auto simp: took_def Let_def)
    show "lock_free k (took l y)" if "k \<notin> insert l H" for k
      using that h(9)[of k] lock_free_took[of l k y] by auto
  qed (use h assms(2,3) in \<open>simp_all\<close>)
  then show ?thesis
    using acquire_free[OF h(9)[OF assms(2)]] cpu st by (simp add: took_def Let_def)
qed

lemma held_upd_mycpu:
  assumes "held H y" "\<And>c. noff (f c) = noff c"
  shows "held H (upd_mycpu f y)"
proof (rule heldI)
  show "lock_free l (upd_mycpu f y)" if "l \<notin> H" for l
    using heldD(9)[OF assms(1) that] by (simp add: lock_free_def)
  show "locked (locks (upd_mycpu f y) l) = 1 \<and> lk_cpu (locks (upd_mycpu f y) l) = Some (mycpu (upd_mycpu f y))"
    if "l \<in> H" for l using held_locked[OF assms(1) that] by simp
qed (use heldD(1-8)[OF assms(1)] assms(2) in \<open>simp_all\<close>)

lemma held_intr_on:
  assumes "held {} y"
  shows "held {} (intr_on y)"
proof (rule heldI)
  show "lock_free l (intr_on y)" if "l \<notin> {}" for l
    using heldD(9)[OF assms that] by (simp add: lock_free_def intr_on_def)
qed (use heldD(1-7)[OF assms] in \<open>simp_all add: intr_on_def\<close>)

lemma release_held:
  assumes "held H y" "l \<in> H"
  shows "\<exists>y'. release l y = Ok y' \<and> held (H - {l}) y' \<and> cpu_proc (this_cpu y') = cpu_proc (this_cpu y)
    \<and> mycpu y' = mycpu y \<and> cpu_context (this_cpu y') = cpu_context (this_cpu y)"
proof -
  note h = heldD[OF assms(1)]
  let ?y = "y\<lparr>locks := (locks y)(l := (locks y l)\<lparr>lk_cpu := None, locked := 0\<rparr>)\<rparr>"
  let ?z = "upd_mycpu (noff_update (\<lambda>n. n - 1)) ?y"
  have off: "\<not> intr_get ?y" using h(8) assms(2) by auto
  have c: "0 < card H" using assms(2) h(4) by (auto simp: card_gt_0_iff)
  then have n1: "\<not> noff (this_cpu ?y) < 1" using h(7) by (simp add: word_less_nat_alt)
  have dec: "noff (this_cpu y) - 1 = of_nat (card (H - {l}))"
    using h(6) c assms(2) h(4) by (simp add: of_nat_diff)
  have cpu: "cpus ?z ! mycpu y = (this_cpu y)\<lparr>noff := of_nat (card (H - {l}))\<rparr>"
    using h(1) dec by (simp add: upd_mycpu_def mycpu_def cpuid_def)
  have small: "(of_nat (card (H - {l})) :: u32) = 0 \<longleftrightarrow> H - {l} = {}"
  proof -
    have "unat (of_nat (card (H - {l})) :: u32) = card (H - {l})"
      using h(4,5) assms(2) by (simp add: unat_of_nat take_bit_nat_eq_self)
    then have "(of_nat (card (H - {l})) :: u32) = 0 \<longleftrightarrow> card (H - {l}) = 0" by (simp only: unat_eq_0[symmetric])
    then show ?thesis using h(4) by simp
  qed
  have held: "held (H - {l}) ?z"
  proof (rule heldI)
    show "card (H - {l}) < 100" using h(4,5) by (meson card_Diff1_le le_less_trans)
    show "locked (locks ?z k) = 1 \<and> lk_cpu (locks ?z k) = Some (mycpu ?z)" if "k \<in> H - {l}" for k
      using that held_locked[OF assms(1)] by simp
    show "lock_free k ?z" if "k \<notin> H - {l}" for k
      using that h(9)[of k] by (cases "k = l") (simp_all add: lock_free_def)
  qed (use h(2,3,4) cpu off in \<open>simp_all\<close>)
  have "release l y = Ok (if noff (this_cpu ?z) = 0 \<and> intena (this_cpu ?z) \<noteq> 0 then intr_on ?z else ?z)"
    using h(10)[OF assms(2)] off n1 by (simp add: release_def pop_off_def Let_def)
  moreover have "held (H - {l}) (intr_on ?z)" if "noff (this_cpu ?z) = 0"
  proof -
    have "H - {l} = {}" using that cpu small by simp
    then show ?thesis using held held_intr_on by metis
  qed
  ultimately show ?thesis using held cpu by (auto simp: intr_on_def)
qed

lemma held_settled: "held H y \<Longrightarrow> held H (settled y)"
  unfolding settled_def by (auto intro: held_upd_mycpu)

section \<open>Physical memory and linker symbols\<close>

text \<open>
  The part of the machine every kernel component works on: the synchronisation state,
  physical memory, and the addresses the linker script kernel.ld assigns.
\<close>

record machine =
  sy :: sync
  mem :: memory
  ld_end :: u64
  ld_etext :: u64
  ld_trampoline :: u64

definition kacquire :: "lockaddr \<Rightarrow> 'z machine_scheme \<Rightarrow> 'z machine_scheme res" where
  "kacquire lk s = bind_res (acquire lk (sy s)) (\<lambda>y. Ok (s\<lparr>sy := y\<rparr>))"

definition krelease :: "lockaddr \<Rightarrow> 'z machine_scheme \<Rightarrow> 'z machine_scheme res" where
  "krelease lk s = bind_res (release lk (sy s)) (\<lambda>y. Ok (s\<lparr>sy := y\<rparr>))"

lemma kacquire_free: "lock_free lk (sy s) \<Longrightarrow> kacquire lk s = Ok (s\<lparr>sy := took lk (sy s)\<rparr>)"
  by (simp add: kacquire_def acquire_free)

lemma krelease_took:
  "sy s = took lk y \<Longrightarrow> wf_sync (Suc d) y \<Longrightarrow> lock_free lk y \<Longrightarrow> krelease lk s = Ok (s\<lparr>sy := settled y\<rparr>)"
  using release_took[of d y lk] by (simp add: krelease_def)

end
