(* ===== verification/Cstring.thy ===== *)
theory Cstring
  imports Prelude
begin

text \<open>
  kernel/lib/string.c: the memory and string routines, as loops over byte memory with
  the source's order of reads and writes. A pointer that is only read is also given as
  a reader \<open>nat \<Rightarrow> u8\<close> (byte \<open>i\<close> of the object), so the same definition serves
  memory and arrays. The lemmas give each loop its closed form: the region it writes
  and the value of every byte.
\<close>

section \<open>memset, memcmp, memmove\<close>

primrec memset_loop :: "memory \<Rightarrow> u64 \<Rightarrow> u8 \<Rightarrow> nat \<Rightarrow> memory" where
  "memset_loop m cdst c 0 = m"
| "memset_loop m cdst c (Suc n) = memset_loop (m(cdst := c)) (cdst + 1) c n"

definition memset :: "memory \<Rightarrow> u64 \<Rightarrow> i32 \<Rightarrow> u32 \<Rightarrow> memory" where
  "memset m dst c n = memset_loop m dst (ucast c) (unat n)"

primrec memcmp_loop :: "(nat \<Rightarrow> u8) \<Rightarrow> (nat \<Rightarrow> u8) \<Rightarrow> nat \<Rightarrow> nat \<Rightarrow> int" where
  "memcmp_loop s1 s2 i 0 = 0"
| "memcmp_loop s1 s2 i (Suc n) =
     (if s1 i \<noteq> s2 i then uint (s1 i) - uint (s2 i) else memcmp_loop s1 s2 (Suc i) n)"

definition memcmp :: "(nat \<Rightarrow> u8) \<Rightarrow> (nat \<Rightarrow> u8) \<Rightarrow> u32 \<Rightarrow> int" where
  "memcmp v1 v2 n = memcmp_loop v1 v2 0 (unat n)"

primrec copy_up :: "memory \<Rightarrow> u64 \<Rightarrow> u64 \<Rightarrow> nat \<Rightarrow> memory" where
  "copy_up m d s 0 = m"
| "copy_up m d s (Suc n) = copy_up (m(d := m s)) (d + 1) (s + 1) n"

primrec copy_down :: "memory \<Rightarrow> u64 \<Rightarrow> u64 \<Rightarrow> nat \<Rightarrow> memory" where
  "copy_down m d s 0 = m"
| "copy_down m d s (Suc n) = copy_down (m(d - 1 := m (s - 1))) (d - 1) (s - 1) n"

definition memmove :: "memory \<Rightarrow> u64 \<Rightarrow> u64 \<Rightarrow> u32 \<Rightarrow> memory" where
  "memmove m dst src n =
     (if n = 0 then m
      else if src < dst \<and> dst < src + ucast n
      then copy_down m (dst + ucast n) (src + ucast n) (unat n)
      else copy_up m dst src (unat n))"

definition memcpy :: "memory \<Rightarrow> u64 \<Rightarrow> u64 \<Rightarrow> u32 \<Rightarrow> memory" where
  "memcpy m dst src n = memmove m dst src n"

section \<open>Strings\<close>

text \<open>Byte \<open>i\<close> behind pointer \<open>p\<close>.\<close>

definition reader :: "memory \<Rightarrow> u64 \<Rightarrow> nat \<Rightarrow> u8" where
  "reader m p i = m (p + of_nat i)"

primrec strncmp_loop :: "(nat \<Rightarrow> u8) \<Rightarrow> (nat \<Rightarrow> u8) \<Rightarrow> nat \<Rightarrow> nat \<Rightarrow> int" where
  "strncmp_loop p q i 0 = 0"
| "strncmp_loop p q i (Suc n) =
     (if p i \<noteq> 0 \<and> p i = q i then strncmp_loop p q (Suc i) n
      else uint (p i) - uint (q i))"

definition strncmp :: "(nat \<Rightarrow> u8) \<Rightarrow> (nat \<Rightarrow> u8) \<Rightarrow> u32 \<Rightarrow> int" where
  "strncmp p q n = strncmp_loop p q 0 (unat n)"

primrec zero_fill :: "memory \<Rightarrow> u64 \<Rightarrow> nat \<Rightarrow> memory" where
  "zero_fill m s 0 = m"
| "zero_fill m s (Suc n) = zero_fill (m(s := 0)) (s + 1) n"

primrec strncpy_loop :: "memory \<Rightarrow> u64 \<Rightarrow> u64 \<Rightarrow> nat \<Rightarrow> memory" where
  "strncpy_loop m s t 0 = m"
| "strncpy_loop m s t (Suc n) =
     (let m' = m(s := m t)
      in if m t \<noteq> 0 then strncpy_loop m' (s + 1) (t + 1) n
         else zero_fill m' (s + 1) n)"

definition strncpy :: "memory \<Rightarrow> u64 \<Rightarrow> u64 \<Rightarrow> i32 \<Rightarrow> memory" where
  "strncpy m s t n = strncpy_loop m s t (nat (sint n))"

text \<open>\<open>n\<close> counts the iterations left of \<open>while (--n > 0 && ...)\<close>.\<close>

primrec safestrcpy_loop :: "memory \<Rightarrow> u64 \<Rightarrow> u64 \<Rightarrow> nat \<Rightarrow> memory" where
  "safestrcpy_loop m s t 0 = m(s := 0)"
| "safestrcpy_loop m s t (Suc n) =
     (let m' = m(s := m t)
      in if m t \<noteq> 0 then safestrcpy_loop m' (s + 1) (t + 1) n
         else m'(s + 1 := 0))"

definition safestrcpy :: "memory \<Rightarrow> u64 \<Rightarrow> u64 \<Rightarrow> i32 \<Rightarrow> memory" where
  "safestrcpy m s t n =
     (if sint n \<le> 0 then m else safestrcpy_loop m s t (nat (sint n - 1)))"

partial_function (option) strlen_loop :: "(nat \<Rightarrow> u8) \<Rightarrow> nat \<Rightarrow> nat option" where
  "strlen_loop s n = (if s n = 0 then Some n else strlen_loop s (Suc n))"

definition strlen :: "(nat \<Rightarrow> u8) \<Rightarrow> nat option" where
  "strlen s = strlen_loop s 0"

partial_function (option) strcmp_loop :: "(nat \<Rightarrow> u8) \<Rightarrow> (nat \<Rightarrow> u8) \<Rightarrow> nat \<Rightarrow> int option" where
  "strcmp_loop p q i =
     (if p i \<noteq> 0 \<and> p i = q i then strcmp_loop p q (Suc i)
      else Some (uint (p i) - uint (q i)))"

definition strcmp :: "(nat \<Rightarrow> u8) \<Rightarrow> (nat \<Rightarrow> u8) \<Rightarrow> int option" where
  "strcmp p q = strcmp_loop p q 0"

section \<open>Closed forms\<close>

lemma memset_loop_eq:
  "n < 2 ^ 64 \<Longrightarrow> memset_loop m d c n a = (if in_region d n a then c else m a)"
  by (induction n arbitrary: m d) (auto simp: in_region_Suc)

lemma memset_eq: "memset m d c n = (\<lambda>a. if in_region d (unat n) a then ucast c else m a)"
  using unat_u32_less[of n] by (simp add: memset_def memset_loop_eq fun_eq_iff)

lemma zero_fill_eq:
  "n < 2 ^ 64 \<Longrightarrow> zero_fill m d n a = (if in_region d n a then 0 else m a)"
  by (induction n arbitrary: m d) (auto simp: in_region_Suc)

text \<open>
  An upward copy is right unless the destination starts inside the source, a downward
  copy unless the source starts inside the destination.
\<close>

lemma copy_up_eq:
  assumes "n < 2 ^ 64" "d = s \<or> n \<le> unat (d - s)"
  shows "copy_up m d s n a = (if in_region d n a then m (s + (a - d)) else m a)"
  using assms
proof (induction n arbitrary: m d s)
  case (Suc n)
  let ?m = "m(d := m s)"
  have n: "n < 2 ^ 64" using Suc.prems by simp
  have "copy_up ?m (d + 1) (s + 1) n a =
      (if in_region (d + 1) n a then ?m (s + 1 + (a - (d + 1))) else ?m a)"
    using Suc.prems by (intro Suc.IH) auto
  moreover have "?m (s + 1 + (a - (d + 1))) = m (s + (a - d))" if "in_region (d + 1) n a"
  proof (cases "s + (a - d) = d")
    case True
    then have "d - s = a - d" by (metis add_diff_cancel_left')
    moreover have "unat (a - d) < Suc n"
      using that n in_region_Suc[of n d a] by (simp add: in_region_def)
    moreover have "a \<noteq> d" using that not_in_region_next[OF n] by auto
    ultimately show ?thesis using Suc.prems(2) True by auto
  qed (simp add: algebra_simps)
  ultimately show ?case using n by (auto simp: in_region_Suc)
qed simp

lemma in_region_Suc_end:
  assumes "n < 2 ^ 64"
  shows "in_region d (Suc n) a \<longleftrightarrow> a = d + of_nat n \<or> in_region d n a"
proof -
  have "unat (a - d) = n \<longleftrightarrow> a - d = of_nat n"
    using unat_of_nat_u64[OF assms] by (auto simp: word_unat_eq_iff)
  also have "\<dots> \<longleftrightarrow> a = d + of_nat n" by (auto simp: algebra_simps)
  finally show ?thesis by (auto simp: in_region_def less_Suc_eq)
qed

lemma copy_down_eq:
  assumes "n < 2 ^ 64" "d = s \<or> n \<le> unat (s - d)"
  shows "copy_down m (d + of_nat n) (s + of_nat n) n a =
    (if in_region d n a then m (s + (a - d)) else m a)"
  using assms
proof (induction n arbitrary: m)
  case (Suc n)
  let ?m = "m(d + of_nat n := m (s + of_nat n))"
  have n: "n < 2 ^ 64" using Suc.prems by simp
  have e: "d + of_nat (Suc n) - 1 = d + of_nat n" "s + of_nat (Suc n) - 1 = s + of_nat n"
    by simp_all
  have "copy_down ?m (d + of_nat n) (s + of_nat n) n a =
      (if in_region d n a then ?m (s + (a - d)) else ?m a)"
    using Suc.prems by (intro Suc.IH) auto
  moreover have "?m (s + (a - d)) = m (s + (a - d))" if "in_region d n a"
  proof (cases "s + (a - d) = d + of_nat n")
    case True
    then have "s - d = of_nat n - (a - d)" by (simp add: algebra_simps)
    moreover have lt: "unat (a - d) < n" using that by (simp add: in_region_def)
    moreover have "a - d \<le> of_nat n"
      using lt n by (simp add: word_le_nat_alt unat_of_nat_u64)
    ultimately have "unat (s - d) = n - unat (a - d)"
      using n by (simp only: unat_sub unat_of_nat_u64)
    then show ?thesis using Suc.prems(2) lt by auto
  qed simp
  moreover have "a = d + of_nat n \<Longrightarrow> \<not> in_region d n a"
    using n by (auto simp: in_region_def unat_of_nat_u64)
  ultimately show ?case
    using n by (simp only: copy_down.simps e) (auto simp: in_region_Suc_end)
qed simp

lemma memmove_eq:
  assumes "unat src + unat n < 2 ^ 64" "unat dst + unat n \<le> 2 ^ 64"
  shows "memmove m dst src n =
    (\<lambda>a. if in_region dst (unat n) a then m (src + (a - dst)) else m a)"
proof
  fix a
  have n: "unat n < 2 ^ 64" using unat_u32_less[of n] by simp
  have end_src: "unat (src + ucast n) = unat src + unat n"
    using assms(1) unat_add_u64[of src "ucast n"] by (simp add: unat_ucast_u64)
  have neg: "unat (x - y) = 2 ^ 64 + unat x - unat y" if "x < y" for x y :: u64
    using that by (simp add: unat_sub_if' word_less_nat_alt)
  show "memmove m dst src n a = (if in_region dst (unat n) a then m (src + (a - dst)) else m a)"
  proof (cases "src < dst \<and> dst < src + ucast n")
    case True
    then have "unat n \<le> unat (src - dst)"
      using neg[of src dst] assms(2) by simp
    then show ?thesis
      using True n copy_down_eq[of "unat n" dst src m a] by (auto simp: memmove_def)
  next
    case False
    have "dst = src \<or> unat n \<le> unat (dst - src)"
    proof (cases "src \<le> dst")
      case True
      then show ?thesis using False end_src
        by (auto simp: word_less_nat_alt word_le_nat_alt unat_sub word_unat_eq_iff)
    next
      case below: False
      then have "unat (dst - src) = 2 ^ 64 + unat dst - unat src" by (intro neg) simp
      then show ?thesis using assms(1) by linarith
    qed
    then show ?thesis
      using False n copy_up_eq[of "unat n" dst src m a] by (auto simp: memmove_def)
  qed
qed

text \<open>
  C36. memmove gives every destination byte the value the source byte had before the
  call, also when the two regions overlap, and writes nothing else; the regions must
  not run over the end of the address space.
\<close>

theorem memmove_copies:
  assumes "unat src + unat n < 2 ^ 64" "unat dst + unat n \<le> 2 ^ 64"
  shows "memmove m dst src n =
    (\<lambda>a. if in_region dst (unat n) a then m (src + (a - dst)) else m a)"
  using assms by (rule memmove_eq)

theorem memmove_copies_witness:
  "memmove (\<lambda>a. ucast a) 2 1 3 4 = 3"
  by (subst memmove_copies) (simp_all add: in_region_def)

section \<open>String lemmas\<close>

text \<open>The string in a buffer of \<open>n\<close> bytes: up to the first NUL, or all of it.\<close>

definition cstring :: "(nat \<Rightarrow> u8) \<Rightarrow> nat \<Rightarrow> u8 list" where
  "cstring p n = takeWhile (\<lambda>b. b \<noteq> 0) (map p [0..<n])"

text \<open>What \<open>strncpy\<close> leaves in a buffer of \<open>n\<close> bytes.\<close>

definition strncpy_bytes :: "(nat \<Rightarrow> u8) \<Rightarrow> nat \<Rightarrow> u8 list" where
  "strncpy_bytes p n = cstring p n @ replicate (n - length (cstring p n)) 0"

lemma cstring_0 [simp]: "cstring p 0 = []"
  by (simp add: cstring_def)

lemma cstring_Suc: "cstring p (Suc n) = (if p 0 = 0 then [] else p 0 # cstring (p \<circ> Suc) n)"
proof -
  have "[0..<Suc n] = 0 # map Suc [0..<n]"
    by (simp add: map_Suc_upt upt_conv_Cons del: upt_Suc)
  then have "map p [0..<Suc n] = p 0 # map (p \<circ> Suc) [0..<n]" by (simp only:) simp
  then show ?thesis unfolding cstring_def by (simp only:) simp
qed

lemma cstring_cong: "(\<And>i. i < n \<Longrightarrow> p i = q i) \<Longrightarrow> cstring p n = cstring q n"
  unfolding cstring_def by (rule arg_cong[where f = "takeWhile _"]) simp

lemma length_cstring: "length (cstring p n) \<le> n"
  using length_takeWhile_le[of "\<lambda>b. b \<noteq> 0" "map p [0..<n]"] by (simp add: cstring_def)

lemma length_strncpy_bytes [simp]: "length (strncpy_bytes p n) = n"
  using length_cstring[of p n] by (simp add: strncpy_bytes_def)

lemma strncpy_bytes_Suc:
  "strncpy_bytes p (Suc n) =
     (if p 0 = 0 then replicate (Suc n) 0 else p 0 # strncpy_bytes (p \<circ> Suc) n)"
  by (simp add: strncpy_bytes_def cstring_Suc)

lemma strncpy_bytes_cong: "(\<And>i. i < n \<Longrightarrow> p i = q i) \<Longrightarrow> strncpy_bytes p n = strncpy_bytes q n"
  unfolding strncpy_bytes_def by (metis cstring_cong)

lemma reader_Suc: "reader m p \<circ> Suc = reader m (p + 1)"
  by (simp add: reader_def fun_eq_iff add.assoc)

lemma strncmp_loop_shift: "strncmp_loop p q (Suc i) n = strncmp_loop (p \<circ> Suc) (q \<circ> Suc) i n"
  by (induction n arbitrary: i) simp_all

lemma uint_u8_eq: "uint (a :: u8) = uint b \<longleftrightarrow> a = b"
  by (simp add: word_uint_eq_iff)

lemma strncmp_loop_zero: "strncmp_loop p q 0 n = 0 \<longleftrightarrow> cstring p n = cstring q n"
  by (induction n arbitrary: p q)
    (auto simp: cstring_Suc strncmp_loop_shift uint_u8_eq uint_0_iff)

text \<open>
  C37. strncmp answers 0 exactly when the two buffers hold the same string in their
  first n bytes (the comparison namecmp makes on directory entries).
\<close>

theorem strncmp_equal_strings:
  "strncmp p q n = 0 \<longleftrightarrow> cstring p (unat n) = cstring q (unat n)"
  by (simp add: strncmp_def strncmp_loop_zero)

text \<open>Source and destination buffers that do not overlap.\<close>

definition disjoint_bufs :: "u64 \<Rightarrow> u64 \<Rightarrow> nat \<Rightarrow> bool" where
  "disjoint_bufs s t n \<longleftrightarrow> n \<le> unat (s - t) \<and> n \<le> unat (t - s)"

lemma disjoint_bufs_next: "disjoint_bufs s t (Suc n) \<Longrightarrow> disjoint_bufs (s + 1) (t + 1) n"
  by (simp add: disjoint_bufs_def)

lemma disjoint_bufs_neq:
  assumes "disjoint_bufs s t n" "i < n"
  shows "s \<noteq> t + of_nat i"
proof
  assume "s = t + of_nat i"
  then have "s - t = of_nat i" by simp
  moreover have "i < 2 ^ 64"
    using assms unat_u64_less[of "s - t"] by (simp add: disjoint_bufs_def)
  ultimately have "unat (s - t) = i" by (simp only: unat_of_nat_u64)
  with assms show False by (simp add: disjoint_bufs_def)
qed

lemma unat_in_region_next:
  assumes "n < 2 ^ 64" "in_region (s + 1) n a"
  shows "unat (a - s) = Suc (unat (a - (s + 1)))"
proof -
  have "unat (a - (s + 1)) + unat (1 :: u64) < 2 ^ 64"
    using assms by (simp add: in_region_def)
  then have "unat (a - (s + 1) + 1) = unat (a - (s + 1)) + unat (1 :: u64)"
    by (rule unat_add_u64)
  then show ?thesis by (simp add: algebra_simps)
qed

lemma strncpy_loop_eq:
  assumes "disjoint_bufs s t n"
  shows "strncpy_loop m s t n a =
    (if in_region s n a then strncpy_bytes (reader m t) n ! unat (a - s) else m a)"
  using assms
proof (induction n arbitrary: m s t)
  case (Suc n)
  define m' where "m' = m(s := m t)"
  have n: "n < 2 ^ 64"
    using Suc.prems unat_u64_less[of "s - t"] by (simp add: disjoint_bufs_def)
  have step: "strncpy_loop m s t (Suc n) a =
      (if m t \<noteq> 0 then strncpy_loop m' (s + 1) (t + 1) n a else zero_fill m' (s + 1) n a)"
    by (simp add: m'_def Let_def)
  have rd: "strncpy_bytes (reader m' (t + 1)) n = strncpy_bytes (reader m (t + 1)) n"
  proof (rule strncpy_bytes_cong)
    fix i assume "i < n"
    then have "s \<noteq> t + of_nat (Suc i)" using Suc.prems by (intro disjoint_bufs_neq) auto
    then show "reader m' (t + 1) i = reader m (t + 1) i" by (simp add: m'_def reader_def add.assoc)
  qed
  have m0: "reader m t 0 = m t" by (simp add: reader_def)
  have m': "m' s = m t" "x \<noteq> s \<Longrightarrow> m' x = m x" for x by (simp_all add: m'_def)
  note IH = Suc.IH[OF disjoint_bufs_next[OF Suc.prems], of m']
  consider "a = s" | "a \<noteq> s" "in_region (s + 1) n a" | "a \<noteq> s" "\<not> in_region (s + 1) n a"
    by blast
  then show ?case
  proof cases
    case 1
    then show ?thesis
      using n m0 IH not_in_region_next[OF n, of s] unfolding step
      by (simp add: zero_fill_eq strncpy_bytes_Suc m')
  next
    case 2
    have idx: "unat (a - s) = Suc (unat (a - (s + 1)))" "unat (a - (s + 1)) < n"
      by (rule unat_in_region_next[OF n 2(2)]) (use 2(2) in \<open>simp only: in_region_def\<close>)
    show ?thesis
      using 2 n rd m0 idx IH unfolding step
      by (simp add: zero_fill_eq strncpy_bytes_Suc in_region_Suc reader_Suc)
  next
    case 3
    then show ?thesis
      using n IH unfolding step by (simp add: zero_fill_eq in_region_Suc m')
  qed
qed simp



lemma cstring_reader_upd:
  assumes "disjoint_bufs s t (Suc n)"
  shows "cstring (reader (m(s := b)) (t + 1)) n = cstring (reader m (t + 1)) n"
proof (rule cstring_cong)
  fix i assume "i < n"
  then have "s \<noteq> t + of_nat (Suc i)" using assms by (intro disjoint_bufs_neq) auto
  then show "reader (m(s := b)) (t + 1) i = reader m (t + 1) i" by (simp add: reader_def add.assoc)
qed

lemma safestrcpy_loop_frame:
  assumes "Suc k < 2 ^ 64" "\<not> in_region s (Suc k) a"
  shows "safestrcpy_loop m s t k a = m a"
  using assms
proof (induction k arbitrary: m s t)
  case (Suc k)
  then have "a \<noteq> s" "\<not> in_region (s + 1) (Suc k) a"
    using in_region_Suc[of "Suc k" s a] by auto
  moreover have "a \<noteq> s + 1" using calculation(2) by auto
  ultimately show ?case using Suc by (simp add: Let_def)
qed (auto simp: in_region_def)

lemma safestrcpy_loop_string:
  assumes "disjoint_bufs s t (Suc k)"
  shows "cstring (reader (safestrcpy_loop m s t k) s) (Suc k) = cstring (reader m t) k"
  using assms
proof (induction k arbitrary: m s t)
  case 0
  show ?case by (simp add: cstring_Suc reader_def)
next
  case (Suc k)
  define m1 where "m1 = m(s := m t)"
  define m2 where "m2 = safestrcpy_loop m1 (s + 1) (t + 1) k"
  have k: "Suc k < 2 ^ 64"
    using Suc.prems unat_u64_less[of "s - t"] by (simp add: disjoint_bufs_def)
  show ?case
  proof (cases "m t = 0")
    case True
    then show ?thesis by (simp add: cstring_Suc reader_def Let_def)
  next
    case False
    have "disjoint_bufs s t (Suc k)"
      using Suc.prems by (simp add: disjoint_bufs_def)
    then have "cstring (reader m1 (t + 1)) k = cstring (reader m (t + 1)) k"
      unfolding m1_def by (rule cstring_reader_upd)
    moreover have "cstring (reader m2 (s + 1)) (Suc k) = cstring (reader m1 (t + 1)) k"
      unfolding m2_def using Suc.IH disjoint_bufs_next[OF Suc.prems] by blast
    moreover have "m2 s = m t"
      unfolding m2_def using safestrcpy_loop_frame[OF k not_in_region_next[OF k]]
      by (simp add: m1_def)
    ultimately have "cstring (reader m2 s) (Suc (Suc k)) = cstring (reader m t) (Suc k)"
      using False by (simp add: cstring_Suc[of _ "Suc k"] cstring_Suc[of _ k] reader_Suc)
        (simp add: reader_def)
    moreover have "safestrcpy_loop m s t (Suc k) = m2"
      using False by (simp add: m2_def m1_def Let_def)
    ultimately show ?thesis by (simp only:)
  qed
qed

text \<open>
  C39. safestrcpy always leaves a NUL-terminated string in the destination: with n > 0 and
  disjoint buffers the n-byte destination holds the source string cut at n - 1 bytes, and
  no byte outside the destination changes.
\<close>

theorem safestrcpy_terminates_string:
  assumes "0 < sint n" "disjoint_bufs s t (nat (sint n))"
  shows "cstring (reader (safestrcpy m s t n) s) (nat (sint n)) = cstring (reader m t) (nat (sint n) - 1)
    \<and> length (cstring (reader (safestrcpy m s t n) s) (nat (sint n))) < nat (sint n)
    \<and> (\<forall>a. \<not> in_region s (nat (sint n)) a \<longrightarrow> safestrcpy m s t n a = m a)"
proof -
  obtain k where k: "nat (sint n) = Suc k" "nat (sint n - 1) = k"
    using assms(1) by (metis Suc_pred' nat_diff_distrib' nat_one_as_int diff_Suc_1 gr0_conv_Suc
        nat_1 nat_less_iff order_less_imp_le zero_less_nat_eq One_nat_def)
  have eq: "safestrcpy m s t n = safestrcpy_loop m s t k"
    using assms(1) k by (simp add: safestrcpy_def)
  have str: "cstring (reader (safestrcpy m s t n) s) (Suc k) = cstring (reader m t) k"
    using safestrcpy_loop_string assms(2) k by (simp add: eq)
  have "Suc k < 2 ^ 64"
    using assms(2) k unat_u64_less[of "s - t"] by (simp add: disjoint_bufs_def)
  then have "\<not> in_region s (Suc k) a \<longrightarrow> safestrcpy m s t n a = m a" for a
    by (simp add: eq safestrcpy_loop_frame)
  then show ?thesis
    using length_cstring[of "reader m t" k] str by (simp add: k)
qed

theorem safestrcpy_terminates_string_witness:
  "cstring (reader (safestrcpy (\<lambda>a. 65) 200 100 3) 200) 3 = [65, 65]"
proof -
  have "0 < sint (3 :: i32)" "disjoint_bufs 200 100 (nat (sint (3 :: i32)))"
    by (simp_all add: disjoint_bufs_def)
  from safestrcpy_terminates_string[OF this, of "\<lambda>a. 65"]
  show ?thesis by (simp add: cstring_def reader_def upt_rec)
qed

lemma strlen_loop_Some:
  "s k = 0 \<Longrightarrow> (\<And>i. n \<le> i \<Longrightarrow> i < k \<Longrightarrow> s i \<noteq> 0) \<Longrightarrow> n \<le> k \<Longrightarrow> strlen_loop s n = Some k"
proof (induction "k - n" arbitrary: n)
  case 0
  then show ?case by (simp add: strlen_loop.simps)
next
  case (Suc d)
  then have "s n \<noteq> 0" "strlen_loop s (Suc n) = Some k" by auto
  then show ?case by (simp add: strlen_loop.simps[of s n])
qed



end
