(* ===== verification/Kalloc.thy ===== *)
theory Kalloc
  imports Spinlock Cstring
begin

text \<open>
  kernel/mm/kalloc.c: the physical page allocator. Free pages are in a small stack
  \<open>page_cache\<close> and in \<open>kmem.freelist\<close>, a list threaded through the first eight bytes
  of each free page and kept in address order. The model works on byte memory, so the
  list is the one in the pages; the abstraction is the pair of page lists. The first
  part of the lemmas is about the linked list, the second about the operations; the
  locale \<open>page_allocator\<close> is the contract the rest of the kernel relies on.
\<close>

section \<open>State\<close>

record kalloc_state = machine +
  freelist :: u64
  pool_buf :: "u64 list"
  pool_n :: int
  initialized :: bool

section \<open>Operations\<close>

text \<open>\<open>while (prev->next && prev->next < r) prev = prev->next;\<close>\<close>

partial_function (option) find_prev :: "memory \<Rightarrow> u64 \<Rightarrow> u64 \<Rightarrow> u64 option" where
  "find_prev m prev r =
     (let nx = load64 m prev
      in if nx \<noteq> 0 \<and> nx < r then find_prev m nx r else Some prev)"

definition free_page_to_freelist ::
    "u64 \<Rightarrow> 'z kalloc_state_scheme \<Rightarrow> 'z kalloc_state_scheme res" where
  "free_page_to_freelist r s =
     bind_res (kacquire L_kmem s) (\<lambda>s.
     bind_res
       (if freelist s = 0 \<or> r < freelist s
        then Ok (s\<lparr>mem := store64 (mem s) r (freelist s), freelist := r\<rparr>)
        else case find_prev (mem s) (freelist s) r of
               None \<Rightarrow> Hang
             | Some prev \<Rightarrow>
                 let m1 = store64 (mem s) r (load64 (mem s) prev)
                 in Ok (s\<lparr>mem := store64 m1 prev r\<rparr>)) (\<lambda>s.
     krelease L_kmem s))"

definition free_page :: "u64 \<Rightarrow> 'z kalloc_state_scheme \<Rightarrow> 'z kalloc_state_scheme res" where
  "free_page pa s =
     (if pa mod PAGESIZE \<noteq> 0 \<or> pa < ld_end s \<or> PHYSTOP \<le> pa
      then Panic ''free_page: invalid page''
      else
        let s = (if initialized s then s\<lparr>mem := memset (mem s) pa 1 (ucast PAGESIZE)\<rparr> else s) in
        bind_res (kacquire L_page_cache s) (\<lambda>s.
        if pool_n s < int PAGE_POOL_CAP
        then krelease L_page_cache
               (s\<lparr>pool_buf := (pool_buf s)[nat (pool_n s) := pa], pool_n := pool_n s + 1\<rparr>)
        else bind_res (krelease L_page_cache s) (\<lambda>s.
             free_page_to_freelist pa s)))"

definition alloc_page :: "'z kalloc_state_scheme \<Rightarrow> (u64 \<times> 'z kalloc_state_scheme) res" where
  "alloc_page s =
     bind_res (kacquire L_page_cache s) (\<lambda>s.
     if 0 < pool_n s
     then let n = pool_n s - 1; p = pool_buf s ! nat n in
          bind_res (krelease L_page_cache (s\<lparr>pool_n := n\<rparr>)) (\<lambda>s.
          Ok (p, s\<lparr>mem := memset (mem s) p 5 (ucast PAGESIZE)\<rparr>))
     else
       bind_res (krelease L_page_cache s) (\<lambda>s.
       bind_res (kacquire L_kmem s) (\<lambda>s.
       let r = freelist s;
           s = (if r \<noteq> 0 then s\<lparr>freelist := load64 (mem s) r\<rparr> else s) in
       bind_res (krelease L_kmem s) (\<lambda>s.
       Ok (r, if r \<noteq> 0 then s\<lparr>mem := memset (mem s) r 5 (ucast PAGESIZE)\<rparr> else s)))))"

text \<open>
  The scan of \<open>alloc_pages\<close>: \<open>Some (Some (seg_start, seg_prev))\<close> when a run of \<open>n\<close>
  adjacent pages is found, \<open>Some None\<close> at the end of the list.
\<close>

partial_function (option) seg_search ::
    "memory \<Rightarrow> int \<Rightarrow> u64 \<Rightarrow> u64 \<Rightarrow> u64 \<Rightarrow> u64 \<Rightarrow> u64 \<Rightarrow> int \<Rightarrow> (u64 \<times> u64) option option" where
  "seg_search m n prev cur seg_start seg_prev seg_end seg_len =
     (if cur = 0 then Some None
      else
        let (seg_start, seg_prev, seg_end, seg_len) =
              (if seg_len = 0 then (cur, prev, cur, 1)
               else if cur = seg_end + PAGESIZE then (seg_start, seg_prev, cur, seg_len + 1)
               else (cur, prev, cur, 1))
        in if seg_len = n then Some (Some (seg_start, seg_prev))
           else seg_search m n cur (load64 m cur) seg_start seg_prev seg_end seg_len)"

primrec follow_next :: "memory \<Rightarrow> u64 \<Rightarrow> nat \<Rightarrow> u64" where
  "follow_next m p 0 = p"
| "follow_next m p (Suc k) = follow_next m (load64 m p) k"

primrec fill_pages :: "memory \<Rightarrow> u64 \<Rightarrow> nat \<Rightarrow> nat \<Rightarrow> memory" where
  "fill_pages m base i 0 = m"
| "fill_pages m base i (Suc k) =
     fill_pages (memset m (base + of_nat i * PAGESIZE) 3 (ucast PAGESIZE)) base (Suc i) k"

definition alloc_pages :: "i32 \<Rightarrow> 'z kalloc_state_scheme \<Rightarrow> (u64 \<times> 'z kalloc_state_scheme) res" where
  "alloc_pages n s =
     (if sint n \<le> 0 then Ok (0, s)
      else
        bind_res (kacquire L_kmem s) (\<lambda>s.
        case seg_search (mem s) (sint n) 0 (freelist s) 0 0 0 0 of
          None \<Rightarrow> Hang
        | Some None \<Rightarrow>
            bind_res (krelease L_kmem s) (\<lambda>s. Panic (''alloc_pages: not enough free pages'' @ [CHR 0x0A]))
        | Some (Some (seg_start, seg_prev)) \<Rightarrow>
            let cut_end = follow_next (mem s) seg_start (nat (sint n) - 1);
                rest = load64 (mem s) cut_end;
                s = (if seg_prev \<noteq> 0 then s\<lparr>mem := store64 (mem s) seg_prev rest\<rparr>
                     else s\<lparr>freelist := rest\<rparr>);
                s = s\<lparr>mem := store64 (mem s) cut_end 0\<rparr>
            in bind_res (krelease L_kmem s) (\<lambda>s.
               Ok (seg_start, s\<lparr>mem := fill_pages (mem s) seg_start 0 (nat (sint n))\<rparr>))))"

lemma free_page_Ok_range:
  "free_page pa s = Ok s' \<Longrightarrow> pa mod PAGESIZE = 0 \<and> ld_end s \<le> pa \<and> pa < PHYSTOP"
  by (auto simp: free_page_def split: if_splits)

text \<open>
  The loop of \<open>freerange\<close>. It ends because \<open>free_page\<close> panics below \<open>end\<close> and from
  \<open>PHYSTOP\<close> on, also after \<open>p - PAGESIZE\<close> has wrapped.
\<close>

function freerange_loop ::
    "u64 \<Rightarrow> u64 \<Rightarrow> 'z kalloc_state_scheme \<Rightarrow> 'z kalloc_state_scheme res" where
  "freerange_loop start p s =
     (if start \<le> p then bind_res (free_page p s) (\<lambda>s. freerange_loop start (p - PAGESIZE) s)
      else Ok s)"
  by pat_completeness auto
termination
proof (relation "measure (\<lambda>(start, p, s). if p < PHYSTOP then Suc (unat p) else 0)")
  fix start p :: u64 and s s' :: "'z kalloc_state_scheme"
  assume "free_page p s = Ok s'"
  then have p: "p mod PAGESIZE = 0" "p < PHYSTOP" using free_page_Ok_range by blast+
  show "((start, p - PAGESIZE, s'), start, p, s)
    \<in> measure (\<lambda>(start, p, s). if p < PHYSTOP then Suc (unat p) else 0)"
  proof (cases "p = 0")
    case True
    then show ?thesis by (simp add: PHYSTOP_def PAGESIZE_def)
  next
    case False
    have "unat p mod 4096 = 0" using p(1) by (simp add: page_aligned_unat[symmetric] page_aligned_def)
    moreover have "unat p \<noteq> 0" using False by (simp add: unat_eq_0)
    ultimately have "4096 \<le> unat p" by (metis mod_less neq0_conv not_less)
    then have "unat (p - PAGESIZE) = unat p - 4096"
      by (simp add: unat_sub word_le_nat_alt)
    then show ?thesis using p(2) \<open>4096 \<le> unat p\<close> by simp
  qed
qed simp

declare freerange_loop.simps [simp del]

definition freerange :: "u64 \<Rightarrow> u64 \<Rightarrow> 'z kalloc_state_scheme \<Rightarrow> 'z kalloc_state_scheme res" where
  "freerange pa_start pa_end s = freerange_loop (PAGEROUNDUP pa_start) (pa_end - PAGESIZE) s"

definition kmem_init :: "'z kalloc_state_scheme \<Rightarrow> 'z kalloc_state_scheme res" where
  "kmem_init s =
     (let s = s\<lparr>sy := initlock L_page_cache ''page_cache'' (initlock L_kmem ''kmem'' (sy s)),
                pool_n := 0, initialized := False\<rparr>
      in bind_res (freerange (ld_end s) PHYSTOP s) (\<lambda>s. Ok (s\<lparr>initialized := True\<rparr>)))"

section \<open>Linked lists in memory\<close>

primrec flist :: "memory \<Rightarrow> u64 \<Rightarrow> u64 list \<Rightarrow> bool" where
  "flist m p [] \<longleftrightarrow> p = 0"
| "flist m p (q # qs) \<longleftrightarrow> p = q \<and> q \<noteq> 0 \<and> flist m (load64 m q) qs"

lemma flist_0 [simp]: "flist m 0 qs \<longleftrightarrow> qs = []"
  by (cases qs) auto

lemma flist_nonzero: "p \<noteq> 0 \<Longrightarrow> flist m p qs \<longleftrightarrow> (\<exists>qs'. qs = p # qs' \<and> flist m (load64 m p) qs')"
  by (cases qs) auto

lemma flist_cong:
  "(\<And>q. q \<in> set qs \<Longrightarrow> load64 m' q = load64 m q) \<Longrightarrow> flist m' p qs \<longleftrightarrow> flist m p qs"
  by (induction qs arbitrary: p) auto

lemma flist_unique: "flist m p qs \<Longrightarrow> flist m p rs \<Longrightarrow> qs = rs"
  by (induction qs arbitrary: p rs) (auto simp: flist_nonzero)

lemma flist_distinct: "flist m p qs \<Longrightarrow> distinct qs"
proof (induction qs arbitrary: p)
  case (Cons q qs)
  have "q \<notin> set qs"
  proof
    assume "q \<in> set qs"
    then obtain as bs where qs: "qs = as @ q # bs" by (meson split_list)
    have suffix: "flist m p (as @ bs') \<Longrightarrow> \<exists>r. flist m r bs'" for p as bs'
      by (induction as arbitrary: p) auto
    have "flist m q (q # bs)" using Cons.prems qs suffix[of _ "q # as" "q # bs"] by auto
    moreover have "flist m q (q # qs)" using Cons.prems by simp
    ultimately have "bs = qs" using flist_unique by blast
    then show False using qs by (metis append_self_conv2 append_Cons list.distinct(1)
          length_append length_Cons add_Suc_right less_add_Suc2 nat_neq_iff)
  qed
  then show ?case using Cons by auto
qed simp

lemma load64_page_cong:
  assumes "page_aligned q" "\<And>a. in_region q 4096 a \<Longrightarrow> m' a = m a"
  shows "load64 m' q = load64 m q"
  using assms table_slot(3)[of q 0] by (intro load64_cong) simp

lemma page_aligned_8: "page_aligned p \<Longrightarrow> unat p mod 8 = 0"
  using table_slot(2)[of p 0] by simp

lemma load64_store64_page:
  "page_aligned p \<Longrightarrow> page_aligned q \<Longrightarrow> p \<noteq> q \<Longrightarrow> load64 (store64 m p v) q = load64 m q"
  by (simp add: load64_store64_other page_aligned_8)

text \<open>Linking page \<open>r\<close> behind the node the search stops at is a sorted insertion.\<close>

lemma find_prev_insert:
  assumes "flist m x (x # xs)" "sorted (x # xs)" "x < r" "r \<notin> set xs"
    and "page_aligned r" "\<forall>q \<in> set (x # xs). page_aligned q"
  shows "\<exists>prev. find_prev m x r = Some prev \<and> prev \<in> set (x # xs)
    \<and> flist (store64 (store64 m r (load64 m prev)) prev r) x (x # insort r xs)"
  using assms
proof (induction xs arbitrary: x)
  case Nil
  let ?m = "store64 (store64 m r (load64 m x)) x r"
  have "load64 ?m r = load64 (store64 m r (load64 m x)) r"
    using Nil.prems by (intro load64_store64_page) auto
  then have "load64 ?m r = load64 m x" by simp
  then show ?case using Nil.prems by (auto simp: find_prev.simps)
next
  case (Cons y ys)
  have nx: "load64 m x = y" "y \<noteq> 0" "flist m y (y # ys)" using Cons.prems(1) by auto
  have xr: "x \<noteq> r" "x \<noteq> 0" using Cons.prems by auto
  have dist: "distinct (x # y # ys)" using Cons.prems(1) by (rule flist_distinct)
  show ?case
  proof (cases "y < r")
    case True
    obtain prev where prev: "find_prev m y r = Some prev" "prev \<in> set (y # ys)"
      "flist (store64 (store64 m r (load64 m prev)) prev r) y (y # insort r ys)"
      using Cons.IH[OF nx(3)] Cons.prems True by auto
    let ?m = "store64 (store64 m r (load64 m prev)) prev r"
    have "load64 ?m x = load64 (store64 m r (load64 m prev)) x"
      using Cons.prems prev(2) dist by (intro load64_store64_page) auto
    also have "\<dots> = load64 m x" using Cons.prems xr by (intro load64_store64_page) auto
    finally have "load64 ?m x = y" using nx by simp
    moreover have "find_prev m x r = Some prev"
      using True nx prev(1) by (simp add: find_prev.simps[of m x])
    ultimately show ?thesis using prev xr True by auto
  next
    case False
    let ?m = "store64 (store64 m r (load64 m x)) x r"
    have "r < y" using False Cons.prems(4) by auto
    have other: "load64 ?m q = load64 m q" if "q \<in> set (y # ys)" for q
    proof -
      have "load64 ?m q = load64 (store64 m r (load64 m x)) q"
        using that Cons.prems dist by (intro load64_store64_page) auto
      also have "\<dots> = load64 m q" using that Cons.prems by (intro load64_store64_page) auto
      finally show ?thesis .
    qed
    have "load64 ?m r = load64 (store64 m r (load64 m x)) r"
      using Cons.prems xr by (intro load64_store64_page) auto
    then have "load64 ?m r = y" using nx by simp
    moreover have "flist ?m y (y # ys)" using nx(3) flist_cong[of "y # ys" ?m m y] other by blast
    moreover have "find_prev m x r = Some x" using False nx by (simp add: find_prev.simps)
    moreover have "r \<noteq> 0" using Cons.prems(3) by auto
    ultimately show ?thesis using \<open>r < y\<close> xr by auto
  qed
qed

section \<open>The free pages\<close>

definition valid_page :: "'z machine_scheme \<Rightarrow> u64 \<Rightarrow> bool" where
  "valid_page s p \<longleftrightarrow> page_aligned p \<and> ld_end s \<le> p \<and> p < PHYSTOP"

text \<open>The allocator state holds the pages \<open>cache\<close> in the pool and \<open>fl\<close> in the list.\<close>

definition kmem_rep :: "'z kalloc_state_scheme \<Rightarrow> u64 list \<Rightarrow> u64 list \<Rightarrow> bool" where
  "kmem_rep s cache fl \<longleftrightarrow> length (pool_buf s) = PAGE_POOL_CAP
     \<and> pool_n s = int (length cache) \<and> length cache \<le> PAGE_POOL_CAP
     \<and> take (length cache) (pool_buf s) = cache
     \<and> flist (mem s) (freelist s) fl \<and> sorted fl \<and> distinct (cache @ fl)
     \<and> (\<forall>p \<in> set cache \<union> set fl. valid_page s p) \<and> KERNBASE \<le> ld_end s"

definition kmem_ready :: "'z kalloc_state_scheme \<Rightarrow> bool" where
  "kmem_ready s \<longleftrightarrow> wf_sync 1 (sy s) \<and> lock_free L_kmem (sy s) \<and> lock_free L_page_cache (sy s)"

definition kmem_pages :: "'z kalloc_state_scheme \<Rightarrow> u64 set \<Rightarrow> bool" where
  "kmem_pages s F \<longleftrightarrow> kmem_ready s
     \<and> (\<exists>cache fl. kmem_rep s cache fl \<and> F = set cache \<union> set fl)"

text \<open>What the allocator leaves alone: everything but memory and its own fields.\<close>

definition kmem_step :: "'z kalloc_state_scheme \<Rightarrow> 'z kalloc_state_scheme \<Rightarrow> bool" where
  "kmem_step s s' \<longleftrightarrow> s' = s\<lparr>sy := settled (sy s), mem := mem s', freelist := freelist s',
     pool_buf := pool_buf s', pool_n := pool_n s'\<rparr>"

lemma kmem_stepD:
  assumes "kmem_step s s'"
  shows "sy s' = settled (sy s)" "ld_end s' = ld_end s" "ld_etext s' = ld_etext s"
    "ld_trampoline s' = ld_trampoline s" "initialized s' = initialized s"
    "kalloc_state.more s' = kalloc_state.more s"
proof -
  from assms have s': "s' = s\<lparr>sy := settled (sy s), mem := mem s', freelist := freelist s',
     pool_buf := pool_buf s', pool_n := pool_n s'\<rparr>" by (simp only: kmem_step_def)
  show "sy s' = settled (sy s)" "ld_end s' = ld_end s" "ld_etext s' = ld_etext s"
    "ld_trampoline s' = ld_trampoline s" "initialized s' = initialized s"
    "kalloc_state.more s' = kalloc_state.more s"
    by (subst s', simp)+
qed

lemma kmem_step_ready: "kmem_step s s' \<Longrightarrow> kmem_ready s' \<longleftrightarrow> kmem_ready s"
  by (simp add: kmem_stepD(1) kmem_ready_def)

lemma kmem_step_valid: "kmem_step s s' \<Longrightarrow> valid_page s' p \<longleftrightarrow> valid_page s p"
  by (simp add: kmem_stepD(2) valid_page_def)

lemma kmem_step_trans:
  assumes "kmem_ready s" "kmem_step s s'" "kmem_step s' s''"
  shows "kmem_step s s''"
proof -
  have "mycpu (sy s) < length (cpus (sy s))"
    using assms(1) by (auto simp: kmem_ready_def dest: wf_syncD)
  then show ?thesis
    using assms(2,3) unfolding kmem_step_def by (cases s, cases s', cases s'') auto
qed

lemma valid_page_nonzero: "valid_page s p \<Longrightarrow> KERNBASE \<le> ld_end s \<Longrightarrow> p \<noteq> 0"
  by (auto simp: valid_page_def KERNBASE_def)

lemma kmem_pages_valid: "kmem_pages s F \<Longrightarrow> p \<in> F \<Longrightarrow> valid_page s p \<and> p \<noteq> 0"
  using valid_page_nonzero[of s p] by (auto simp: kmem_pages_def kmem_rep_def)

lemma kmem_pages_finite: "kmem_pages s F \<Longrightarrow> finite F"
  by (auto simp: kmem_pages_def)

lemma kmem_pagesI: "kmem_ready s \<Longrightarrow> kmem_rep s cache fl \<Longrightarrow> F = set cache \<union> set fl \<Longrightarrow> kmem_pages s F"
  unfolding kmem_pages_def by blast

lemma kmem_rep_sy [simp]: "kmem_rep (s\<lparr>sy := y\<rparr>) cache fl \<longleftrightarrow> kmem_rep s cache fl"
  by (simp add: kmem_rep_def valid_page_def)

lemma kmem_pages_settled: "kmem_pages s F \<Longrightarrow> kmem_pages (s\<lparr>sy := settled (sy s)\<rparr>) F"
  by (simp add: kmem_pages_def kmem_ready_def)

lemma memset_page: "memset m p c (ucast PAGESIZE) a = (if in_region p 4096 a then ucast c else m a)"
  by (simp add: memset_eq PAGESIZE_def)

lemmas page_lock_simps = kacquire_free krelease_took[where d = 0]

text \<open>The result of \<open>alloc_page\<close> on each of its three branches.\<close>

lemma alloc_page_eq:
  assumes "kmem_ready s" "kmem_rep s cache fl"
  shows "alloc_page s = Ok (if cache \<noteq> []
      then (last cache, s\<lparr>sy := settled (sy s), pool_n := int (length cache) - 1,
              mem := memset (mem s) (last cache) 5 (ucast PAGESIZE)\<rparr>)
      else case fl of [] \<Rightarrow> (0, s\<lparr>sy := settled (sy s)\<rparr>)
           | p # ps \<Rightarrow> (p, s\<lparr>sy := settled (sy s), freelist := load64 (mem s) p,
                         mem := memset (mem s) p 5 (ucast PAGESIZE)\<rparr>))"
proof (cases "cache = []")
  case False
  have "pool_buf s ! (length cache - 1) = last cache"
    using assms(2) False nth_take[of "length cache - 1" "length cache" "pool_buf s"]
    by (simp add: kmem_rep_def last_conv_nth)
  moreover have "nat (int (length cache) - 1) = length cache - 1" by simp
  ultimately show ?thesis
    using assms False
    by (simp add: alloc_page_def kmem_ready_def kmem_rep_def Let_def page_lock_simps)
next
  case True
  have "mycpu (sy s) < length (cpus (sy s))" using assms(1) by (auto simp: kmem_ready_def dest: wf_syncD)
  then show ?thesis
    using assms True
    by (cases fl) (auto simp: alloc_page_def kmem_ready_def kmem_rep_def Let_def page_lock_simps)
qed

lemma flist_memory_cong:
  assumes "\<forall>q \<in> set qs. page_aligned q" "\<And>a q. q \<in> set qs \<Longrightarrow> in_region q 4096 a \<Longrightarrow> m' a = m a"
  shows "flist m' p qs \<longleftrightarrow> flist m p qs"
  using assms by (intro flist_cong load64_page_cong) auto

lemma memset_page_other:
  "page_aligned p \<Longrightarrow> page_aligned q \<Longrightarrow> p \<noteq> q \<Longrightarrow> in_region q 4096 a \<Longrightarrow>
     memset m p c (ucast PAGESIZE) a = m a"
  using in_region_pages_disjoint[of q p a] by (auto simp: memset_page)

lemma flist_memset:
  assumes "page_aligned p" "\<forall>q \<in> set qs. page_aligned q \<and> q \<noteq> p"
  shows "flist (memset m p c (ucast PAGESIZE)) r qs \<longleftrightarrow> flist m r qs"
  using assms memset_page_other[OF assms(1)] by (intro flist_memory_cong) fastforce+

lemma alloc_page_some:
  assumes "kmem_pages s F" "F \<noteq> {}"
  shows "\<exists>p s'. alloc_page s = Ok (p, s') \<and> p \<in> F \<and> kmem_pages s' (F - {p}) \<and> kmem_step s s'
    \<and> (\<forall>a. mem s' a = (if in_region p 4096 a then 5 else mem s a))"
proof -
  obtain cache fl where rep: "kmem_ready s" "kmem_rep s cache fl" "F = set cache \<union> set fl"
    using assms(1) by (auto simp: kmem_pages_def)
  note eq = alloc_page_eq[OF rep(1,2)]
  show ?thesis
  proof (cases "cache = []")
    case False
    then obtain c p where c: "cache = c @ [p]" by (metis rev_exhaust)
    let ?s = "s\<lparr>sy := settled (sy s), pool_n := int (length cache) - 1,
              mem := memset (mem s) p 5 (ucast PAGESIZE)\<rparr>"
    have "take (length c) (pool_buf s) = c"
      using rep(2) c by (metis append_eq_conv_conj kmem_rep_def length_append take_take
          min.absorb1 le_add1)
    moreover have "flist (mem ?s) (freelist s) fl"
      using rep(2) c flist_memset[of p fl "mem s" 5 "freelist s"]
      by (auto simp: kmem_rep_def valid_page_def)
    ultimately have "kmem_rep ?s c fl"
      using rep(2) c by (auto simp: kmem_rep_def valid_page_def)
    moreover have "kmem_step s ?s" by (simp add: kmem_step_def)
    moreover have "F - {p} = set c \<union> set fl"
      using rep(2,3) c by (auto simp: kmem_rep_def)
    ultimately show ?thesis
      using eq c rep kmem_step_ready[of s ?s]
      by (auto simp: kmem_pages_def memset_page)
  next
    case True
    then obtain p ps where fl: "fl = p # ps" using assms(2) rep(3) by (cases fl) auto
    let ?s = "s\<lparr>sy := settled (sy s), freelist := load64 (mem s) p,
                         mem := memset (mem s) p 5 (ucast PAGESIZE)\<rparr>"
    have "flist (mem ?s) (load64 (mem s) p) ps"
      using rep(2) fl flist_memset[of p ps "mem s" 5 "load64 (mem s) p"]
      by (auto simp: kmem_rep_def valid_page_def)
    then have "kmem_rep ?s [] ps"
      using rep(2) fl True by (auto simp: kmem_rep_def valid_page_def)
    moreover have "kmem_step s ?s" by (simp add: kmem_step_def)
    moreover have "F - {p} = set [] \<union> set ps"
      using rep fl True by (auto simp: kmem_rep_def)
    ultimately show ?thesis
      using eq True rep fl kmem_step_ready[of s ?s] kmem_pagesI[of ?s "[]" ps]
      by (auto simp: memset_page)
  qed
qed

lemma alloc_page_none:
  assumes "kmem_pages s {}"
  shows "alloc_page s = Ok (0, s\<lparr>sy := settled (sy s)\<rparr>)"
  using assms alloc_page_eq[of s "[]" "[]"] by (auto simp: kmem_pages_def)

text \<open>\<open>free_page_to_freelist\<close> is insertion into the sorted list.\<close>

lemma free_page_to_freelist_insort:
  assumes "kmem_ready s" "kmem_rep s cache fl" "valid_page s p" "p \<notin> set cache \<union> set fl"
  shows "\<exists>s'. free_page_to_freelist p s = Ok s' \<and> kmem_rep s' cache (insort p fl) \<and> kmem_step s s'
    \<and> (\<forall>a. (\<forall>q \<in> insert p (set fl). \<not> in_region q 4096 a) \<longrightarrow> mem s' a = mem s a)"
proof -
  have al: "page_aligned p" "\<forall>q \<in> set fl. page_aligned q" and p0: "p \<noteq> 0"
    using assms(2,3) valid_page_nonzero[of s p] by (auto simp: kmem_rep_def valid_page_def)
  have outside: "store64 m q v a = m a" if "page_aligned q" "\<not> in_region q 4096 a" for m q v a
    using that table_slot(3)[of q 0 a] by (intro store64_outside) auto
  have finish: ?thesis
    if "free_page_to_freelist p s = Ok s'" "s' = s\<lparr>sy := settled (sy s), mem := m, freelist := f\<rparr>"
      "flist m f (insort p fl)"
      "\<And>a. \<forall>q \<in> insert p (set fl). \<not> in_region q 4096 a \<Longrightarrow> m a = mem s a" for s' m f
    using that assms
    by (intro exI[of _ s']) (auto simp: kmem_step_def kmem_rep_def valid_page_def set_insort_key
        distinct_insort sorted_insort)
  show ?thesis
  proof (cases "freelist s = 0 \<or> p < freelist s")
    case True
    let ?m = "store64 (mem s) p (freelist s)"
    have "flist ?m (freelist s) fl"
      using assms al by (subst flist_cong[of fl ?m "mem s"])
        (auto simp: kmem_rep_def intro!: load64_store64_page)
    moreover have "insort p fl = p # fl"
      using True assms(2) by (cases fl) (auto simp: kmem_rep_def)
    ultimately have "flist ?m p (insort p fl)" using p0 by simp
    moreover have "free_page_to_freelist p s = Ok (s\<lparr>sy := settled (sy s), mem := ?m, freelist := p\<rparr>)"
      using True assms(1) by (auto simp: free_page_to_freelist_def kmem_ready_def page_lock_simps)
    ultimately show ?thesis using finish[OF _ refl] outside al by simp
  next
    case False
    then obtain x xs where fl: "fl = x # xs" "freelist s = x" "flist (mem s) x (x # xs)"
      using assms(2) by (cases fl) (auto simp: kmem_rep_def)
    have "x < p" "p \<notin> set xs" using False fl assms(4) by auto
    with fl al assms(2) obtain prev where prev: "find_prev (mem s) x p = Some prev" "prev \<in> set fl"
      "flist (store64 (store64 (mem s) p (load64 (mem s) prev)) prev p) x (x # insort p xs)"
      using find_prev_insert[of "mem s" x xs p] by (auto simp: kmem_rep_def)
    let ?m = "store64 (store64 (mem s) p (load64 (mem s) prev)) prev p"
    have "free_page_to_freelist p s = Ok (s\<lparr>sy := settled (sy s), mem := ?m, freelist := x\<rparr>)"
      using False assms(1) prev(1) fl(2)
      by (auto simp: free_page_to_freelist_def kmem_ready_def page_lock_simps Let_def)
    moreover have "flist ?m x (insort p fl)" using prev(3) fl(1) \<open>x < p\<close> by auto
    ultimately show ?thesis using finish[OF _ refl] outside al prev(2) by simp
  qed
qed

lemma kmem_rep_scribble:
  assumes "kmem_rep s cache fl" "valid_page s p" "p \<notin> set fl"
  shows "kmem_rep (s\<lparr>mem := memset (mem s) p c (ucast PAGESIZE)\<rparr>) cache fl"
  using assms flist_memset[of p fl "mem s" c "freelist s"] by (auto simp: kmem_rep_def valid_page_def)

lemma free_page_pages:
  assumes "kmem_pages s F" "valid_page s p" "p \<notin> F"
  shows "\<exists>s'. free_page p s = Ok s' \<and> kmem_pages s' (insert p F) \<and> kmem_step s s'
    \<and> (\<forall>a. (\<forall>q \<in> insert p F. \<not> in_region q 4096 a) \<longrightarrow> mem s' a = mem s a)"
proof -
  obtain cache fl where rep: "kmem_ready s" "kmem_rep s cache fl" "F = set cache \<union> set fl"
    using assms(1) by (auto simp: kmem_pages_def)
  define m where "m = (if initialized s then memset (mem s) p 1 (ucast PAGESIZE) else mem s)"
  let ?s = "s\<lparr>mem := m\<rparr>"
  have repm: "kmem_rep ?s cache fl"
    using kmem_rep_scribble[OF rep(2) assms(2), of 1] assms(3) rep(2,3) by (auto simp: m_def)
  have m: "m a = mem s a" if "\<not> in_region p 4096 a" for a using that by (simp add: m_def memset_page)
  have init: "(if initialized s then s\<lparr>mem := memset (mem s) p 1 (ucast PAGESIZE)\<rparr> else s) = ?s"
    by (simp add: m_def)
  have guard: "\<not> (p mod PAGESIZE \<noteq> 0 \<or> p < ld_end s \<or> PHYSTOP \<le> p)"
    using assms(2) by (auto simp: valid_page_def page_aligned_def)
  have cpu: "mycpu (sy s) < length (cpus (sy s))" using rep(1) by (auto simp: kmem_ready_def dest: wf_syncD)
  show ?thesis
  proof (cases "length cache < PAGE_POOL_CAP")
    case True
    let ?s' = "?s\<lparr>sy := settled (sy s), pool_buf := (pool_buf s)[length cache := p],
                pool_n := int (length cache) + 1\<rparr>"
    have "free_page p s = Ok ?s'"
      using rep(1,2) guard True
      by (simp add: free_page_def init Let_def kmem_ready_def page_lock_simps kmem_rep_def)
    moreover have "kmem_rep ?s' (cache @ [p]) fl"
      using repm assms(2,3) rep(3) True
      by (auto simp: kmem_rep_def valid_page_def take_Suc_conv_app_nth)
    moreover have "kmem_step s ?s'" by (simp add: kmem_step_def)
    ultimately show ?thesis
      using rep(1,3) kmem_step_ready[of s ?s'] m
      by (intro exI[of _ ?s']) (auto intro: kmem_pagesI)
  next
    case False
    let ?s1 = "?s\<lparr>sy := settled (sy s)\<rparr>"
    have "kmem_ready ?s1" "kmem_rep ?s1 cache fl" "valid_page ?s1 p"
      using rep(1) repm assms(2) by (auto simp: kmem_ready_def kmem_rep_def valid_page_def)
    then obtain s' where s': "free_page_to_freelist p ?s1 = Ok s'" "kmem_rep s' cache (insort p fl)"
        "kmem_step ?s1 s'" "\<And>a. \<forall>q \<in> insert p (set fl). \<not> in_region q 4096 a \<Longrightarrow> mem s' a = m a"
      using free_page_to_freelist_insort[of ?s1 cache fl p] assms(3) rep(3) by auto
    have "free_page p s = Ok s'"
      using rep(1,2) guard False s'(1)
      by (simp add: free_page_def init Let_def kmem_ready_def page_lock_simps kmem_rep_def)
    moreover have "kmem_step s s'"
      using s'(3) cpu unfolding kmem_step_def by (cases s, cases s') auto
    ultimately show ?thesis
      using s'(2,4) rep(1,3) kmem_step_ready[of s s'] m
      by (intro exI[of _ s']) (auto intro!: kmem_pagesI simp: set_insort_key)
  qed
qed

section \<open>The allocator's contract\<close>

text \<open>A client that takes \<open>n\<close> pages one by one, and one that gives back a list of pages.\<close>

primrec take_pages :: "('s \<Rightarrow> (u64 \<times> 's) res) \<Rightarrow> nat \<Rightarrow> 's \<Rightarrow> (u64 list \<times> 's) res" where
  "take_pages alloc 0 s = Ok ([], s)"
| "take_pages alloc (Suc n) s =
     bind_res (alloc s) (\<lambda>(p, s). bind_res (take_pages alloc n s) (\<lambda>(ps, s). Ok (p # ps, s)))"

primrec give_pages :: "(u64 \<Rightarrow> 's \<Rightarrow> 's res) \<Rightarrow> u64 list \<Rightarrow> 's \<Rightarrow> 's res" where
  "give_pages free [] s = Ok s"
| "give_pages free (p # ps) s = bind_res (free p s) (give_pages free ps)"

locale page_allocator =
  fixes alloc :: "'s \<Rightarrow> (u64 \<times> 's) res" and free :: "u64 \<Rightarrow> 's \<Rightarrow> 's res"
    and pages :: "'s \<Rightarrow> u64 set \<Rightarrow> bool" and valid :: "'s \<Rightarrow> u64 \<Rightarrow> bool"
    and step :: "'s \<Rightarrow> 's \<Rightarrow> bool" and memory_of :: "'s \<Rightarrow> memory"
  assumes alloc_some: "pages s F \<Longrightarrow> F \<noteq> {} \<Longrightarrow> \<exists>p s'. alloc s = Ok (p, s') \<and> p \<in> F
        \<and> pages s' (F - {p}) \<and> step s s'
        \<and> (\<forall>a. \<not> in_region p 4096 a \<longrightarrow> memory_of s' a = memory_of s a)"
    and alloc_none: "pages s {} \<Longrightarrow> \<exists>s'. alloc s = Ok (0, s') \<and> pages s' {} \<and> step s s'
        \<and> memory_of s' = memory_of s"
    and free_ok: "pages s F \<Longrightarrow> valid s p \<Longrightarrow> p \<notin> F \<Longrightarrow> \<exists>s'. free p s = Ok s'
        \<and> pages s' (insert p F) \<and> step s s'
        \<and> (\<forall>a. (\<forall>q \<in> insert p F. \<not> in_region q 4096 a) \<longrightarrow> memory_of s' a = memory_of s a)"
    and pages_valid: "pages s F \<Longrightarrow> p \<in> F \<Longrightarrow> valid s p"
    and pages_finite: "pages s F \<Longrightarrow> finite F"
    and step_valid: "step s s' \<Longrightarrow> valid s' p = valid s p"
begin

lemma take_pages_distinct:
  "pages s F \<Longrightarrow> n \<le> card F \<Longrightarrow> \<exists>ps s'. take_pages alloc n s = Ok (ps, s') \<and> length ps = n
     \<and> distinct ps \<and> set ps \<subseteq> F \<and> pages s' (F - set ps) \<and> (\<forall>q. valid s' q = valid s q)
     \<and> (\<forall>a. (\<forall>q \<in> set ps. \<not> in_region q 4096 a) \<longrightarrow> memory_of s' a = memory_of s a)"
proof (induction n arbitrary: s F)
  case (Suc n)
  then have "F \<noteq> {}" by auto
  then obtain p s1 where p: "alloc s = Ok (p, s1)" "p \<in> F" "pages s1 (F - {p})" "step s s1"
      "\<And>a. \<not> in_region p 4096 a \<Longrightarrow> memory_of s1 a = memory_of s a"
    using alloc_some[OF Suc.prems(1)] by blast
  have "n \<le> card (F - {p})" using Suc.prems p(2) pages_finite by (simp add: card_Diff_singleton)
  from Suc.IH[OF p(3) this] obtain ps s' where ps: "take_pages alloc n s1 = Ok (ps, s')"
      "length ps = n" "distinct ps" "set ps \<subseteq> F - {p}" "pages s' (F - {p} - set ps)"
      "\<And>q. valid s' q = valid s1 q"
      "\<And>a. \<forall>q \<in> set ps. \<not> in_region q 4096 a \<Longrightarrow> memory_of s' a = memory_of s1 a"
    by blast
  have "F - {p} - set ps = F - set (p # ps)" by auto
  with ps(5) have "pages s' (F - set (p # ps))" by simp
  with p ps step_valid[OF p(4)] show ?case
    by (intro exI[of _ "p # ps"] exI[of _ s']) auto
qed simp

lemma give_pages_ok:
  "pages s F \<Longrightarrow> distinct ps \<Longrightarrow> set ps \<inter> F = {} \<Longrightarrow> \<forall>p \<in> set ps. valid s p \<Longrightarrow>
     \<exists>s'. give_pages free ps s = Ok s' \<and> pages s' (F \<union> set ps)"
proof (induction ps arbitrary: s F)
  case (Cons p ps)
  then obtain s1 where s1: "free p s = Ok s1" "pages s1 (insert p F)" "step s s1"
    using free_ok[of s F p] by auto
  have "\<exists>s'. give_pages free ps s1 = Ok s' \<and> pages s' (insert p F \<union> set ps)"
    using Cons.prems s1(2) step_valid[OF s1(3)] by (intro Cons.IH) auto
  then show ?case using s1(1) by simp
qed simp

lemma take_give_pages:
  assumes "pages s F" "n \<le> card F"
  shows "\<exists>ps s' s''. take_pages alloc n s = Ok (ps, s') \<and> length ps = n \<and> distinct ps
    \<and> set ps \<subseteq> F \<and> pages s' (F - set ps)
    \<and> (\<forall>a. (\<forall>q \<in> set ps. \<not> in_region q 4096 a) \<longrightarrow> memory_of s' a = memory_of s a)
    \<and> give_pages free ps s' = Ok s'' \<and> pages s'' F"
proof -
  obtain ps s' where ps: "take_pages alloc n s = Ok (ps, s')" "length ps = n" "distinct ps"
      "set ps \<subseteq> F" "pages s' (F - set ps)" "\<And>q. valid s' q = valid s q"
      "\<And>a. \<forall>q \<in> set ps. \<not> in_region q 4096 a \<Longrightarrow> memory_of s' a = memory_of s a"
    using take_pages_distinct[OF assms] by blast
  have "\<forall>p \<in> set ps. valid s' p" using ps(4,6) pages_valid[OF assms(1)] by auto
  then obtain s'' where "give_pages free ps s' = Ok s''" "pages s'' (F - set ps \<union> set ps)"
    using give_pages_ok[OF ps(5,3)] by auto
  moreover have "F - set ps \<union> set ps = F" using ps(4) by auto
  ultimately show ?thesis using ps by (intro exI[of _ ps] exI[of _ s'] exI[of _ s'']) simp
qed

end

interpretation kmem: page_allocator alloc_page free_page kmem_pages valid_page kmem_step mem
proof
  fix s s' :: "'z kalloc_state_scheme" and F :: "u64 set" and p :: u64
  show "\<exists>p s'. alloc_page s = Ok (p, s') \<and> p \<in> F \<and> kmem_pages s' (F - {p}) \<and> kmem_step s s'
      \<and> (\<forall>a. \<not> in_region p 4096 a \<longrightarrow> mem s' a = mem s a)" if F: "kmem_pages s F" "F \<noteq> {}"
  proof -
    obtain p s' where "alloc_page s = Ok (p, s')" "p \<in> F" "kmem_pages s' (F - {p})" "kmem_step s s'"
        "\<And>a. mem s' a = (if in_region p 4096 a then 5 else mem s a)"
      using alloc_page_some[OF F] by blast
    then show ?thesis by (intro exI[of _ p] exI[of _ s']) simp
  qed
  show "\<exists>s'. alloc_page s = Ok (0, s') \<and> kmem_pages s' {} \<and> kmem_step s s' \<and> mem s' = mem s"
    if F: "kmem_pages s {}"
    using alloc_page_none[OF F] kmem_pages_settled[OF F] by (simp add: kmem_step_def)
  show "\<exists>s'. free_page p s = Ok s' \<and> kmem_pages s' (insert p F) \<and> kmem_step s s'
      \<and> (\<forall>a. (\<forall>q \<in> insert p F. \<not> in_region q 4096 a) \<longrightarrow> mem s' a = mem s a)"
    if "kmem_pages s F" "valid_page s p" "p \<notin> F"
    using that by (rule free_page_pages)
  show "valid_page s p" if "kmem_pages s F" "p \<in> F" using kmem_pages_valid[OF that] by simp
  show "finite F" if "kmem_pages s F" using that by (rule kmem_pages_finite)
  show "valid_page s' p = valid_page s p" if "kmem_step s s'" using that by (rule kmem_step_valid)
qed

text \<open>
  C3. Exclusive ownership of pages. From a state whose free pages are F, n successive
  calls of alloc_page() with n at most the number of free pages return n distinct
  pages of F, which are then no longer free, and write only to these pages. Freeing
  them again succeeds and gives back exactly the free set F.
\<close>

theorem alloc_page_exclusive:
  assumes "kmem_pages s F" "n \<le> card F"
  shows "\<exists>ps s' s''. take_pages alloc_page n s = Ok (ps, s') \<and> length ps = n \<and> distinct ps
    \<and> set ps \<subseteq> F \<and> kmem_pages s' (F - set ps)
    \<and> (\<forall>a. (\<forall>q \<in> set ps. \<not> in_region q 4096 a) \<longrightarrow> mem s' a = mem s a)
    \<and> give_pages free_page ps s' = Ok s'' \<and> kmem_pages s'' F"
  using assms by (rule kmem.take_give_pages)


text \<open>A state with two free pages in the pool and one in the list.\<close>

definition three_pages :: kalloc_state where
  "three_pages = \<lparr>sy = boot_sync, mem = (\<lambda>_. 0), ld_end = 0x80022000, ld_etext = 0x8000a000,
     ld_trampoline = 0x80009000, freelist = 0x80030000,
     pool_buf = [0x80031000, 0x80032000] @ replicate 14 0, pool_n = 2, initialized = True\<rparr>"

lemma three_pages_lists:
  "kmem_ready three_pages" "kmem_rep three_pages [0x80031000, 0x80032000] [0x80030000]"
proof -
  have "load64 (\<lambda>_. 0) a = 0" for a by (rule load64_zero) simp
  then show "kmem_rep three_pages [0x80031000, 0x80032000] [0x80030000]"
    by (simp add: kmem_rep_def three_pages_def PAGE_POOL_CAP_def valid_page_def page_aligned_def
        PAGESIZE_def PHYSTOP_def KERNBASE_def word_le_nat_alt word_less_nat_alt word_unat_eq_iff unat_mod)
  show "kmem_ready three_pages"
    by (simp add: kmem_ready_def three_pages_def boot_sync_wf boot_lock_free)
qed

lemma three_pages_rep: "kmem_pages three_pages {0x80031000, 0x80032000, 0x80030000}"
  using three_pages_lists by (intro kmem_pagesI) auto

theorem alloc_page_exclusive_witness:
  "\<exists>ps s' s''. take_pages alloc_page 3 three_pages = Ok (ps, s') \<and> length ps = 3 \<and> distinct ps
    \<and> kmem_pages s' ({0x80031000, 0x80032000, 0x80030000} - set ps)
    \<and> give_pages free_page ps s' = Ok s''
    \<and> kmem_pages s'' {0x80031000, 0x80032000, 0x80030000}"
  using alloc_page_exclusive[OF three_pages_rep, of 3] by fastforce

definition no_pages :: kalloc_state where
  "no_pages = three_pages\<lparr>freelist := 0, pool_n := 0\<rparr>"

lemma no_pages_rep: "kmem_pages no_pages {}"
proof -
  have "kmem_rep no_pages [] []"
    by (simp add: kmem_rep_def no_pages_def three_pages_def PAGE_POOL_CAP_def KERNBASE_def)
  moreover have "kmem_ready no_pages"
    by (simp add: kmem_ready_def no_pages_def three_pages_def boot_sync_wf boot_lock_free)
  ultimately show ?thesis by (intro kmem_pagesI) auto
qed


section \<open>Boot: kmem\_init\<close>

lemma page_gap:
  assumes "page_aligned p" "page_aligned q" "q < p"
  shows "q \<le> p - PAGESIZE" "p - PAGESIZE < p" "PAGESIZE \<le> p"
proof -
  obtain i j where p: "unat p = 4096 * i" and q: "unat q = 4096 * j"
    using page_aligned_unatE[OF assms(1)] page_aligned_unatE[OF assms(2)] by blast
  have lt: "4096 * j + 4096 \<le> 4096 * i" using assms(3) p q by (simp add: word_less_nat_alt)
  then show ge: "PAGESIZE \<le> p" using p by (simp add: word_le_nat_alt)
  then have "unat (p - PAGESIZE) = unat p - 4096" by (simp add: unat_sub)
  then show "q \<le> p - PAGESIZE" "p - PAGESIZE < p"
    using lt p q by (simp_all add: word_le_nat_alt word_less_nat_alt)
qed

lemma page_aligned_minus: "page_aligned p \<Longrightarrow> PAGESIZE \<le> p \<Longrightarrow> page_aligned (p - PAGESIZE)"
  by (simp add: page_aligned_unat unat_sub word_le_nat_alt mod_eq_0_iff_dvd dvd_diff_nat)

text \<open>The loop of \<open>freerange\<close>, going down from \<open>p\<close>, frees every page from \<open>start\<close> on.\<close>

lemma freerange_loop_pages:
  assumes "kmem_pages s {q. valid_page s q \<and> p < q}" "page_aligned p" "p < PHYSTOP"
    "page_aligned start" "0 < start" "\<And>q. valid_page s q \<longleftrightarrow> page_aligned q \<and> start \<le> q \<and> q < PHYSTOP"
  shows "\<exists>s'. freerange_loop start p s = Ok s' \<and> kmem_pages s' {q. valid_page s q}
    \<and> ld_end s' = ld_end s \<and> sstatus (sy s') = sstatus (sy s)"
  using assms
proof (induction start p s rule: freerange_loop.induct)
  case (1 start p s)
  show ?case
  proof (cases "start \<le> p")
    case True
    note pre = 1(2-7)
    have vp: "valid_page s p" using True pre by simp
    obtain s1 where s1: "free_page p s = Ok s1" "kmem_step s s1"
        "kmem_pages s1 (insert p {q. valid_page s q \<and> p < q})"
      using kmem.free_ok[OF pre(1) vp] by auto
    have v1: "valid_page s1 q = valid_page s q" for q using kmem_step_valid[OF s1(2)] .
    have "0 < p" using True pre(5) by (rule order_less_le_trans[rotated])
    note gap = page_gap[OF pre(2) page_aligned_0 this]
    have iff: "p - PAGESIZE < q \<longleftrightarrow> p \<le> q" if "page_aligned q" for q
      using page_gap(1)[OF pre(2) that] gap(2) by (meson leD leI order_less_le_trans)
    have "insert p {q. valid_page s q \<and> p < q} = {q. valid_page s1 q \<and> p - PAGESIZE < q}"
    proof (rule set_eqI)
      fix q
      have "valid_page s q \<Longrightarrow> p - PAGESIZE < q \<longleftrightarrow> q = p \<or> p < q"
        using iff[of q] by (auto simp: valid_page_def)
      then show "q \<in> insert p {q. valid_page s q \<and> p < q}
          \<longleftrightarrow> q \<in> {q. valid_page s1 q \<and> p - PAGESIZE < q}"
        using vp by (auto simp: v1)
    qed
    then have pages1: "kmem_pages s1 {q. valid_page s1 q \<and> p - PAGESIZE < q}" using s1(3) by simp
    have "p - PAGESIZE < PHYSTOP" using gap(2) pre(3) by (rule order_less_trans)
    then have "\<exists>s'. freerange_loop start (p - PAGESIZE) s1 = Ok s' \<and> kmem_pages s' {q. valid_page s1 q}
        \<and> ld_end s' = ld_end s1 \<and> sstatus (sy s') = sstatus (sy s1)"
      using page_aligned_minus[OF pre(2) gap(3)] pre(4-6) v1
      by (intro 1(1)[OF True s1(1) pages1]) simp_all
    then show ?thesis
      using True s1(1) v1 kmem_stepD[OF s1(2)] by (subst freerange_loop.simps) simp
  next
    case False
    then have "p < q" if "valid_page s q" for q
      using 1(7)[of q] that by (meson leI order_less_le_trans)
    then have "{q. valid_page s q \<and> p < q} = {q. valid_page s q}" by blast
    with False 1(2) show ?thesis by (subst freerange_loop.simps) simp
  qed
qed

lemma PAGEROUNDUP_le:
  assumes "unat a + 4096 \<le> 2 ^ 64" "page_aligned q"
  shows "PAGEROUNDUP a \<le> q \<longleftrightarrow> a \<le> q"
proof -
  have "unat (a + PAGESIZE - 1) = unat a + 4095"
  proof -
    have "a + PAGESIZE - 1 = a + 4095" by (simp add: PAGESIZE_def)
    moreover have "unat (4095 :: u64) = 4095" by simp
    ultimately show ?thesis using assms(1) unat_add_u64[of a 4095] by (simp only:)
  qed
  then have "unat (PAGEROUNDUP a) = (unat a + 4095) div 4096 * 4096"
    by (simp add: PAGEROUNDUP_rounddown unat_PAGEROUNDDOWN)
  moreover obtain k where "unat q = 4096 * k" using page_aligned_unatE[OF assms(2)] by blast
  ultimately show ?thesis by (simp add: word_le_nat_alt) linarith
qed

text \<open>
  C21. Boot. When the linker symbol end lies in RAM and the zero-initialised free list is
  empty, kmem_init() succeeds and afterwards the free pages are exactly the page-aligned
  addresses of [end, PHYSTOP), whatever the alignment of end.
\<close>

theorem kmem_init_all_free:
  assumes "KERNBASE \<le> ld_end s" "ld_end s \<le> PHYSTOP" "freelist s = 0"
    "length (pool_buf s) = PAGE_POOL_CAP" "wf_sync 1 (sy s)"
  shows "\<exists>s'. kmem_init s = Ok s' \<and> initialized s' \<and> sstatus (sy s') = sstatus (sy s)
    \<and> kmem_pages s' {p. page_aligned p \<and> ld_end s \<le> p \<and> p < PHYSTOP}"
proof -
  let ?y = "initlock L_page_cache ''page_cache'' (initlock L_kmem ''kmem'' (sy s))"
  let ?s = "s\<lparr>sy := ?y, pool_n := 0, initialized := False\<rparr>"
  let ?start = "PAGEROUNDUP (ld_end s)"
  have big: "unat (ld_end s) + 4096 \<le> 2 ^ 64"
    using assms(2) by (simp add: word_le_nat_alt PHYSTOP_def)
  have top: "page_aligned (PHYSTOP - PAGESIZE)" "PHYSTOP - PAGESIZE < PHYSTOP" "page_aligned PHYSTOP"
    by (simp_all add: page_aligned_unat PHYSTOP_def PAGESIZE_def)
  have valid: "valid_page ?s q \<longleftrightarrow> page_aligned q \<and> ?start \<le> q \<and> q < PHYSTOP" for q
    using PAGEROUNDUP_le[OF big, of q] by (auto simp: valid_page_def)
  have "kmem_rep ?s [] []" using assms by (simp add: kmem_rep_def)
  moreover have "kmem_ready ?s"
    using assms(5) by (simp add: kmem_ready_def wf_sync_def initlock_def lock_free_def)
  moreover have "{q. valid_page ?s q \<and> PHYSTOP - PAGESIZE < q} = {}"
    using page_gap(1)[OF top(3)] by (force simp: valid_page_def)
  ultimately have "kmem_pages ?s {q. valid_page ?s q \<and> PHYSTOP - PAGESIZE < q}"
    by (intro kmem_pagesI) auto
  moreover have "0 < ?start"
    using assms(1) PAGEROUNDUP_le[OF big, of 0] by (auto simp: KERNBASE_def word_gt_0)
  ultimately obtain s' where "freerange_loop ?start (PHYSTOP - PAGESIZE) ?s = Ok s'"
      "kmem_pages s' {q. valid_page ?s q}" "ld_end s' = ld_end ?s" "sstatus (sy s') = sstatus (sy ?s)"
    using freerange_loop_pages[OF _ top(1,2) page_aligned_PAGEROUNDUP _ valid] by blast
  moreover have "kmem_pages (s'\<lparr>initialized := True\<rparr>) F \<longleftrightarrow> kmem_pages s' F" for F
    by (simp add: kmem_pages_def kmem_ready_def kmem_rep_def valid_page_def)
  ultimately show ?thesis
    by (simp add: kmem_init_def freerange_def Let_def valid_page_def initlock_def)
qed

definition boot_kmem :: kalloc_state where
  "boot_kmem = three_pages\<lparr>freelist := 0, pool_buf := replicate 16 0, pool_n := 0, initialized := False\<rparr>"

theorem kmem_init_all_free_witness:
  "\<exists>s'. kmem_init boot_kmem = Ok s' \<and> initialized s' \<and> sstatus (sy s') = SSTATUS_SIE
    \<and> kmem_pages s' {p. page_aligned p \<and> 0x80022000 \<le> p \<and> p < PHYSTOP}"
  using kmem_init_all_free[of boot_kmem] boot_sync_wf[of 1]
  by (simp add: boot_kmem_def three_pages_def PAGE_POOL_CAP_def KERNBASE_def PHYSTOP_def)
    (simp add: boot_sync_def)

section \<open>Contiguous pages\<close>

text \<open>The \<open>n\<close> entries of \<open>fl\<close> from index \<open>i\<close> on are adjacent pages.\<close>

definition page_run :: "u64 list \<Rightarrow> nat \<Rightarrow> nat \<Rightarrow> bool" where
  "page_run fl i n \<longleftrightarrow> i + n \<le> length fl \<and> (\<forall>j < n. fl ! (i + j) = fl ! i + of_nat j * PAGESIZE)"

definition first_run :: "u64 list \<Rightarrow> nat \<Rightarrow> nat option" where
  "first_run fl n = find (\<lambda>i. page_run fl i n) [0..<length fl]"

lemma first_run_Some:
  assumes "page_run fl i n" "0 < n" "\<forall>j < i. \<not> page_run fl j n"
  shows "first_run fl n = Some i"
proof -
  have "i < length fl" using assms by (auto simp: page_run_def)
  then show ?thesis using assms by (auto simp: first_run_def find_Some_iff)
qed

lemma first_run_None: "0 < n \<Longrightarrow> first_run fl n = None \<longleftrightarrow> (\<forall>i. \<not> page_run fl i n)"
proof -
  assume "0 < n"
  then have "page_run fl i n \<Longrightarrow> i < length fl" for i by (simp add: page_run_def)
  then show ?thesis by (auto simp: first_run_def find_None_iff)
qed

lemma first_run_SomeD: "first_run fl n = Some i \<Longrightarrow> page_run fl i n \<and> (\<forall>j < i. \<not> page_run fl j n)"
  by (auto simp: first_run_def find_Some_iff)

abbreviation pred_of :: "u64 list \<Rightarrow> u64" where
  "pred_of xs \<equiv> (if xs = [] then 0 else last xs)"

definition run_list :: "u64 list \<Rightarrow> bool" where
  "run_list seg \<longleftrightarrow> (\<forall>j < length seg. seg ! j = hd seg + of_nat j * PAGESIZE)"

lemma run_list_single [simp]: "run_list [x]"
  by (simp add: run_list_def)

lemma run_list_last: "run_list seg \<Longrightarrow> seg \<noteq> [] \<Longrightarrow> last seg = hd seg + of_nat (length seg - 1) * PAGESIZE"
  by (simp add: run_list_def last_conv_nth)

lemma run_list_snoc:
  assumes "run_list seg" "seg \<noteq> []" "x = last seg + PAGESIZE"
  shows "run_list (seg @ [x])"
proof -
  have "length seg = Suc (length seg - 1)" using assms(2) by simp
  then have "(of_nat (length seg) :: u64) = of_nat (length seg - 1) + 1" by (metis of_nat_Suc add.commute)
  then have "x = hd seg + of_nat (length seg) * PAGESIZE"
    using assms run_list_last by (simp add: algebra_simps)
  then show ?thesis using assms by (auto simp: run_list_def nth_append less_Suc_eq)
qed

lemma page_run_run_list:
  "run_list seg \<Longrightarrow> seg \<noteq> [] \<Longrightarrow> page_run (pre @ seg @ xs) (length pre) (length seg)"
proof -
  assume seg: "run_list seg" "seg \<noteq> []"
  have nth: "(pre @ seg @ xs) ! (length pre + j) = seg ! j" if "j < length seg" for j
    using that by (simp only: nth_append_length_plus) (simp add: nth_append)
  have "(pre @ seg @ xs) ! length pre = hd seg" using nth[of 0] seg(2) by (simp add: hd_conv_nth)
  moreover have "(pre @ seg @ xs) ! (length pre + j) = hd seg + of_nat j * PAGESIZE"
    if "j < length seg" for j
    using nth[OF that] seg(1) that unfolding run_list_def by (metis (no_types))
  ultimately show ?thesis by (simp add: page_run_def)
qed

text \<open>A gap between two neighbours in the list is in no run.\<close>

lemma page_run_gap:
  assumes "page_run fl i n" "i < k" "k < i + n"
  shows "fl ! k = fl ! (k - 1) + PAGESIZE"
proof -
  obtain j where k: "k = i + Suc j" using assms(2) less_imp_Suc_add by auto
  then have "fl ! (i + Suc j) = fl ! i + of_nat (Suc j) * PAGESIZE" "fl ! (i + j) = fl ! i + of_nat j * PAGESIZE"
    using assms by (auto simp: page_run_def)
  then show ?thesis using k by (simp add: algebra_simps)
qed

lemma seg_search_first_run:
  assumes "flist m cur xs" "fl = pre @ seg @ xs" "run_list seg" "length seg < n"
    "seg = [] \<Longrightarrow> pre = []" "prev = pred_of (pre @ seg)"
    "seg \<noteq> [] \<Longrightarrow> seg_start = hd seg \<and> seg_prev = pred_of pre \<and> seg_end = last seg"
    "\<forall>i < length pre. \<not> page_run fl i n"
  shows "seg_search m (int n) prev cur seg_start seg_prev seg_end (int (length seg)) =
    Some (map_option (\<lambda>i. (fl ! i, pred_of (take i fl))) (first_run fl n))"
  using assms
proof (induction xs arbitrary: cur pre seg prev seg_start seg_prev seg_end)
  case Nil
  have "\<not> page_run fl i n" for i
    using Nil.prems by (cases "i < length pre") (auto simp: page_run_def)
  then have "first_run fl n = None" using Nil.prems(4) by (subst first_run_None) auto
  then show ?case using Nil.prems by (simp add: seg_search.simps)
next
  case (Cons x xs)
  have cur: "cur = x" "x \<noteq> 0" "flist m (load64 m x) xs" using Cons.prems(1) by auto
  define pre' where "pre' = (if seg = [] \<or> x = last seg + PAGESIZE then pre else pre @ seg)"
  define seg' where "seg' = (if seg \<noteq> [] \<and> x = last seg + PAGESIZE then seg @ [x] else [x])"
  have split: "fl = pre' @ seg' @ xs" "pre' @ seg' = pre @ seg @ [x]" "seg' \<noteq> []" "last seg' = x"
    using Cons.prems(2,5) by (auto simp: pre'_def seg'_def)
  have run': "run_list seg'" using Cons.prems(3) by (auto simp: seg'_def intro: run_list_snoc)
  have len': "length seg' \<le> n" using Cons.prems(4) by (auto simp: seg'_def)
  have none': "\<forall>i < length pre'. \<not> page_run fl i n"
  proof (intro allI impI)
    fix i assume i: "i < length pre'"
    show "\<not> page_run fl i n"
    proof (cases "i < length pre")
      case False
      then have c: "seg \<noteq> []" "x \<noteq> last seg + PAGESIZE" "i < length pre + length seg"
        using i by (auto simp: pre'_def split: if_splits)
      have "fl ! (length pre + length seg) = x" "fl ! (length pre + length seg - 1) = last seg"
        using Cons.prems(2) c(1) nth_append_length_plus[of pre "seg @ x # xs" "length seg - 1"]
          nth_append_length_plus[of pre "seg @ x # xs" "length seg"]
        by (simp_all add: nth_append[of seg] last_conv_nth Suc_leI)
      then show ?thesis
        using page_run_gap[of fl i n "length pre + length seg"] c False Cons.prems(4) by auto
    qed (use Cons.prems(8) in simp)
  qed
  have step: "seg_search m (int n) prev cur seg_start seg_prev seg_end (int (length seg)) =
    (if length seg' = n then Some (Some (hd seg', pred_of pre'))
     else seg_search m (int n) x (load64 m x) (hd seg') (pred_of pre') x (int (length seg')))"
  proof (cases "seg = []")
    case True
    then show ?thesis using Cons.prems(5,6) cur
      by (subst seg_search.simps) (simp add: seg'_def pre'_def)
  next
    case False
    then show ?thesis using Cons.prems(6,7) cur
      by (subst seg_search.simps) (simp add: seg'_def pre'_def add.commute)
  qed
  show ?case
  proof (cases "length seg' = n")
    case True
    have "page_run fl (length pre') n"
      using page_run_run_list[OF run' split(3), of pre' xs] split(1) True by simp
    moreover have "0 < n" using Cons.prems(4) by auto
    ultimately have "first_run fl n = Some (length pre')" using none' by (intro first_run_Some) auto
    moreover have "fl ! length pre' = hd seg'" using split(1,3) by (simp add: nth_append hd_conv_nth)
    ultimately show ?thesis using step True split(1) by simp
  next
    case False
    have "seg_search m (int n) x (load64 m x) (hd seg') (pred_of pre') x (int (length seg')) =
        Some (map_option (\<lambda>i. (fl ! i, pred_of (take i fl))) (first_run fl n))"
      using cur split run' len' none' False by (intro Cons.IH[where pre = pre']) auto
    then show ?thesis using step False by simp
  qed
qed

abbreviation head_of :: "u64 list \<Rightarrow> u64" where
  "head_of xs \<equiv> (if xs = [] then 0 else hd xs)"

lemma flist_head: "flist m p xs \<Longrightarrow> p = head_of xs"
  by (cases xs) auto

lemma flist_suffix: "flist m p (as @ bs) \<Longrightarrow> flist m (head_of bs) bs"
proof (induction as arbitrary: p)
  case Nil
  then have "flist m p bs" by simp
  then show ?case using flist_head[of m p bs] by simp
qed auto

lemma flist_cut:
  assumes "flist m p (as @ mid @ bs)" "\<And>q. q \<in> set (butlast as) \<union> set bs \<Longrightarrow> load64 m' q = load64 m q"
    "as \<noteq> [] \<Longrightarrow> load64 m' (last as) = head_of bs"
  shows "flist m' (head_of (as @ bs)) (as @ bs)"
  using assms
proof (induction as arbitrary: p rule: induct_list012)
  case 1
  then show ?case using flist_suffix[of m p mid bs] flist_cong[of bs m' m] by auto
next
  case (2 a)
  then have "flist m (head_of bs) bs" using flist_suffix[of m _ "[a] @ mid" bs] by simp
  then show ?case using 2 flist_cong[of bs m' m] by auto
next
  case (3 a b as)
  have "flist m' (head_of ((b # as) @ bs)) ((b # as) @ bs)"
    using 3 by (intro "3.IH"(2)[where p = b]) auto
  then show ?case using 3 by auto
qed

lemma follow_next_nth: "flist m p xs \<Longrightarrow> k < length xs \<Longrightarrow> follow_next m p k = xs ! k"
proof (induction k arbitrary: p xs)
  case 0
  then show ?case by (cases xs) auto
next
  case (Suc k)
  then show ?case by (cases xs) auto
qed

lemma fill_pages_eq:
  "fill_pages m base i k a =
     (if \<exists>j < k. in_region (base + of_nat (i + j) * PAGESIZE) 4096 a then 3 else m a)"
proof (induction k arbitrary: m i)
  case (Suc k)
  have "(\<exists>j < Suc k. in_region (base + of_nat (i + j) * PAGESIZE) 4096 a) \<longleftrightarrow>
      in_region (base + of_nat i * PAGESIZE) 4096 a
      \<or> (\<exists>j < k. in_region (base + of_nat (Suc i + j) * PAGESIZE) 4096 a)"
    by (subst Ex_less_Suc2) simp
  then show ?case by (simp only: fill_pages.simps Suc.IH memset_page) (auto simp del: of_nat_add of_nat_Suc)
qed simp

text \<open>What \<open>alloc_pages\<close> does to the list \<open>as @ mid @ bs\<close> when it takes \<open>mid\<close>.\<close>

lemma alloc_pages_cut:
  fixes s :: "'z kalloc_state_scheme" and as mid bs :: "u64 list"
  defines "m1 \<equiv> (if as \<noteq> [] then store64 (mem s) (last as) (head_of bs) else mem s)"
  defines "m2 \<equiv> fill_pages (store64 m1 (last mid) 0) (hd mid) 0 (length mid)"
  assumes rep: "kmem_rep s cache (as @ mid @ bs)" and mid: "mid \<noteq> []" "run_list mid"
  shows "kmem_rep (s\<lparr>mem := m2, freelist := head_of (as @ bs)\<rparr>) cache (as @ bs)"
    and "\<And>p a. p \<in> set mid \<Longrightarrow> in_region p 4096 a \<Longrightarrow> m2 a = 3"
    and "\<And>a. \<forall>q \<in> set as \<union> set mid \<union> set bs. \<not> in_region q 4096 a \<Longrightarrow> m2 a = mem s a"
proof -
  have al: "\<And>q. q \<in> set as \<union> set mid \<union> set bs \<Longrightarrow> page_aligned q" and dist: "distinct (as @ mid @ bs)"
    using rep by (auto simp: kmem_rep_def valid_page_def)
  have mid_iff: "(\<exists>j < length mid. in_region (hd mid + of_nat (0 + j) * PAGESIZE) 4096 a)
      \<longleftrightarrow> (\<exists>p \<in> set mid. in_region p 4096 a)" for a
  proof -
    have "\<And>j. j < length mid \<Longrightarrow> mid ! j = hd mid + of_nat j * PAGESIZE"
      using mid(2) unfolding run_list_def by blast
    then show ?thesis by (metis add_0 in_set_conv_nth)
  qed
  have out: "store64 m q v a = m a" if "page_aligned q" "\<not> in_region q 4096 a" for m q v a
    using that table_slot(3)[of q 0 a] by (intro store64_outside) auto
  have m2: "m2 a = (if \<exists>p \<in> set mid. in_region p 4096 a then 3 else m1 a)" for a
    unfolding m2_def fill_pages_eq mid_iff using out[of "last mid" a m1 0] al mid(1) by auto
  then show "\<And>p a. p \<in> set mid \<Longrightarrow> in_region p 4096 a \<Longrightarrow> m2 a = 3" by auto
  show frame: "m2 a = mem s a" if "\<forall>q \<in> set as \<union> set mid \<union> set bs. \<not> in_region q 4096 a" for a
    using that m2[of a] out[of "last as" a "mem s" "head_of bs"] al by (auto simp: m1_def)
  have load2: "load64 m2 q = load64 m1 q" if "q \<in> set as \<union> set bs" for q
  proof (rule load64_page_cong)
    show "page_aligned q" using that al by auto
    fix a assume a: "in_region q 4096 a"
    have "\<not> in_region p 4096 a" if "p \<in> set mid" for p
      using in_region_pages_disjoint[OF _ _ _ a, of p] al that \<open>q \<in> _\<close> dist by auto
    then show "m2 a = m1 a" using m2[of a] by auto
  qed
  have load1: "load64 m1 q = load64 (mem s) q" if "q \<in> set (butlast as) \<union> set bs" for q
  proof (cases "as = []")
    case False
    then obtain as' z where as: "as = as' @ [z]" by (metis rev_exhaust)
    with that dist have "q \<noteq> z" by auto
    then show ?thesis using as al that by (auto simp: m1_def intro!: load64_store64_page)
  qed (simp add: m1_def)
  have "flist m2 (head_of (as @ bs)) (as @ bs)"
  proof (rule flist_cut[where mid = mid])
    show "flist (mem s) (freelist s) (as @ mid @ bs)" using rep by (simp add: kmem_rep_def)
    show "load64 m2 q = load64 (mem s) q" if "q \<in> set (butlast as) \<union> set bs" for q
      using load2[of q] load1[OF that] that by (auto dest: in_set_butlastD)
    show "load64 m2 (last as) = head_of bs" if "as \<noteq> []"
      using load2[of "last as"] that by (simp add: m1_def)
  qed
  then show "kmem_rep (s\<lparr>mem := m2, freelist := head_of (as @ bs)\<rparr>) cache (as @ bs)"
    using rep by (auto simp: kmem_rep_def valid_page_def sorted_append)
qed

lemma page_run_run_list_take:
  assumes "page_run fl i n" "0 < n"
  shows "run_list (take n (drop i fl))" "length (take n (drop i fl)) = n"
    "hd (take n (drop i fl)) = fl ! i" "last (take n (drop i fl)) = fl ! (i + (n - 1))"
proof -
  have i: "i + n \<le> length fl" "\<And>j. j < n \<Longrightarrow> fl ! (i + j) = fl ! i + of_nat j * PAGESIZE"
    using assms(1) by (auto simp: page_run_def)
  show len: "length (take n (drop i fl)) = n" using i by simp
  show hd: "hd (take n (drop i fl)) = fl ! i" using i assms(2) by (simp add: hd_drop_conv_nth)
  show "run_list (take n (drop i fl))"
    unfolding run_list_def hd len using i by simp
  have "take n (drop i fl) \<noteq> []" using len assms(2) by auto
  then show "last (take n (drop i fl)) = fl ! (i + (n - 1))"
    using i assms(2) by (subst last_conv_nth) auto
qed

lemma alloc_pages_first:
  assumes "kmem_ready s" "kmem_rep s cache fl" "0 < sint n" "first_run fl (nat (sint n)) = Some i"
  defines "k \<equiv> nat (sint n)"
  shows "\<exists>s'. alloc_pages n s = Ok (fl ! i, s') \<and> kmem_step s s'
    \<and> kmem_rep s' cache (take i fl @ drop (i + k) fl)
    \<and> (\<forall>j < k. \<forall>a. in_region (fl ! i + of_nat j * PAGESIZE) 4096 a \<longrightarrow> mem s' a = 3)
    \<and> (\<forall>a. (\<forall>q \<in> set fl. \<not> in_region q 4096 a) \<longrightarrow> mem s' a = mem s a)"
proof -
  have k: "0 < k" "sint n = int k" using assms(3) by (simp_all add: k_def)
  have fl: "flist (mem s) (freelist s) fl" using assms(2) by (simp add: kmem_rep_def)
  have run: "page_run fl i k" using first_run_SomeD assms(4) by (auto simp: k_def)
  then have ik: "i + k \<le> length fl" by (simp add: page_run_def)
  define as mid bs where "as = take i fl" and "mid = take k (drop i fl)" and "bs = drop (i + k) fl"
  note mid = page_run_run_list_take[OF run k(1), folded mid_def]
  have split: "fl = as @ mid @ bs" using ik
    by (metis append_take_drop_id as_def mid_def bs_def drop_drop add.commute)
  have "mid \<noteq> []" using mid(2) k(1) by auto
  have search: "seg_search (mem s) (int k) 0 (freelist s) 0 0 0 0 = Some (Some (fl ! i, pred_of as))"
    using seg_search_first_run[OF fl, of fl "[]" "[]" k 0 0 0 0] k(1) assms(4)
    by (simp add: run_list_def k_def as_def)
  have "flist (mem s) (fl ! i) (mid @ bs)"
    using flist_suffix[of "mem s" "freelist s" as "mid @ bs"] fl split \<open>mid \<noteq> []\<close> mid(3) by simp
  then have cut: "follow_next (mem s) (fl ! i) (k - 1) = last mid"
    using mid(2) k(1) \<open>mid \<noteq> []\<close> by (simp add: follow_next_nth nth_append last_conv_nth)
  obtain mid' where "mid = mid' @ [last mid]" using \<open>mid \<noteq> []\<close> by (metis append_butlast_last_id)
  then have "fl = (as @ mid') @ last mid # bs" using split by (metis append.assoc append_Cons append_Nil)
  then have "flist (mem s) (last mid) (last mid # bs)"
    using flist_suffix[of "mem s" "freelist s" "as @ mid'" "last mid # bs"] fl by simp
  then have rest: "load64 (mem s) (last mid) = head_of bs" by (auto dest: flist_head)
  define m2 where "m2 = fill_pages (store64 (if as \<noteq> [] then store64 (mem s) (last as) (head_of bs)
      else mem s) (last mid) 0) (hd mid) 0 (length mid)"
  let ?s' = "s\<lparr>sy := settled (sy s), mem := m2, freelist := head_of (as @ bs)\<rparr>"
  have "pred_of as \<noteq> 0 \<longleftrightarrow> as \<noteq> []"
    using assms(2) split valid_page_nonzero[of s "last as"] by (auto simp: kmem_rep_def)
  moreover have "freelist s = head_of as" if "as \<noteq> []" using flist_head[OF fl] that split by simp
  ultimately have res: "alloc_pages n s = Ok (fl ! i, ?s')"
    using assms(1,3) search cut rest mid(2,3)
    by (auto simp: alloc_pages_def k(2) kmem_ready_def page_lock_simps Let_def m2_def)
  note post = alloc_pages_cut[of s cache as mid bs, folded split, folded m2_def,
      OF assms(2) \<open>mid \<noteq> []\<close> mid(1)]
  have in_mid: "fl ! i + of_nat j * PAGESIZE \<in> set mid" if "j < k" for j
    using mid(1,2,3) that nth_mem[of j mid] unfolding run_list_def by metis
  have "set fl = set as \<union> set mid \<union> set bs" by (subst split) auto
  then have "\<forall>a. (\<forall>q \<in> set fl. \<not> in_region q 4096 a) \<longrightarrow> m2 a = mem s a" using post(3) by metis
  moreover have "\<forall>j < k. \<forall>a. in_region (fl ! i + of_nat j * PAGESIZE) 4096 a \<longrightarrow> m2 a = 3"
    using post(2) in_mid by blast
  moreover have "kmem_rep ?s' cache (as @ bs)"
    using post(1) by (simp add: kmem_rep_def valid_page_def)
  ultimately show ?thesis
    using res by (intro exI[of _ ?s']) (simp add: kmem_step_def as_def bs_def)
qed

lemma alloc_pages_fails:
  assumes "kmem_ready s" "kmem_rep s cache fl" "0 < sint n" "first_run fl (nat (sint n)) = None"
  shows "alloc_pages n s = Panic (''alloc_pages: not enough free pages'' @ [CHR 0x0A])"
proof -
  have "seg_search (mem s) (int (nat (sint n))) 0 (freelist s) 0 0 0 0 = Some None"
    using seg_search_first_run[of "mem s" "freelist s" fl fl "[]" "[]" "nat (sint n)" 0 0 0 0] assms
    by (simp add: run_list_def kmem_rep_def)
  then show ?thesis
    using assms by (simp add: alloc_pages_def kmem_ready_def page_lock_simps)
qed

text \<open>
  C22. alloc_pages(n) is first fit on the free list and complete for it: if n adjacent
  pages are on the list it returns the lowest such run, takes exactly these n entries
  off the list, fills them with 3 and writes to no page that was not on the list; if
  there is no run it panics. Pages parked in page_cache are never considered.
\<close>

theorem alloc_pages_first_fit:
  assumes "kmem_ready s" "kmem_rep s cache fl" "0 < sint n"
  defines "k \<equiv> nat (sint n)"
  shows "((\<forall>i. \<not> page_run fl i k) \<longrightarrow>
      alloc_pages n s = Panic (''alloc_pages: not enough free pages'' @ [CHR 0x0A]))
    \<and> (\<forall>i. page_run fl i k \<and> (\<forall>j < i. \<not> page_run fl j k) \<longrightarrow>
        (\<exists>s'. alloc_pages n s = Ok (fl ! i, s') \<and> kmem_ready s'
          \<and> kmem_rep s' cache (take i fl @ drop (i + k) fl)
          \<and> (\<forall>j < k. \<forall>a. in_region (fl ! i + of_nat j * PAGESIZE) 4096 a \<longrightarrow> mem s' a = 3)
          \<and> (\<forall>a. (\<forall>q \<in> set fl. \<not> in_region q 4096 a) \<longrightarrow> mem s' a = mem s a)))"
proof -
  have k: "0 < k" using assms(3) by (simp add: k_def)
  have "alloc_pages n s = Panic (''alloc_pages: not enough free pages'' @ [CHR 0x0A])"
    if "\<forall>i. \<not> page_run fl i k"
    using alloc_pages_fails[OF assms(1-3)] first_run_None[OF k] that by (simp add: k_def)
  moreover have "\<exists>s'. alloc_pages n s = Ok (fl ! i, s') \<and> kmem_ready s'
          \<and> kmem_rep s' cache (take i fl @ drop (i + k) fl)
          \<and> (\<forall>j < k. \<forall>a. in_region (fl ! i + of_nat j * PAGESIZE) 4096 a \<longrightarrow> mem s' a = 3)
          \<and> (\<forall>a. (\<forall>q \<in> set fl. \<not> in_region q 4096 a) \<longrightarrow> mem s' a = mem s a)"
    if "page_run fl i k" "\<forall>j < i. \<not> page_run fl j k" for i
    using alloc_pages_first[OF assms(1-3)] first_run_Some[OF that(1) k that(2)]
      kmem_step_ready[of s] assms(1) unfolding k_def by blast
  ultimately show ?thesis by blast
qed

theorem alloc_pages_first_fit_witness:
  "(\<exists>s'. alloc_pages 1 three_pages = Ok (0x80030000, s')
      \<and> kmem_rep s' [0x80031000, 0x80032000] [])
    \<and> alloc_pages 2 three_pages = Panic (''alloc_pages: not enough free pages'' @ [CHR 0x0A])"
proof -
  have rep: "kmem_ready three_pages" "kmem_rep three_pages [0x80031000, 0x80032000] [0x80030000]"
    using three_pages_lists by simp_all
  show ?thesis
    using alloc_pages_first_fit[OF rep, of 1] alloc_pages_first_fit[OF rep, of 2]
    by (auto simp: page_run_def)
qed

end
