(* ===== verification/Vm.thy ===== *)
theory Vm
  imports Kalloc
begin

text \<open>
  kernel/mm/vm.c: Sv39 page tables and the copies between kernel and user memory. A
  page table is what the pages in memory hold; \<open>pt_rep\<close> describes it by two maps, from
  the top index to a level-1 table and from the top two indices to a level-0 table.
  The abstract view \<open>leaf\<close> is the page-table entry of a virtual address. The lemmas go
  from single entries over \<open>walk_create\<close> to \<open>map_page\<close>, \<open>unmap_page\<close> and the copies.
\<close>

section \<open>Operations\<close>

definition create_pagetable :: "'z kalloc_state_scheme \<Rightarrow> (u64 \<times> 'z kalloc_state_scheme) res" where
  "create_pagetable s =
     bind_res (alloc_page s) (\<lambda>(kpgtbl, s).
     if kpgtbl = 0 then Panic ''create_pagetable: out of memory''
     else Ok (kpgtbl, s\<lparr>mem := memset (mem s) kpgtbl 0 (ucast PAGESIZE)\<rparr>))"

text \<open>
  The recursion follows pointers in memory, so it carries a depth bound. A page table has
  three levels; \<open>destroy_pagetable\<close> uses the bound 3.
\<close>

primrec destroy_depth :: "nat \<Rightarrow> u64 \<Rightarrow> 'z kalloc_state_scheme \<Rightarrow> 'z kalloc_state_scheme res" where
  "destroy_depth 0 pagetable s = Hang"
| "destroy_depth (Suc d) pagetable s =
     bind_res
       (fold_res (\<lambda>i s.
          let pte = load64 (mem s) (pagetable + 8 * of_nat i) in
          if pte AND PTE_V \<noteq> 0 \<and> \<not> pte AND (PTE_R OR PTE_W OR PTE_X) \<noteq> 0
          then destroy_depth d (PTE2PA pte) s else Ok s) [0..<512] s)
       (free_page pagetable)"

definition destroy_pagetable :: "u64 \<Rightarrow> 'z kalloc_state_scheme \<Rightarrow> 'z kalloc_state_scheme res" where
  "destroy_pagetable pagetable s = destroy_depth 3 pagetable s"

text \<open>The loop \<open>for (level = 2; level > 0; level--)\<close>; the answer 0 is \<open>NULL\<close>.\<close>

primrec walk_create_from ::
    "nat \<Rightarrow> u64 \<Rightarrow> u64 \<Rightarrow> 'z kalloc_state_scheme \<Rightarrow> (u64 \<times> 'z kalloc_state_scheme) res" where
  "walk_create_from 0 pt va s = Ok (pt + 8 * PX 0 va, s)"
| "walk_create_from (Suc level) pt va s =
     (let pte = pt + 8 * PX (Suc level) va in
      if load64 (mem s) pte AND PTE_V \<noteq> 0
      then walk_create_from level (PTE2PA (load64 (mem s) pte)) va s
      else
        bind_res (alloc_page s) (\<lambda>(pt, s).
        if pt = 0 then Ok (0, s)
        else let s = s\<lparr>mem := memset (mem s) pt 0 (ucast PAGESIZE)\<rparr>;
                 s = s\<lparr>mem := store64 (mem s) pte (PA2PTE pt OR PTE_V)\<rparr>
             in walk_create_from level pt va s))"

definition walk_create :: "u64 \<Rightarrow> u64 \<Rightarrow> 'z kalloc_state_scheme \<Rightarrow> (u64 \<times> 'z kalloc_state_scheme) res" where
  "walk_create pt va s = walk_create_from 2 pt va s"

primrec walk_lookup_from :: "memory \<Rightarrow> nat \<Rightarrow> u64 \<Rightarrow> u64 \<Rightarrow> u64" where
  "walk_lookup_from m 0 pt va = pt + 8 * PX 0 va"
| "walk_lookup_from m (Suc level) pt va =
     (let pte = pt + 8 * PX (Suc level) va in
      if load64 m pte AND PTE_V \<noteq> 0 then walk_lookup_from m level (PTE2PA (load64 m pte)) va
      else 0)"

definition walk_lookup :: "memory \<Rightarrow> u64 \<Rightarrow> u64 \<Rightarrow> u64" where
  "walk_lookup m pt va = walk_lookup_from m 2 pt va"

text \<open>The loop \<open>for (;;)\<close> of \<open>map_page\<close>, left when \<open>a == last\<close>.\<close>

partial_function (option) map_loop ::
    "u64 \<Rightarrow> u64 \<Rightarrow> u64 \<Rightarrow> u64 \<Rightarrow> u64 \<Rightarrow> 'z kalloc_state_scheme \<Rightarrow> (int \<times> 'z kalloc_state_scheme) res option" where
  "map_loop pagetable a last_a pa perm s =
     (case walk_create pagetable a s of
        Panic e \<Rightarrow> Some (Panic e)
      | Hang \<Rightarrow> Some Hang
      | Ok (pte, s) \<Rightarrow>
          if pte = 0 then Some (Ok (- 1, s))
          else if load64 (mem s) pte AND PTE_V \<noteq> 0 then Some (Panic ''map_page: remap'')
          else let s = s\<lparr>mem := store64 (mem s) pte (PA2PTE pa OR perm OR PTE_V)\<rparr> in
               if a = last_a then Some (Ok (0, s))
               else map_loop pagetable (a + PAGESIZE) last_a (pa + PAGESIZE) perm s)"

definition run_loop :: "'a res option \<Rightarrow> 'a res" where
  "run_loop r = (case r of None \<Rightarrow> Hang | Some x \<Rightarrow> x)"

text \<open>\<open>int perm\<close> is or-ed into a 64-bit entry, so it is sign-extended.\<close>

definition map_page ::
    "u64 \<Rightarrow> u64 \<Rightarrow> u64 \<Rightarrow> u64 \<Rightarrow> i32 \<Rightarrow> 'z kalloc_state_scheme \<Rightarrow> (int \<times> 'z kalloc_state_scheme) res" where
  "map_page pagetable va pa sz perm s =
     (if va mod PAGESIZE \<noteq> 0 then Panic ''map_page: va not aligned''
      else if sz mod PAGESIZE \<noteq> 0 then Panic ''map_page: size not aligned''
      else if sz = 0 then Panic ''map_page: size''
      else run_loop (map_loop pagetable va (va + sz - PAGESIZE) pa (scast perm) s))"

partial_function (option) unmap_loop ::
    "u64 \<Rightarrow> u64 \<Rightarrow> u64 \<Rightarrow> bool \<Rightarrow> 'z kalloc_state_scheme \<Rightarrow> 'z kalloc_state_scheme res option" where
  "unmap_loop pagetable a bound do_free s =
     (if a < bound then
        (case walk_create pagetable a s of
           Panic e \<Rightarrow> Some (Panic e)
         | Hang \<Rightarrow> Some Hang
         | Ok (pte, s) \<Rightarrow>
             if pte = 0 \<or> load64 (mem s) pte AND PTE_V = 0
             then unmap_loop pagetable (a + PAGESIZE) bound do_free s
             else if PTE_FLAGS (load64 (mem s) pte) = PTE_V
             then Some (Panic ''unmap_page: not a leaf'')
             else
               (case (if do_free then free_page (PTE2PA (load64 (mem s) pte)) s else Ok s) of
                  Panic e \<Rightarrow> Some (Panic e)
                | Hang \<Rightarrow> Some Hang
                | Ok s \<Rightarrow>
                    unmap_loop pagetable (a + PAGESIZE) bound do_free
                      (s\<lparr>mem := store64 (mem s) pte 0\<rparr>)))
      else Some (Ok s))"

definition unmap_page ::
    "u64 \<Rightarrow> u64 \<Rightarrow> u64 \<Rightarrow> bool \<Rightarrow> 'z kalloc_state_scheme \<Rightarrow> 'z kalloc_state_scheme res" where
  "unmap_page pagetable va npages do_free s =
     (if va mod PAGESIZE \<noteq> 0 then Panic ''unmap_page: not aligned''
      else run_loop (unmap_loop pagetable va (va + npages * PAGESIZE) do_free s))"

definition map_region ::
    "u64 \<Rightarrow> u64 \<Rightarrow> u64 \<Rightarrow> u64 \<Rightarrow> i32 \<Rightarrow> 'z kalloc_state_scheme \<Rightarrow> 'z kalloc_state_scheme res" where
  "map_region kpgtbl va pa sz perm s =
     bind_res (map_page kpgtbl va pa sz perm s) (\<lambda>(r, s).
     if r \<noteq> 0 then Panic ''map_region'' else Ok s)"

definition walkaddr :: "u64 \<Rightarrow> u64 \<Rightarrow> 'z kalloc_state_scheme \<Rightarrow> (u64 \<times> 'z kalloc_state_scheme) res" where
  "walkaddr pagetable va s =
     (if MAXVA \<le> va then Ok (0, s)
      else
        bind_res (walk_create pagetable va s) (\<lambda>(pte, s).
        if pte = 0 then Ok (0, s)
        else if load64 (mem s) pte AND PTE_V = 0 then Ok (0, s)
        else if load64 (mem s) pte AND PTE_U = 0 then Ok (0, s)
        else Ok (PTE2PA (load64 (mem s) pte), s)))"

partial_function (option) copy_loop ::
    "u64 \<Rightarrow> u64 \<Rightarrow> u64 \<Rightarrow> u64 \<Rightarrow> 'z kalloc_state_scheme \<Rightarrow> (int \<times> 'z kalloc_state_scheme) res option" where
  "copy_loop old new i sz s =
     (if i < sz then
        (case walk_create old i s of
           Panic e \<Rightarrow> Some (Panic e)
         | Hang \<Rightarrow> Some Hang
         | Ok (pte, s) \<Rightarrow>
             if pte = 0 \<or> load64 (mem s) pte AND PTE_V = 0 then copy_loop old new (i + PAGESIZE) sz s
             else
               let pa = PTE2PA (load64 (mem s) pte);
                   flags = (ucast (PTE_FLAGS (load64 (mem s) pte)) :: u32)
               in (case alloc_page s of
                     Panic e \<Rightarrow> Some (Panic e)
                   | Hang \<Rightarrow> Some Hang
                   | Ok (p, s) \<Rightarrow>
                       if p = 0
                       then Some (bind_res (unmap_page new 0 (i div PAGESIZE) True s) (\<lambda>s. Ok (- 1, s)))
                       else
                         (case map_page new i p PAGESIZE flags
                                 (s\<lparr>mem := memmove (mem s) p pa (ucast PAGESIZE)\<rparr>) of
                            Panic e \<Rightarrow> Some (Panic e)
                          | Hang \<Rightarrow> Some Hang
                          | Ok (r, s) \<Rightarrow>
                              if r \<noteq> 0
                              then Some (bind_res (free_page p s) (\<lambda>s.
                                   bind_res (unmap_page new 0 (i div PAGESIZE) True s) (\<lambda>s. Ok (- 1, s))))
                              else copy_loop old new (i + PAGESIZE) sz s)))
      else Some (Ok (0, s)))"

definition copy_pagetable ::
    "u64 \<Rightarrow> u64 \<Rightarrow> u64 \<Rightarrow> 'z kalloc_state_scheme \<Rightarrow> (int \<times> 'z kalloc_state_scheme) res" where
  "copy_pagetable old new sz s = run_loop (copy_loop old new 0 sz s)"

definition uvmcopy ::
    "u64 \<Rightarrow> u64 \<Rightarrow> u64 \<Rightarrow> 'z kalloc_state_scheme \<Rightarrow> (int \<times> 'z kalloc_state_scheme) res" where
  "uvmcopy old new sz s = copy_pagetable old new sz s"

text \<open>The number of bytes left in the page of \<open>va\<close>, at most \<open>len\<close>.\<close>

definition chunk :: "u64 \<Rightarrow> u64 \<Rightarrow> u64" where
  "chunk va len = (let n = PAGESIZE - (va - PAGEROUNDDOWN va) in if len < n then len else n)"

lemma unat_page_offset: "unat (va - PAGEROUNDDOWN va) = unat va mod 4096"
proof -
  have le: "unat (PAGEROUNDDOWN va) \<le> unat va" by (simp add: unat_PAGEROUNDDOWN)
  then have "unat (va - PAGEROUNDDOWN va) = unat va - unat (PAGEROUNDDOWN va)"
    by (simp add: unat_sub word_le_nat_alt)
  then show ?thesis by (simp add: unat_PAGEROUNDDOWN minus_div_mult_eq_mod)
qed

lemma unat_chunk: "unat (chunk va len) = min (unat len) (4096 - unat va mod 4096)"
proof -
  have "va - PAGEROUNDDOWN va \<le> PAGESIZE" by (simp add: word_le_nat_alt unat_page_offset)
  then have "unat (PAGESIZE - (va - PAGEROUNDDOWN va)) = 4096 - unat va mod 4096"
    by (simp add: unat_sub unat_page_offset)
  then show ?thesis by (auto simp: chunk_def Let_def word_less_nat_alt)
qed

lemma chunk_pos: "0 < len \<Longrightarrow> 0 < unat (chunk va len)" and chunk_le: "chunk va len \<le> len"
  by (auto simp: unat_chunk word_le_nat_alt word_less_nat_alt)

lemma chunk_less: "0 < len \<Longrightarrow> unat (len - chunk va len) < unat len"
  using chunk_pos[of len va] chunk_le[of va len] by (simp add: unat_sub word_le_nat_alt)

function copyout ::
    "u64 \<Rightarrow> u64 \<Rightarrow> u64 \<Rightarrow> u64 \<Rightarrow> 'z kalloc_state_scheme \<Rightarrow> (int \<times> 'z kalloc_state_scheme) res" where
  "copyout pagetable dstva src len s =
     (if 0 < len then
        let va0 = PAGEROUNDDOWN dstva in
        bind_res (walkaddr pagetable va0 s) (\<lambda>(pa0, s).
        if pa0 = 0 then Ok (- 1, s)
        else let n = chunk dstva len in
             copyout pagetable (va0 + PAGESIZE) (src + n) (len - n)
               (s\<lparr>mem := memmove (mem s) (pa0 + (dstva - va0)) src (ucast n)\<rparr>))
      else Ok (0, s))"
  by pat_completeness auto
termination by (relation "measure (\<lambda>(pagetable, dstva, src, len, s). unat len)") (auto simp: chunk_less)

function copyin ::
    "u64 \<Rightarrow> u64 \<Rightarrow> u64 \<Rightarrow> u64 \<Rightarrow> 'z kalloc_state_scheme \<Rightarrow> (int \<times> 'z kalloc_state_scheme) res" where
  "copyin pagetable dst srcva len s =
     (if 0 < len then
        let va0 = PAGEROUNDDOWN srcva in
        bind_res (walkaddr pagetable va0 s) (\<lambda>(pa0, s).
        if pa0 = 0 then Ok (- 1, s)
        else let n = chunk srcva len in
             copyin pagetable (dst + n) (va0 + PAGESIZE) (len - n)
               (s\<lparr>mem := memmove (mem s) dst (pa0 + (srcva - va0)) (ucast n)\<rparr>))
      else Ok (0, s))"
  by pat_completeness auto
termination by (relation "measure (\<lambda>(pagetable, dst, srcva, len, s). unat len)") (auto simp: chunk_less)

declare copyout.simps [simp del] copyin.simps [simp del]

text \<open>
  The inner loop of \<open>copyinstr\<close> over the \<open>n\<close> bytes of one page: memory, whether a NUL was
  copied, and the new \<open>dst\<close>. \<open>max\<close> goes down with \<open>n\<close>.
\<close>

primrec copyinstr_page :: "memory \<Rightarrow> u64 \<Rightarrow> u64 \<Rightarrow> nat \<Rightarrow> memory \<times> bool \<times> u64" where
  "copyinstr_page m p dst 0 = (m, False, dst)"
| "copyinstr_page m p dst (Suc n) =
     (if m p = 0 then (m(dst := 0), True, dst)
      else copyinstr_page (m(dst := m p)) (p + 1) (dst + 1) n)"

function copyinstr ::
    "u64 \<Rightarrow> u64 \<Rightarrow> u64 \<Rightarrow> u64 \<Rightarrow> 'z kalloc_state_scheme \<Rightarrow> (int \<times> 'z kalloc_state_scheme) res" where
  "copyinstr pagetable dst srcva mx s =
     (if 0 < mx then
        let va0 = PAGEROUNDDOWN srcva in
        bind_res (walkaddr pagetable va0 s) (\<lambda>(pa0, s).
        if pa0 = 0 then Ok (- 1, s)
        else let n = chunk srcva mx;
                 (m, got_null, dst) = copyinstr_page (mem s) (pa0 + (srcva - va0)) dst (unat n)
             in if got_null then Ok (0, s\<lparr>mem := m\<rparr>)
                else copyinstr pagetable dst (va0 + PAGESIZE) (mx - n) (s\<lparr>mem := m\<rparr>))
      else Ok (- 1, s))"
  by pat_completeness auto
termination by (relation "measure (\<lambda>(pagetable, dst, srcva, mx, s). unat mx)") (auto simp: chunk_less)

declare copyinstr.simps [simp del]

definition uvmfirst ::
    "u64 \<Rightarrow> u64 \<Rightarrow> u64 \<Rightarrow> 'z kalloc_state_scheme \<Rightarrow> 'z kalloc_state_scheme res" where
  "uvmfirst pagetable data sz s =
     bind_res (alloc_page s) (\<lambda>(p, s).
     if p = 0 then Panic ''uvmfirst: out of memory''
     else
       bind_res (map_page pagetable 0 p PAGESIZE (ucast (PTE_W OR PTE_R OR PTE_X))
                   (s\<lparr>mem := memmove (mem s) p data (ucast sz)\<rparr>)) (\<lambda>(r, s).
       if r < 0 then Panic ''uvmfirst: map_page failed'' else Ok s))"

partial_function (option) uvmalloc_loop ::
    "u64 \<Rightarrow> u64 \<Rightarrow> u64 \<Rightarrow> i32 \<Rightarrow> 'z kalloc_state_scheme \<Rightarrow> (u64 \<times> 'z kalloc_state_scheme) res option" where
  "uvmalloc_loop pagetable a newsz perm s =
     (if a < newsz then
        (case alloc_page s of
           Panic e \<Rightarrow> Some (Panic e)
         | Hang \<Rightarrow> Some Hang
         | Ok (p, s) \<Rightarrow>
             if p = 0 then Some (Ok (0, s))
             else
               (case map_page pagetable a p PAGESIZE perm
                       (s\<lparr>mem := memset (mem s) p 0 (ucast PAGESIZE)\<rparr>) of
                  Panic e \<Rightarrow> Some (Panic e)
                | Hang \<Rightarrow> Some Hang
                | Ok (r, s) \<Rightarrow>
                    if r < 0 then Some (bind_res (free_page p s) (\<lambda>s. Ok (0, s)))
                    else uvmalloc_loop pagetable (a + PAGESIZE) newsz perm s))
      else Some (Ok (newsz, s)))"

definition uvmalloc ::
    "u64 \<Rightarrow> u64 \<Rightarrow> u64 \<Rightarrow> i32 \<Rightarrow> 'z kalloc_state_scheme \<Rightarrow> (u64 \<times> 'z kalloc_state_scheme) res" where
  "uvmalloc pagetable oldsz newsz perm s =
     (if newsz < oldsz then Ok (oldsz, s)
      else run_loop (uvmalloc_loop pagetable (PAGEROUNDUP oldsz) newsz perm s))"

definition uvmdealloc ::
    "u64 \<Rightarrow> u64 \<Rightarrow> u64 \<Rightarrow> 'z kalloc_state_scheme \<Rightarrow> (u64 \<times> 'z kalloc_state_scheme) res" where
  "uvmdealloc pagetable oldsz newsz s =
     (if oldsz \<le> newsz then Ok (oldsz, s)
      else bind_res (unmap_page pagetable newsz ((oldsz - newsz) div PAGESIZE) True s) (\<lambda>s.
           Ok (newsz, s)))"

definition ismapped :: "u64 \<Rightarrow> u64 \<Rightarrow> 'z kalloc_state_scheme \<Rightarrow> (bool \<times> 'z kalloc_state_scheme) res" where
  "ismapped pagetable va s =
     bind_res (walk_create pagetable va s) (\<lambda>(pte, s).
     if pte = 0 then Ok (False, s)
     else if load64 (mem s) pte AND PTE_V \<noteq> 0 then Ok (True, s)
     else Ok (False, s))"

section \<open>The kernel page table\<close>

text \<open>proc.c: one kernel stack page per entry of the process table.\<close>

definition proc_mapstacks :: "u64 \<Rightarrow> 'z kalloc_state_scheme \<Rightarrow> 'z kalloc_state_scheme res" where
  "proc_mapstacks kpgtbl s =
     fold_res (\<lambda>p s.
       bind_res (alloc_page s) (\<lambda>(pa, s).
       if pa = 0 then Panic ''kalloc''
       else map_region kpgtbl (KSTACK (of_nat p)) pa PAGESIZE (ucast (PTE_R OR PTE_W)) s))
       [0..<NPROC] s"

definition kvm_init :: "'z kalloc_state_scheme \<Rightarrow> (u64 \<times> 'z kalloc_state_scheme) res" where
  "kvm_init s =
     bind_res (create_pagetable s) (\<lambda>(kernel_pagetable, s).
     bind_res (map_region kernel_pagetable UART0 UART0 PAGESIZE (ucast (PTE_R OR PTE_W)) s) (\<lambda>s.
     bind_res (map_region kernel_pagetable VIRTIO0 VIRTIO0 PAGESIZE (ucast (PTE_R OR PTE_W)) s) (\<lambda>s.
     bind_res (map_region kernel_pagetable PLIC PLIC 0x4000000 (ucast (PTE_R OR PTE_W)) s) (\<lambda>s.
     bind_res (map_region kernel_pagetable KERNBASE KERNBASE (ld_etext s - KERNBASE)
                 (ucast (PTE_R OR PTE_X)) s) (\<lambda>s.
     bind_res (map_region kernel_pagetable (ld_etext s) (ld_etext s) (PHYSTOP - ld_etext s)
                 (ucast (PTE_R OR PTE_W)) s) (\<lambda>s.
     bind_res (map_region kernel_pagetable TRAMPOLINE (ld_trampoline s) PAGESIZE
                 (ucast (PTE_R OR PTE_X)) s) (\<lambda>s.
     bind_res (proc_mapstacks kernel_pagetable s) (\<lambda>s.
     Ok (kernel_pagetable, s)))))))))"

section \<open>Entries of table pages\<close>

abbreviation entry :: "memory \<Rightarrow> u64 \<Rightarrow> u64 \<Rightarrow> u64" where
  "entry m pt i \<equiv> load64 m (pt + 8 * i)"

lemma entry_cong:
  assumes "page_aligned p" "unat i < 512" "\<And>a. in_region p 4096 a \<Longrightarrow> m a = m' a"
  shows "entry m p i = entry m' p i"
  using table_slot(3)[OF assms(1,2)] assms(3) by (intro load64_cong) blast

lemma slot_in_page: "page_aligned p \<Longrightarrow> unat i < 512 \<Longrightarrow> in_region p 4096 (p + 8 * i)"
  by (rule table_slot(3)) auto

lemma slot_eq_iff:
  assumes "page_aligned p" "page_aligned q" "unat i < 512" "unat j < 512"
  shows "p + 8 * i = q + 8 * j \<longleftrightarrow> p = q \<and> i = j"
proof
  assume eq: "p + 8 * i = q + 8 * j"
  have "p = q" using in_region_pages_disjoint[of p q "p + 8 * i"] slot_in_page assms eq by metis
  moreover have "unat p + 8 * unat i = unat q + 8 * unat j"
    using table_slot(1)[OF assms(1,3)] table_slot(1)[OF assms(2,4)] eq by simp
  ultimately show "p = q \<and> i = j" by (simp add: word_unat_eq_iff)
qed simp

lemma entry_store64:
  assumes "page_aligned p" "page_aligned q" "unat i < 512" "unat j < 512"
  shows "entry (store64 m (q + 8 * j) v) p i = (if p = q \<and> i = j then v else entry m p i)"
  using slot_eq_iff[OF assms] load64_store64_other[of "q + 8 * j" "p + 8 * i"]
    table_slot(2)[OF assms(1,3)] table_slot(2)[OF assms(2,4)] by auto

lemma store64_slot_frame:
  assumes "page_aligned q" "unat j < 512" "\<not> in_region q 4096 a"
  shows "store64 m (q + 8 * j) v a = m a"
  using table_slot(3)[OF assms(1,2)] assms(3) by (intro store64_outside) blast

lemma slot_nonzero: "page_aligned q \<Longrightarrow> q \<noteq> 0 \<Longrightarrow> unat j < 512 \<Longrightarrow> q + 8 * j \<noteq> 0"
  using table_slot(1)[of q j] by (auto simp: word_unat_eq_iff)

lemma entry_zeroed:
  assumes "page_aligned p" "page_aligned q" "unat i < 512"
  shows "entry (memset m q 0 (ucast PAGESIZE)) p i = (if p = q then 0 else entry m p i)"
proof (cases "p = q")
  case True
  have "entry (memset m q 0 (ucast PAGESIZE)) q i = 0"
    using table_slot(3)[OF assms(2,3)] by (intro load64_zero) (simp add: memset_page)
  with True show ?thesis by simp
next
  case False
  then show ?thesis using assms memset_page_other[of q p]
    by (simp add: entry_cong[of p i "memset m q 0 (ucast PAGESIZE)" m])
qed

section \<open>Free pages and the rest of memory\<close>

lemma kmem_pages_mem_cong:
  assumes "kmem_pages s F" "\<And>a q. q \<in> F \<Longrightarrow> in_region q 4096 a \<Longrightarrow> m a = mem s a"
  shows "kmem_pages (s\<lparr>mem := m\<rparr>) F"
proof -
  obtain cache fl where rep: "kmem_ready s" "kmem_rep s cache fl" "F = set cache \<union> set fl"
    using assms(1) by (auto simp: kmem_pages_def)
  have "flist m (freelist s) fl \<longleftrightarrow> flist (mem s) (freelist s) fl"
    using rep(2,3) assms(2) by (intro flist_memory_cong) (auto simp: kmem_rep_def valid_page_def)
  then have "kmem_rep (s\<lparr>mem := m\<rparr>) cache fl" using rep(2) by (simp add: kmem_rep_def valid_page_def)
  then show ?thesis using rep(1,3) by (intro kmem_pagesI) (auto simp: kmem_ready_def)
qed

lemma kmem_pages_store:
  assumes "kmem_pages s F" "page_aligned q" "q \<notin> F" "unat j < 512"
  shows "kmem_pages (s\<lparr>mem := store64 (mem s) (q + 8 * j) v\<rparr>) F"
proof (rule kmem_pages_mem_cong[OF assms(1)])
  fix a p assume "p \<in> F" "in_region p 4096 a"
  then have "\<not> in_region q 4096 a"
    using in_region_pages_disjoint[of p q a] kmem_pages_valid[OF assms(1)] assms(2,3)
    by (auto simp: valid_page_def)
  then show "store64 (mem s) (q + 8 * j) v a = mem s a" using assms by (intro store64_slot_frame)
qed

lemma kmem_pages_memset:
  assumes "kmem_pages s F" "page_aligned q" "q \<notin> F"
  shows "kmem_pages (s\<lparr>mem := memset (mem s) q c (ucast PAGESIZE)\<rparr>) F"
  using assms kmem_pages_valid[OF assms(1)] memset_page_other[of q _ _ "mem s" c]
  by (intro kmem_pages_mem_cong[OF assms(1)]) (auto simp: valid_page_def)

text \<open>
  A state reached by allocator calls and writes to memory: nothing else changed, and the
  interrupt bookkeeping is that of before or the settled one.
\<close>

definition kmem_reach :: "'z kalloc_state_scheme \<Rightarrow> 'z kalloc_state_scheme \<Rightarrow> bool" where
  "kmem_reach s s' \<longleftrightarrow> (sy s' = sy s \<or> sy s' = settled (sy s))
     \<and> s' = s\<lparr>sy := sy s', mem := mem s', freelist := freelist s', pool_buf := pool_buf s',
           pool_n := pool_n s'\<rparr>"

lemma kmem_reach_refl [simp]: "kmem_reach s s"
  by (simp add: kmem_reach_def)

lemma kmem_reach_step: "kmem_step s s' \<Longrightarrow> kmem_reach s s'"
  using kmem_stepD(1)[of s s'] unfolding kmem_step_def kmem_reach_def by (simp only: simp_thms)

lemma kmem_reach_mem: "kmem_reach s s' \<Longrightarrow> kmem_reach s (s'\<lparr>mem := m\<rparr>)"
  unfolding kmem_reach_def by (cases s, cases s') auto

lemma kmem_reach_trans:
  assumes "mycpu (sy s) < length (cpus (sy s))" "kmem_reach s s'" "kmem_reach s' s''"
  shows "kmem_reach s s''"
  using assms unfolding kmem_reach_def by (cases s, cases s', cases s'') auto

lemma kmem_pages_cpu: "kmem_pages s F \<Longrightarrow> mycpu (sy s) < length (cpus (sy s))"
  by (auto simp: kmem_pages_def kmem_ready_def dest: wf_syncD)

lemma kmem_reachD:
  assumes "kmem_reach s s'"
  shows "ld_end s' = ld_end s" "ld_etext s' = ld_etext s" "ld_trampoline s' = ld_trampoline s"
    "initialized s' = initialized s" "kalloc_state.more s' = kalloc_state.more s"
    "locks (sy s') = locks (sy s)" "sstatus (sy s') = sstatus (sy s)"
    "valid_page s' p = valid_page s p"
  using assms unfolding kmem_reach_def valid_page_def by (cases s, cases s', auto)+

section \<open>Page tables\<close>

type_synonym tables1 = "u64 \<Rightarrow> u64 option"
type_synonym tables0 = "u64 \<times> u64 \<Rightarrow> u64 option"

definition link :: "memory \<Rightarrow> u64 \<Rightarrow> u64 \<Rightarrow> u64 option \<Rightarrow> bool" where
  "link m pt i t = (case t of None \<Rightarrow> entry m pt i AND PTE_V = 0
                    | Some q \<Rightarrow> entry m pt i = PA2PTE q OR PTE_V)"

definition pt_pages :: "u64 \<Rightarrow> tables1 \<Rightarrow> tables0 \<Rightarrow> u64 set" where
  "pt_pages pt M1 M0 = insert pt (ran M1 \<union> ran M0)"

text \<open>
  The root \<open>pt\<close> links to the level-1 tables \<open>M1\<close> and these to the level-0 tables \<open>M0\<close>; no
  table page is used twice.
\<close>

definition pt_rep :: "memory \<Rightarrow> u64 \<Rightarrow> tables1 \<Rightarrow> tables0 \<Rightarrow> bool" where
  "pt_rep m pt M1 M0 \<longleftrightarrow> (\<forall>i. unat i < 512 \<longrightarrow> link m pt i (M1 i))
     \<and> (\<forall>i q j. M1 i = Some q \<longrightarrow> unat j < 512 \<longrightarrow> link m q j (M0 (i, j)))
     \<and> (\<forall>i j. M0 (i, j) \<noteq> None \<longrightarrow> M1 i \<noteq> None)
     \<and> inj_on M1 (dom M1) \<and> inj_on M0 (dom M0)
     \<and> pt \<notin> ran M1 \<union> ran M0 \<and> ran M1 \<inter> ran M0 = {}"

definition vm_rep :: "'z kalloc_state_scheme \<Rightarrow> u64 \<Rightarrow> tables1 \<Rightarrow> tables0 \<Rightarrow> u64 set \<Rightarrow> bool" where
  "vm_rep s pt M1 M0 F \<longleftrightarrow> kmem_pages s F \<and> pt_rep (mem s) pt M1 M0
     \<and> (\<forall>q \<in> pt_pages pt M1 M0. valid_page s q \<and> q \<notin> F)"

text \<open>The page-table entry of a virtual address, 0 where there is no level-0 table.\<close>

definition leaf :: "memory \<Rightarrow> tables0 \<Rightarrow> u64 \<Rightarrow> u64" where
  "leaf m M0 va = (case M0 (PX 2 va, PX 1 va) of None \<Rightarrow> 0 | Some r \<Rightarrow> entry m r (PX 0 va))"

lemma pt_rep_disjoint:
  assumes "pt_rep m pt M1 M0"
  shows "pt \<notin> ran M1" "pt \<notin> ran M0" "ran M1 \<inter> ran M0 = {}" "inj_on M1 (dom M1)" "inj_on M0 (dom M0)"
  using assms by (simp_all add: pt_rep_def)

lemma pt_repD:
  assumes "pt_rep m pt M1 M0"
  shows "\<And>i. unat i < 512 \<Longrightarrow> link m pt i (M1 i)"
    and "\<And>i q j. M1 i = Some q \<Longrightarrow> unat j < 512 \<Longrightarrow> link m q j (M0 (i, j))"
    and "\<And>i j. M1 i = None \<Longrightarrow> M0 (i, j) = None"
    and "\<And>i q. M1 i = Some q \<Longrightarrow> q \<noteq> pt" "\<And>k q. M0 k = Some q \<Longrightarrow> q \<noteq> pt"
    and "\<And>i k q r. M1 i = Some q \<Longrightarrow> M0 k = Some r \<Longrightarrow> q \<noteq> r"
    and "\<And>i j q. M1 i = Some q \<Longrightarrow> M1 j = Some q \<Longrightarrow> i = j"
    and "\<And>k l r. M0 k = Some r \<Longrightarrow> M0 l = Some r \<Longrightarrow> k = l"
proof -
  show "\<And>i. unat i < 512 \<Longrightarrow> link m pt i (M1 i)"
    "\<And>i q j. M1 i = Some q \<Longrightarrow> unat j < 512 \<Longrightarrow> link m q j (M0 (i, j))"
    "\<And>i j. M1 i = None \<Longrightarrow> M0 (i, j) = None"
    using assms unfolding pt_rep_def by blast+
  note dist = pt_rep_disjoint[OF assms]
  show "\<And>i q. M1 i = Some q \<Longrightarrow> q \<noteq> pt" "\<And>k q. M0 k = Some q \<Longrightarrow> q \<noteq> pt"
    "\<And>i k q r. M1 i = Some q \<Longrightarrow> M0 k = Some r \<Longrightarrow> q \<noteq> r"
    using dist(1-3) by (auto dest: ranI)
  show "\<And>i j q. M1 i = Some q \<Longrightarrow> M1 j = Some q \<Longrightarrow> i = j" using dist(4) by (metis domI inj_onD)
  show "\<And>k l r. M0 k = Some r \<Longrightarrow> M0 l = Some r \<Longrightarrow> k = l" using dist(5) by (metis domI inj_onD)
qed

lemma or_PTE_V [simp]: "(x OR PTE_V) AND PTE_V \<noteq> 0"
  by (simp add: PTE_V_bit) (simp add: PTE_V_def bit_simps)

lemma valid_page_small: "valid_page s q \<Longrightarrow> unat q < 2 ^ 56"
  by (simp add: valid_page_def word_less_nat_alt PHYSTOP_def)

lemma valid_page_PTE2PA: "valid_page s q \<Longrightarrow> PTE2PA (PA2PTE q OR PTE_V) = q"
  using valid_page_small[of s q] by (intro PTE2PA_PA2PTE) (auto simp: valid_page_def PTE_V_def)

lemma kmem_pages_kernbase: "kmem_pages s F \<Longrightarrow> KERNBASE \<le> ld_end s"
  by (auto simp: kmem_pages_def kmem_rep_def)

lemma vm_rep_valid:
  assumes "vm_rep s pt M1 M0 F"
  shows "kmem_pages s F" "valid_page s pt" "pt \<notin> F"
    "\<And>i q. M1 i = Some q \<Longrightarrow> valid_page s q \<and> q \<notin> F"
    "\<And>i q. M0 i = Some q \<Longrightarrow> valid_page s q \<and> q \<notin> F"
  using assms by (auto simp: vm_rep_def pt_pages_def intro: ranI)

lemma valid_page_aligned: "valid_page s q \<Longrightarrow> page_aligned q"
  by (simp add: valid_page_def)

text \<open>The allocating branch of the walk: a fresh zeroed table linked at slot \<open>j\<close> of \<open>q\<close>.\<close>

definition new_table :: "u64 \<Rightarrow> 'z kalloc_state_scheme \<Rightarrow> (u64 \<times> 'z kalloc_state_scheme) res" where
  "new_table pte s =
     bind_res (alloc_page s) (\<lambda>(pt, s).
     if pt = 0 then Ok (0, s)
     else Ok (pt, s\<lparr>mem := store64 (memset (mem s) pt 0 (ucast PAGESIZE)) pte (PA2PTE pt OR PTE_V)\<rparr>))"

lemma walk_create_from_Suc:
  "walk_create_from (Suc level) pt va s =
     (if entry (mem s) pt (PX (Suc level) va) AND PTE_V \<noteq> 0
      then walk_create_from level (PTE2PA (entry (mem s) pt (PX (Suc level) va))) va s
      else bind_res (new_table (pt + 8 * PX (Suc level) va) s) (\<lambda>(pt, s).
           if pt = 0 then Ok (0, s) else walk_create_from level pt va s))"
proof -
  have b: "bind_res (bind_res r f) g = bind_res r (\<lambda>x. bind_res (f x) g)" for r :: "'x res"
    and f :: "'x \<Rightarrow> 'y res" and g :: "'y \<Rightarrow> 'w res" by (cases r) auto
  have "bind_res (new_table (pt + 8 * PX (Suc level) va) s) (\<lambda>(pt, s).
      if pt = 0 then Ok (0, s) else walk_create_from level pt va s) =
    bind_res (alloc_page s) (\<lambda>(pt', s). if pt' = 0 then Ok (0, s) else walk_create_from level pt' va
      (s\<lparr>mem := store64 (memset (mem s) pt' 0 (ucast PAGESIZE)) (pt + 8 * PX (Suc level) va)
          (PA2PTE pt' OR PTE_V)\<rparr>))"
    unfolding new_table_def b by (rule bind_res_cong) (auto split: prod.splits)
  then show ?thesis unfolding walk_create_from.simps Let_def by (simp cong: if_cong)
qed

declare walk_create_from.simps(2) [simp del]

lemma new_table_none:
  assumes "kmem_pages s {}"
  shows "\<exists>s'. new_table pte s = Ok (0, s') \<and> kmem_pages s' {} \<and> kmem_reach s s' \<and> mem s' = mem s"
  using kmem.alloc_none[OF assms] by (auto simp: new_table_def intro: kmem_reach_step)

lemma new_table_some:
  assumes "kmem_pages s F" "F \<noteq> {}" "page_aligned q" "q \<notin> F" "unat j < 512"
  shows "\<exists>p s'. new_table (q + 8 * j) s = Ok (p, s') \<and> p \<in> F \<and> p \<noteq> 0 \<and> kmem_pages s' (F - {p})
    \<and> kmem_reach s s'
    \<and> (\<forall>r i. page_aligned r \<longrightarrow> unat i < 512 \<longrightarrow> entry (mem s') r i =
         (if r = q \<and> i = j then PA2PTE p OR PTE_V else if r = p then 0 else entry (mem s) r i))
    \<and> (\<forall>a. \<not> in_region p 4096 a \<longrightarrow> \<not> in_region q 4096 a \<longrightarrow> mem s' a = mem s a)"
proof -
  obtain p s1 where p: "alloc_page s = Ok (p, s1)" "p \<in> F" "kmem_pages s1 (F - {p})" "kmem_step s s1"
      "\<And>a. \<not> in_region p 4096 a \<Longrightarrow> mem s1 a = mem s a"
    using kmem.alloc_some[OF assms(1,2)] by blast
  have al: "page_aligned p" "p \<noteq> 0" using kmem_pages_valid[OF assms(1) p(2)] by (auto simp: valid_page_def)
  have "p \<noteq> q" using p(2) assms(4) by auto
  let ?m = "memset (mem s1) p 0 (ucast PAGESIZE)"
  let ?s = "s1\<lparr>mem := store64 ?m (q + 8 * j) (PA2PTE p OR PTE_V)\<rparr>"
  have "kmem_pages (s1\<lparr>mem := ?m\<rparr>) (F - {p})" using p(3) al by (intro kmem_pages_memset) auto
  from kmem_pages_store[OF this assms(3) _ assms(5)]
  have "kmem_pages ?s (F - {p})" using assms(4) by simp
  moreover have "entry (mem ?s) r i =
      (if r = q \<and> i = j then PA2PTE p OR PTE_V else if r = p then 0 else entry (mem s) r i)"
    if r: "page_aligned r" "unat i < 512" for r i
  proof -
    have "entry (mem s1) r i = entry (mem s) r i" if "r \<noteq> p"
      using r al that in_region_pages_disjoint[of r p] p(5) by (intro entry_cong) auto
    then show ?thesis using r al assms by (simp add: entry_store64 entry_zeroed)
  qed
  moreover have "mem ?s a = mem s a" if "\<not> in_region p 4096 a" "\<not> in_region q 4096 a" for a
    using that p(5)[of a] store64_slot_frame[OF assms(3,5)] by (simp add: memset_page)
  moreover have "new_table (q + 8 * j) s = Ok (p, ?s)" using p(1) al by (simp add: new_table_def)
  moreover have "kmem_reach s ?s" using kmem_reach_mem[OF kmem_reach_step[OF p(4)]] .
  ultimately show ?thesis using p(2) al by blast
qed

section \<open>walk\_create\<close>

text \<open>
  A page table grown to \<open>M1'\<close>, \<open>M0'\<close>: tables are only added, from the free pages; the
  entries of all addresses are what they were; memory outside the old tables and the free
  pages is untouched.
\<close>

definition vm_grown :: "u64 \<Rightarrow> 'z kalloc_state_scheme \<Rightarrow> tables1 \<Rightarrow> tables0 \<Rightarrow> u64 set \<Rightarrow>
    'z kalloc_state_scheme \<Rightarrow> tables1 \<Rightarrow> tables0 \<Rightarrow> u64 set \<Rightarrow> bool" where
  "vm_grown pt s M1 M0 F s' M1' M0' F' \<longleftrightarrow> vm_rep s' pt M1' M0' F' \<and> kmem_reach s s' \<and> F' \<subseteq> F
     \<and> pt_pages pt M1' M0' = pt_pages pt M1 M0 \<union> (F - F')
     \<and> leaf (mem s') M0' = leaf (mem s) M0
     \<and> (\<forall>a. (\<forall>q \<in> pt_pages pt M1 M0 \<union> F. \<not> in_region q 4096 a) \<longrightarrow> mem s' a = mem s a)"

lemma vm_grown_refl: "vm_rep s pt M1 M0 F \<Longrightarrow> vm_grown pt s M1 M0 F s M1 M0 F"
  by (simp add: vm_grown_def)

lemma vm_grown_trans:
  assumes "vm_rep s pt M1 M0 F" "vm_grown pt s M1 M0 F s1 N1 N0 F1" "vm_grown pt s1 N1 N0 F1 s2 M1' M0' F2"
  shows "vm_grown pt s M1 M0 F s2 M1' M0' F2"
proof -
  have "mycpu (sy s) < length (cpus (sy s))" using vm_rep_valid(1)[OF assms(1)] by (rule kmem_pages_cpu)
  moreover have "pt_pages pt N1 N0 \<union> F1 = pt_pages pt M1 M0 \<union> F"
    "pt_pages pt N1 N0 \<union> (F1 - F2) = pt_pages pt M1 M0 \<union> (F - F2)"
    using assms(2,3) unfolding vm_grown_def by blast+
  ultimately show ?thesis
    using assms(2,3) kmem_reach_trans[of s s1 s2] unfolding vm_grown_def by (metis order_trans)
qed

lemma inj_on_map_upd:
  assumes "inj_on M (dom M)" "p \<notin> ran M"
  shows "inj_on (M(i \<mapsto> p)) (dom (M(i \<mapsto> p)))"
proof -
  have "M j \<noteq> Some p" for j using assms(2) by (auto intro: ranI)
  then show ?thesis using assms(1) by (auto simp: inj_on_def dom_def split: if_splits)
qed

lemma link_cong: "entry m p i = entry m' p i \<Longrightarrow> link m p i t = link m' p i t"
  by (cases t) (simp_all add: link_def)

lemma link_new: "link m p i (Some q) \<longleftrightarrow> entry m p i = PA2PTE q OR PTE_V" "link m p i None \<longleftrightarrow> entry m p i AND PTE_V = 0"
  by (simp_all add: link_def)

text \<open>A new level-1 table below the root.\<close>

lemma vm_grown_new1:
  assumes rep: "vm_rep s pt M1 M0 F" and none: "M1 i = None" and i: "unat i < 512"
    and p: "p \<in> F" "kmem_pages s' (F - {p})" "kmem_reach s s'"
    and ent: "\<And>r j. page_aligned r \<Longrightarrow> unat j < 512 \<Longrightarrow> entry (mem s') r j =
         (if r = pt \<and> j = i then PA2PTE p OR PTE_V else if r = p then 0 else entry (mem s) r j)"
    and fr: "\<And>a. \<not> in_region p 4096 a \<Longrightarrow> \<not> in_region pt 4096 a \<Longrightarrow> mem s' a = mem s a"
  shows "vm_grown pt s M1 M0 F s' (M1(i \<mapsto> p)) M0 (F - {p})"
proof -
  note v = vm_rep_valid[OF rep]
  have pr: "pt_rep (mem s) pt M1 M0" using rep by (simp add: vm_rep_def)
  have fresh: "p \<noteq> pt" "p \<notin> ran M1" "p \<notin> ran M0" using v(3,4,5) p(1) by (auto simp: ran_def)
  have M0i: "M0 (i, j) = None" for j using pt_repD(3)[OF pr none] .
  have al: "page_aligned pt" "page_aligned p" "M1 k = Some q \<Longrightarrow> page_aligned q"
      "M0 kk = Some q \<Longrightarrow> page_aligned q" for k kk q
    using v kmem_pages_valid[OF v(1) p(1)] by (auto simp: valid_page_def)
  have pages: "pt_pages pt (M1(i \<mapsto> p)) M0 = insert p (pt_pages pt M1 M0)"
    using ran_map_upd[of M1 i p, OF none] by (auto simp: pt_pages_def)
  have "link (mem s') pt j ((M1(i \<mapsto> p)) j)" if "unat j < 512" for j
    using that ent[OF al(1) that] fresh pt_repD(1)[OF pr that] link_cong[of "mem s'" pt j "mem s" "M1 j"]
    by (cases "j = i") (auto simp: link_new)
  moreover have "link (mem s') q j (M0 (k, j))" if "(M1(i \<mapsto> p)) k = Some q" "unat j < 512" for k q j
  proof (cases "k = i")
    case True
    then show ?thesis using that ent[OF al(2) that(2)] fresh M0i by (simp add: link_new)
  next
    case False
    then have q: "M1 k = Some q" using that by simp
    then have "q \<noteq> pt" "q \<noteq> p" using pr fresh by (auto simp: pt_rep_def intro: ranI)
    then have "entry (mem s') q j = entry (mem s) q j" using ent[OF al(3)[OF q] that(2)] by simp
    from link_cong[OF this, of "M0 (k, j)"] show ?thesis using pt_repD(2)[OF pr q that(2)] by simp
  qed
  moreover have "inj_on (M1(i \<mapsto> p)) (dom (M1(i \<mapsto> p)))"
    using inj_on_map_upd[of M1 p i] pr fresh by (simp add: pt_rep_def)
  ultimately have "pt_rep (mem s') pt (M1(i \<mapsto> p)) M0"
    using pr fresh ran_map_upd[of M1 i p, OF none] unfolding pt_rep_def by auto
  moreover have "leaf (mem s') M0 va = leaf (mem s) M0 va" for va
  proof (cases "M0 (PX 2 va, PX 1 va)")
    case (Some r)
    then have "r \<noteq> pt" "r \<noteq> p" using pr fresh by (auto simp: pt_rep_def intro: ranI)
    then show ?thesis using Some ent[OF al(4)[OF Some] PX_less[of 0 va]] by (simp add: leaf_def)
  qed (simp add: leaf_def)
  moreover have "valid_page s' q = valid_page s q" for q using kmem_reachD(8)[OF p(3)] .
  ultimately show ?thesis
    using rep p fr fresh pages kmem_pages_valid[OF v(1) p(1)]
    by (auto simp: vm_grown_def vm_rep_def fun_eq_iff pt_pages_def)
qed

text \<open>A new level-0 table below the level-1 table \<open>q\<close>.\<close>

lemma vm_grown_new0:
  assumes rep: "vm_rep s pt M1 M0 F" and q: "M1 i = Some q" and none: "M0 (i, k) = None"
    and k: "unat k < 512" and p: "p \<in> F" "kmem_pages s' (F - {p})" "kmem_reach s s'"
    and ent: "\<And>r j. page_aligned r \<Longrightarrow> unat j < 512 \<Longrightarrow> entry (mem s') r j =
         (if r = q \<and> j = k then PA2PTE p OR PTE_V else if r = p then 0 else entry (mem s) r j)"
    and fr: "\<And>a. \<not> in_region p 4096 a \<Longrightarrow> \<not> in_region q 4096 a \<Longrightarrow> mem s' a = mem s a"
  shows "vm_grown pt s M1 M0 F s' M1 (M0((i, k) \<mapsto> p)) (F - {p})"
proof -
  note v = vm_rep_valid[OF rep]
  have pr: "pt_rep (mem s) pt M1 M0" using rep by (simp add: vm_rep_def)
  have fresh: "p \<noteq> pt" "p \<notin> ran M1" "p \<notin> ran M0" using v(3,4,5) p(1) by (auto simp: ran_def)
  have al: "page_aligned pt" "page_aligned p" "M1 j = Some r \<Longrightarrow> page_aligned r"
      "M0 kk = Some r \<Longrightarrow> page_aligned r" for j kk r
    using v kmem_pages_valid[OF v(1) p(1)] by (auto simp: valid_page_def)
  have pages: "pt_pages pt M1 (M0((i, k) \<mapsto> p)) = insert p (pt_pages pt M1 M0)"
    using ran_map_upd[of M0 "(i, k)" p, OF none] by (auto simp: pt_pages_def)
  have "link (mem s') pt j (M1 j)" if "unat j < 512" for j
  proof -
    have "entry (mem s') pt j = entry (mem s) pt j"
      using ent[OF al(1) that] fresh pt_repD(4)[OF pr q] by auto
    from link_cong[OF this, of "M1 j"] show ?thesis using pt_repD(1)[OF pr that] by simp
  qed
  moreover have "link (mem s') r j ((M0((i, k) \<mapsto> p)) (l, j))" if r: "M1 l = Some r" "unat j < 512" for l r j
  proof (cases "l = i \<and> j = k")
    case True
    then show ?thesis using r ent[OF al(3)[OF q] k] q by (simp add: link_new)
  next
    case False
    have "r \<noteq> p" using r fresh by (auto intro: ranI)
    moreover have "\<not> (r = q \<and> j = k)" using False pt_repD(7)[OF pr r(1)] q by auto
    ultimately have "entry (mem s') r j = entry (mem s) r j" using ent[OF al(3)[OF r(1)] r(2)] by auto
    then show ?thesis using False pt_repD(2)[OF pr r] link_cong[of "mem s'" r j "mem s"] by auto
  qed
  moreover have "inj_on (M0((i, k) \<mapsto> p)) (dom (M0((i, k) \<mapsto> p)))"
    using inj_on_map_upd[of M0 p "(i, k)"] pr fresh by (simp add: pt_rep_def)
  moreover have "M1 l \<noteq> None" if "(M0((i, k) \<mapsto> p)) (l, j) \<noteq> None" for l j
    using that q pt_repD(3)[OF pr, of l j] by (cases "l = i"; cases "M1 l") auto
  moreover have "ran (M0((i, k) \<mapsto> p)) = insert p (ran M0)" using ran_map_upd[of M0 "(i, k)" p, OF none] .
  moreover have "pt \<notin> ran M1 \<union> insert p (ran M0)" "ran M1 \<inter> insert p (ran M0) = {}" "inj_on M1 (dom M1)"
    using pt_rep_disjoint[OF pr] fresh by auto
  ultimately have "pt_rep (mem s') pt M1 (M0((i, k) \<mapsto> p))"
    unfolding pt_rep_def by presburger
  moreover have "leaf (mem s') (M0((i, k) \<mapsto> p)) va = leaf (mem s) M0 va" for va
  proof (cases "(PX 2 va, PX 1 va) = (i, k)")
    case True
    have "p \<noteq> q" using fresh q by (auto intro: ranI)
    with True show ?thesis using none ent[OF al(2) PX_less[of 0 va]] by (simp add: leaf_def)
  next
    case False
    show ?thesis
    proof (cases "M0 (PX 2 va, PX 1 va)")
      case (Some r)
      then have "r \<noteq> q" "r \<noteq> p" using pt_repD(6)[OF pr q Some] fresh by (auto intro: ranI)
      then show ?thesis using False Some ent[OF al(4)[OF Some] PX_less[of 0 va]] by (auto simp: leaf_def)
    qed (use False in \<open>auto simp: leaf_def\<close>)
  qed
  moreover have "valid_page s' r = valid_page s r" for r using kmem_reachD(8)[OF p(3)] .
  moreover have "q \<in> pt_pages pt M1 M0" using q by (auto simp: pt_pages_def intro: ranI)
  ultimately show ?thesis
    using rep p fr fresh pages kmem_pages_valid[OF v(1) p(1)]
    by (auto simp: vm_grown_def vm_rep_def fun_eq_iff pt_pages_def)
qed

text \<open>What the hardware index reads of a well-formed table.\<close>

lemma link_walk:
  assumes "link m p i t"
  shows "entry m p i AND PTE_V \<noteq> 0 \<longleftrightarrow> t \<noteq> None"
    and "t = Some q \<Longrightarrow> valid_page s q \<Longrightarrow> PTE2PA (entry m p i) = q"
proof -
  show "entry m p i AND PTE_V \<noteq> 0 \<longleftrightarrow> t \<noteq> None"
  proof (cases t)
    case (Some r)
    then have "entry m p i = PA2PTE r OR PTE_V" using assms by (simp only: link_new)
    then show ?thesis using Some or_PTE_V by simp
  qed (use assms in \<open>simp add: link_new\<close>)
  show "PTE2PA (entry m p i) = q" if "t = Some q" "valid_page s q"
  proof -
    have "entry m p i = PA2PTE q OR PTE_V" using assms that by (simp only: link_new)
    then show ?thesis using valid_page_PTE2PA[OF that(2)] by simp
  qed
qed

lemma walk_create_0:
  assumes rep: "vm_rep s pt M1 M0 F" and q: "M1 (PX 2 va) = Some q"
  shows "\<exists>pte s' M0' F'. walk_create_from 1 q va s = Ok (pte, s') \<and> vm_grown pt s M1 M0 F s' M1 M0' F'
    \<and> (if pte = 0 then F' = {} \<and> M0 (PX 2 va, PX 1 va) = None
       else \<exists>r. M0' (PX 2 va, PX 1 va) = Some r \<and> pte = r + 8 * PX 0 va)"
proof -
  note v = vm_rep_valid[OF rep]
  have pr: "pt_rep (mem s) pt M1 M0" using rep by (simp add: vm_rep_def)
  note lk = link_walk[OF pt_repD(2)[OF pr q PX_less[of 1 va]]]
  have step: "walk_create_from 1 q va s =
     (if entry (mem s) q (PX 1 va) AND PTE_V \<noteq> 0
      then Ok (PTE2PA (entry (mem s) q (PX 1 va)) + 8 * PX 0 va, s)
      else bind_res (new_table (q + 8 * PX 1 va) s) (\<lambda>(pt, s).
           if pt = 0 then Ok (0, s) else Ok (pt + 8 * PX 0 va, s)))"
    using walk_create_from_Suc[of 0 q va s] by (simp cong: if_cong)
  have nz: "valid_page s r \<Longrightarrow> r + 8 * PX 0 va \<noteq> 0" for r
    using slot_nonzero[of r "PX 0 va"] PX_less[of 0 va] kmem_pages_kernbase[OF v(1)]
      valid_page_nonzero[of s r] by (auto simp: valid_page_def)
  show ?thesis
  proof (cases "M0 (PX 2 va, PX 1 va)")
    case (Some r)
    have "valid_page s r" using v(5)[OF Some] by simp
    then have "walk_create_from 1 q va s = Ok (r + 8 * PX 0 va, s)"
      using step lk(1) lk(2)[OF Some, of s] Some by simp
    then show ?thesis using vm_grown_refl[OF rep] nz[OF \<open>valid_page s r\<close>] Some by force
  next
    case None
    have al: "page_aligned q" "q \<notin> F" using v(4)[OF q] by (auto simp: valid_page_def)
    show ?thesis
    proof (cases "F = {}")
      case True
      then obtain s' where s': "new_table (q + 8 * PX 1 va) s = Ok (0, s')" "kmem_pages s' {}"
          "kmem_reach s s'" "mem s' = mem s"
        using new_table_none[of s "q + 8 * PX 1 va"] v(1) by auto
      then have "vm_grown pt s M1 M0 F s' M1 M0 F"
        using True rep by (auto simp: vm_grown_def vm_rep_def kmem_reachD(8))
      moreover have "walk_create_from 1 q va s = Ok (0, s')" using step lk(1) None s'(1) by simp
      ultimately show ?thesis using True None by auto
    next
      case False
      obtain p s' where p: "new_table (q + 8 * PX 1 va) s = Ok (p, s')" "p \<in> F" "p \<noteq> 0"
          "kmem_pages s' (F - {p})" "kmem_reach s s'"
          "\<And>r i. page_aligned r \<Longrightarrow> unat i < 512 \<Longrightarrow> entry (mem s') r i = (if r = q \<and> i = PX 1 va
             then PA2PTE p OR PTE_V else if r = p then 0 else entry (mem s) r i)"
          "\<And>a. \<not> in_region p 4096 a \<Longrightarrow> \<not> in_region q 4096 a \<Longrightarrow> mem s' a = mem s a"
        using new_table_some[OF v(1) False al PX_less[of 1 va]] by blast
      have "vm_grown pt s M1 M0 F s' M1 (M0((PX 2 va, PX 1 va) \<mapsto> p)) (F - {p})"
        using p by (intro vm_grown_new0[OF rep q None PX_less[of 1 va]])
      moreover have "walk_create_from 1 q va s = Ok (p + 8 * PX 0 va, s')"
        using step lk(1) None p(1,3) by simp
      moreover have "p + 8 * PX 0 va \<noteq> 0" using nz kmem_pages_valid[OF v(1) p(2)] by simp
      ultimately show ?thesis by force
    qed
  qed
qed

lemma walk_create_spec:
  assumes rep: "vm_rep s pt M1 M0 F"
  shows "\<exists>pte s' M1' M0' F'. walk_create pt va s = Ok (pte, s') \<and> vm_grown pt s M1 M0 F s' M1' M0' F'
    \<and> (if pte = 0 then F' = {} \<and> M0 (PX 2 va, PX 1 va) = None
       else \<exists>r. M0' (PX 2 va, PX 1 va) = Some r \<and> pte = r + 8 * PX 0 va)"
proof -
  note v = vm_rep_valid[OF rep]
  have pr: "pt_rep (mem s) pt M1 M0" using rep by (simp add: vm_rep_def)
  note lk = link_walk[OF pt_repD(1)[OF pr PX_less[of 2 va]]]
  have step: "walk_create pt va s =
     (if entry (mem s) pt (PX 2 va) AND PTE_V \<noteq> 0
      then walk_create_from 1 (PTE2PA (entry (mem s) pt (PX 2 va))) va s
      else bind_res (new_table (pt + 8 * PX 2 va) s) (\<lambda>(pt, s).
           if pt = 0 then Ok (0, s) else walk_create_from 1 pt va s))"
    using walk_create_from_Suc[of 1 pt va s] by (simp add: walk_create_def numeral_2_eq_2)
  show ?thesis
  proof (cases "M1 (PX 2 va)")
    case (Some q)
    then have "walk_create pt va s = walk_create_from 1 q va s"
      using step lk(1) lk(2)[OF Some, of s] v(4)[OF Some] Some by simp
    then show ?thesis using walk_create_0[OF rep Some] by metis
  next
    case None
    have al: "page_aligned pt" "pt \<notin> F" using v(2,3) by (auto simp: valid_page_def)
    show ?thesis
    proof (cases "F = {}")
      case True
      then obtain s' where s': "new_table (pt + 8 * PX 2 va) s = Ok (0, s')" "kmem_pages s' {}"
          "kmem_reach s s'" "mem s' = mem s"
        using new_table_none[of s "pt + 8 * PX 2 va"] v(1) by auto
      then have "vm_grown pt s M1 M0 F s' M1 M0 F"
        using True rep by (auto simp: vm_grown_def vm_rep_def kmem_reachD(8))
      moreover have "walk_create pt va s = Ok (0, s')" using step lk(1) None s'(1) by simp
      ultimately show ?thesis using True pt_repD(3)[OF pr None] by auto
    next
      case False
      obtain p s1 where p: "new_table (pt + 8 * PX 2 va) s = Ok (p, s1)" "p \<in> F" "p \<noteq> 0"
          "kmem_pages s1 (F - {p})" "kmem_reach s s1"
          "\<And>r i. page_aligned r \<Longrightarrow> unat i < 512 \<Longrightarrow> entry (mem s1) r i = (if r = pt \<and> i = PX 2 va
             then PA2PTE p OR PTE_V else if r = p then 0 else entry (mem s) r i)"
          "\<And>a. \<not> in_region p 4096 a \<Longrightarrow> \<not> in_region pt 4096 a \<Longrightarrow> mem s1 a = mem s a"
        using new_table_some[OF v(1) False al PX_less[of 2 va]] by blast
      have g1: "vm_grown pt s M1 M0 F s1 (M1(PX 2 va \<mapsto> p)) M0 (F - {p})"
        using p by (intro vm_grown_new1[OF rep None PX_less[of 2 va]])
      then have "vm_rep s1 pt (M1(PX 2 va \<mapsto> p)) M0 (F - {p})" by (simp add: vm_grown_def)
      from walk_create_0[OF this, of va p] obtain pte s' M0' F' where
          w: "walk_create_from 1 p va s1 = Ok (pte, s')"
            "vm_grown pt s1 (M1(PX 2 va \<mapsto> p)) M0 (F - {p}) s' (M1(PX 2 va \<mapsto> p)) M0' F'"
            "if pte = 0 then F' = {} \<and> M0 (PX 2 va, PX 1 va) = None
             else \<exists>r. M0' (PX 2 va, PX 1 va) = Some r \<and> pte = r + 8 * PX 0 va"
        by auto
      have "walk_create pt va s = Ok (pte, s')" using step lk(1) None p(1,3) w(1) by simp
      then show ?thesis using vm_grown_trans[OF rep g1 w(2)] w(3) by metis
    qed
  qed
qed

section \<open>The mapping of a page table\<close>

text \<open>The virtual page number the hardware uses, 27 bits.\<close>

definition vpn :: "u64 \<Rightarrow> nat" where
  "vpn va = unat va div 4096 mod 2 ^ 27"

lemma unat_drop_bit: "unat (drop_bit k (a :: u64)) = unat a div 2 ^ k"
proof -
  have "take_bit 64 (unat a) = unat a" using unat_u64_less by (rule take_bit_nat_eq_self)
  then show ?thesis by (simp only: unsigned_drop_bit_eq) (simp add: drop_bit_eq_div)
qed

lemma unat_PX: "unat (PX l va) = unat va div 2 ^ PXSHIFT l mod 512"
proof -
  have m: "(0x1FF :: u64) = mask 9" by (simp add: mask_eq_exp_minus_1)
  have "PX l va = take_bit 9 (drop_bit (PXSHIFT l) va)" unfolding PX_def m take_bit_eq_mask ..
  then have "unat (PX l va) = take_bit 9 (unat (drop_bit (PXSHIFT l) va))"
    by (simp only: unsigned_take_bit_eq)
  then show ?thesis unfolding unat_drop_bit take_bit_eq_mod by simp
qed

lemma PX_eq_iff: "PX l va = PX l vb \<longleftrightarrow> unat va div 2 ^ PXSHIFT l mod 512 = unat vb div 2 ^ PXSHIFT l mod 512"
  by (simp add: word_unat_eq_iff unat_PX)

lemma mod_512_digits:
  "(x :: nat) mod 2 ^ 27 = 512 * (512 * (x div 512 div 512 mod 512) + x div 512 mod 512) + x mod 512"
  using mod_mult2_eq[of x 512 "512 * 512"] mod_mult2_eq[of "x div 512" 512 512] by simp

lemma vpn_eq_iff:
  "vpn va = vpn vb \<longleftrightarrow> PX 2 va = PX 2 vb \<and> PX 1 va = PX 1 vb \<and> PX 0 va = PX 0 vb"
proof -
  define x y where "x = unat va div 4096" and "y = unat vb div 4096"
  have px: "PX 2 va = PX 2 vb \<longleftrightarrow> x div 512 div 512 mod 512 = y div 512 div 512 mod 512"
    "PX 1 va = PX 1 vb \<longleftrightarrow> x div 512 mod 512 = y div 512 mod 512"
    "PX 0 va = PX 0 vb \<longleftrightarrow> x mod 512 = y mod 512"
    by (simp_all add: PX_eq_iff PXSHIFT_def x_def y_def div_mult2_eq[symmetric])
  have digit: "512 * a + b = 512 * a' + b' \<longleftrightarrow> a = a' \<and> b = b'" if "b < 512" "b' < 512" for a b a' b' :: nat
  proof
    assume eq: "512 * a + b = 512 * a' + b'"
    have "(512 * a + b) div 512 = a" "(512 * a' + b') div 512 = a'" using that by simp_all
    with eq show "a = a' \<and> b = b'" by simp
  qed simp
  have "vpn va = x mod 2 ^ 27" "vpn vb = y mod 2 ^ 27" by (simp_all add: vpn_def x_def y_def)
  then show ?thesis
    unfolding px by (simp only: mod_512_digits) (subst digit, simp, simp, subst digit, simp, simp, blast)
qed

text \<open>
  The contents of a page table: entry \<open>L va\<close> for every address, stored in the table pages
  \<open>T\<close>, with \<open>F\<close> the free pages.
\<close>

definition pt_map :: "'z kalloc_state_scheme \<Rightarrow> u64 \<Rightarrow> (u64 \<Rightarrow> u64) \<Rightarrow> u64 set \<Rightarrow> u64 set \<Rightarrow> bool" where
  "pt_map s pt L T F \<longleftrightarrow> (\<exists>M1 M0. vm_rep s pt M1 M0 F \<and> L = leaf (mem s) M0 \<and> T = pt_pages pt M1 M0)"

definition set_pte :: "(u64 \<Rightarrow> u64) \<Rightarrow> u64 \<Rightarrow> u64 \<Rightarrow> u64 \<Rightarrow> u64" where
  "set_pte L va v = (\<lambda>va'. if vpn va' = vpn va then v else L va')"

text \<open>Tables were taken from the free pages, and only tables and free pages written.\<close>

definition pt_step :: "'z kalloc_state_scheme \<Rightarrow> u64 set \<Rightarrow> u64 set \<Rightarrow>
    'z kalloc_state_scheme \<Rightarrow> u64 set \<Rightarrow> u64 set \<Rightarrow> bool" where
  "pt_step s T F s' T' F' \<longleftrightarrow> kmem_reach s s' \<and> F' \<subseteq> F \<and> T' = T \<union> (F - F')
     \<and> (\<forall>a. (\<forall>q \<in> T \<union> F. \<not> in_region q 4096 a) \<longrightarrow> mem s' a = mem s a)"

lemma pt_step_refl [simp]: "pt_step s T F s T F"
  by (simp add: pt_step_def)

lemma pt_step_trans:
  assumes "kmem_pages s F" "pt_step s T F s1 T1 F1" "pt_step s1 T1 F1 s2 T2 F2"
  shows "pt_step s T F s2 T2 F2"
proof -
  have "T1 \<union> F1 = T \<union> F" "T1 \<union> (F1 - F2) = T \<union> (F - F2)" using assms(2,3) unfolding pt_step_def by blast+
  then show ?thesis
    using assms(2,3) kmem_reach_trans[OF kmem_pages_cpu[OF assms(1)], of s1 s2]
    unfolding pt_step_def by (metis order_trans)
qed

lemma pt_step_mem:
  assumes "pt_step s T F s1 T1 F1" "\<And>a. \<forall>q \<in> T \<union> F. \<not> in_region q 4096 a \<Longrightarrow> m a = mem s1 a"
  shows "pt_step s T F (s1\<lparr>mem := m\<rparr>) T1 F1"
  using assms kmem_reach_mem[of s s1 m] by (simp add: pt_step_def)

lemma pt_map_pages:
  assumes "pt_map s pt L T F"
  shows "kmem_pages s F" "pt \<in> T" "T \<inter> F = {}" "\<And>q. q \<in> T \<Longrightarrow> valid_page s q"
  using assms by (auto simp: pt_map_def vm_rep_def pt_pages_def)

lemma vm_rep_set_pte:
  fixes v :: u64
  assumes rep: "vm_rep s pt M1 M0 F" and r: "M0 (PX 2 va, PX 1 va) = Some r"
  defines "s' \<equiv> s\<lparr>mem := store64 (mem s) (r + 8 * PX 0 va) v\<rparr>"
  shows "vm_rep s' pt M1 M0 F" "leaf (mem s') M0 = set_pte (leaf (mem s) M0) va v"
    "leaf (mem s) M0 va = load64 (mem s) (r + 8 * PX 0 va)"
proof -
  note vv = vm_rep_valid[OF rep]
  have pr: "pt_rep (mem s) pt M1 M0" using rep by (simp add: vm_rep_def)
  have al: "page_aligned r" "r \<notin> F" using vv(5)[OF r] by (auto simp: valid_page_def)
  have other: "entry (mem s') p i = entry (mem s) p i" if "page_aligned p" "p \<noteq> r" "unat i < 512" for p i
    using that al PX_less[of 0 va] by (simp add: s'_def entry_store64)
  have "link (mem s') pt j (M1 j)" if j: "unat j < 512" for j
  proof -
    have "entry (mem s') pt j = entry (mem s) pt j"
      using other[of pt j] j vv(2) pt_repD(5)[OF pr r] by (auto simp: valid_page_def)
    from link_cong[OF this, of "M1 j"] show ?thesis using pt_repD(1)[OF pr j] by simp
  qed
  moreover have "link (mem s') q j (M0 (l, j))" if q: "M1 l = Some q" and j: "unat j < 512" for l q j
  proof -
    have "entry (mem s') q j = entry (mem s) q j"
      using other[of q j] j vv(4)[OF q] pt_repD(6)[OF pr q r] by (auto simp: valid_page_def)
    from link_cong[OF this, of "M0 (l, j)"] show ?thesis using pt_repD(2)[OF pr q j] by simp
  qed
  ultimately have "pt_rep (mem s') pt M1 M0" using pr unfolding pt_rep_def by blast
  moreover have "kmem_pages s' F" unfolding s'_def using kmem_pages_store[OF vv(1) al PX_less] .
  ultimately show "vm_rep s' pt M1 M0 F" using rep by (simp add: vm_rep_def s'_def valid_page_def)
  show "leaf (mem s') M0 = set_pte (leaf (mem s) M0) va v"
  proof
    fix vb
    show "leaf (mem s') M0 vb = set_pte (leaf (mem s) M0) va v vb"
    proof (cases "M0 (PX 2 vb, PX 1 vb)")
      case None
      then have "vpn vb \<noteq> vpn va" using r by (auto simp: vpn_eq_iff)
      with None show ?thesis by (simp add: leaf_def set_pte_def)
    next
      case (Some q)
      have "page_aligned q" using vv(5)[OF Some] by (simp add: valid_page_def)
      then have "entry (mem s') q (PX 0 vb) = (if q = r \<and> PX 0 vb = PX 0 va then v else entry (mem s) q (PX 0 vb))"
        using al PX_less[of 0 va] PX_less[of 0 vb] by (simp add: s'_def entry_store64)
      moreover have "q = r \<longleftrightarrow> PX 2 vb = PX 2 va \<and> PX 1 vb = PX 1 va"
        using Some r pt_repD(8)[OF pr Some, of "(PX 2 va, PX 1 va)"] by auto
      ultimately show ?thesis using Some by (auto simp: leaf_def set_pte_def vpn_eq_iff)
    qed
  qed
  show "leaf (mem s) M0 va = load64 (mem s) (r + 8 * PX 0 va)" using r by (simp add: leaf_def)
qed

text \<open>
  The walk as a client sees it: it fails only without free pages, otherwise it returns the
  address of the entry, and a store there changes this one entry.
\<close>

lemma walk_create_map:
  assumes "pt_map s pt L T F"
  shows "\<exists>pte s' T' F'. walk_create pt va s = Ok (pte, s') \<and> pt_map s' pt L T' F' \<and> pt_step s T F s' T' F'
    \<and> (pte = 0 \<longrightarrow> F' = {} \<and> L va = 0)
    \<and> (pte \<noteq> 0 \<longrightarrow> load64 (mem s') pte = L va \<and> (\<exists>r \<in> T'. pte = r + 8 * PX 0 va)
        \<and> (\<forall>v. pt_map (s'\<lparr>mem := store64 (mem s') pte v\<rparr>) pt (set_pte L va v) T' F'))"
proof -
  obtain M1 M0 where rep: "vm_rep s pt M1 M0 F" "L = leaf (mem s) M0" "T = pt_pages pt M1 M0"
    using assms by (auto simp: pt_map_def)
  obtain pte s' M1' M0' F' where w: "walk_create pt va s = Ok (pte, s')"
      "vm_grown pt s M1 M0 F s' M1' M0' F'"
      "if pte = 0 then F' = {} \<and> M0 (PX 2 va, PX 1 va) = None
       else \<exists>r. M0' (PX 2 va, PX 1 va) = Some r \<and> pte = r + 8 * PX 0 va"
    using walk_create_spec[OF rep(1)] by blast
  have rep': "vm_rep s' pt M1' M0' F'" "L = leaf (mem s') M0'" using w(2) rep by (auto simp: vm_grown_def)
  then have "pt_map s' pt L (pt_pages pt M1' M0') F'" by (auto simp: pt_map_def)
  moreover have "pt_step s T F s' (pt_pages pt M1' M0') F'"
    using w(2) rep(3) by (simp add: vm_grown_def pt_step_def)
  moreover have "load64 (mem s') pte = L va \<and> (\<exists>r \<in> pt_pages pt M1' M0'. pte = r + 8 * PX 0 va)
      \<and> (\<forall>v. pt_map (s'\<lparr>mem := store64 (mem s') pte v\<rparr>) pt (set_pte L va v) (pt_pages pt M1' M0') F')"
    if "pte \<noteq> 0"
  proof -
    obtain r where r: "M0' (PX 2 va, PX 1 va) = Some r" "pte = r + 8 * PX 0 va" using w(3) \<open>pte \<noteq> 0\<close> by auto
    then have "r \<in> pt_pages pt M1' M0'" by (auto simp: pt_pages_def intro: ranI)
    moreover have "pt_map (s'\<lparr>mem := store64 (mem s') pte v\<rparr>) pt (set_pte L va v) (pt_pages pt M1' M0') F'" for v
      using vm_rep_set_pte(1,2)[OF rep'(1) r(1), of v] r(2) rep'(2) unfolding pt_map_def by metis
    ultimately show ?thesis using vm_rep_set_pte(3)[OF rep'(1) r(1)] r(2) rep'(2) by auto
  qed
  moreover have "L va = 0" if "pte = 0" using w(3) that rep(2) by (simp add: leaf_def)
  ultimately show ?thesis using w(1,3)
    by (intro exI[of _ pte] exI[of _ s'] exI[of _ "pt_pages pt M1' M0'"] exI[of _ F'])
      (simp split: if_splits)
qed

lemma pt_step_store:
  assumes "pt_map s1 pt L T1 F1" "pt_step s T F s1 T1 F1" "\<exists>r \<in> T1. pte = r + 8 * PX 0 va"
  shows "pt_step s T F (s1\<lparr>mem := store64 (mem s1) pte v\<rparr>) T1 F1"
proof (rule pt_step_mem[OF assms(2)])
  fix a assume a: "\<forall>q \<in> T \<union> F. \<not> in_region q 4096 a"
  obtain r where r: "r \<in> T1" "pte = r + 8 * PX 0 va" using assms(3) by blast
  have "r \<in> T \<union> F" using r(1) assms(2) by (auto simp: pt_step_def)
  then show "store64 (mem s1) pte v a = mem s1 a"
    using a r pt_map_pages(4)[OF assms(1) r(1)] PX_less[of 0 va]
    by (auto simp: valid_page_def intro!: store64_slot_frame)
qed

lemma walk_lookup_2:
  "walk_lookup m pt va =
     (if entry m pt (PX 2 va) AND PTE_V \<noteq> 0
      then let q = PTE2PA (entry m pt (PX 2 va)) in
           if entry m q (PX 1 va) AND PTE_V \<noteq> 0 then PTE2PA (entry m q (PX 1 va)) + 8 * PX 0 va else 0
      else 0)"
  by (simp add: walk_lookup_def numeral_2_eq_2 Let_def cong: if_cong)

lemma walk_lookup_vm_rep:
  assumes rep: "vm_rep s pt M1 M0 F"
  shows "walk_lookup (mem s) pt va =
    (case M0 (PX 2 va, PX 1 va) of None \<Rightarrow> 0 | Some r \<Rightarrow> r + 8 * PX 0 va)"
proof -
  note v = vm_rep_valid[OF rep]
  have pr: "pt_rep (mem s) pt M1 M0" using rep by (simp add: vm_rep_def)
  note lk1 = link_walk[OF pt_repD(1)[OF pr PX_less[of 2 va]]]
  show ?thesis
  proof (cases "M1 (PX 2 va)")
    case None
    then show ?thesis using lk1(1) pt_repD(3)[OF pr None] by (simp add: walk_lookup_2)
  next
    case (Some q)
    note lk0 = link_walk[OF pt_repD(2)[OF pr Some PX_less[of 1 va]]]
    have q: "PTE2PA (entry (mem s) pt (PX 2 va)) = q" using lk1(2)[OF Some, of s] v(4)[OF Some] by simp
    have p1: "entry (mem s) pt (PX 2 va) AND PTE_V \<noteq> 0" using lk1(1) Some by simp
    show ?thesis
    proof (cases "M0 (PX 2 va, PX 1 va)")
      case None
      then show ?thesis using lk0(1) p1 q unfolding walk_lookup_2 Let_def by simp
    next
      case (Some r)
      have "PTE2PA (entry (mem s) q (PX 1 va)) = r" using lk0(2)[OF Some, of s] v(5)[OF Some] by simp
      then show ?thesis using lk0(1) p1 q Some unfolding walk_lookup_2 Let_def by simp
    qed
  qed
qed

text \<open>Looking an address up: the slot of its entry, or 0 where the entry is 0.\<close>

lemma walk_lookup_map:
  assumes "pt_map s pt L T F"
  shows "walk_lookup (mem s) pt va = 0 \<Longrightarrow> L va = 0"
    and "walk_lookup (mem s) pt va \<noteq> 0 \<Longrightarrow> load64 (mem s) (walk_lookup (mem s) pt va) = L va"
proof -
  obtain M1 M0 where rep: "vm_rep s pt M1 M0 F" "L = leaf (mem s) M0" using assms by (auto simp: pt_map_def)
  have nz: "M0 k = Some r \<Longrightarrow> r + 8 * PX 0 va \<noteq> 0" for k r
    using vm_rep_valid(1)[OF rep(1)] vm_rep_valid(5)[OF rep(1), of k r] PX_less[of 0 va]
      valid_page_nonzero[of s r] slot_nonzero[of r "PX 0 va"]
    by (auto dest!: kmem_pages_kernbase simp: valid_page_def)
  show "walk_lookup (mem s) pt va = 0 \<Longrightarrow> L va = 0"
    using nz by (auto simp: walk_lookup_vm_rep[OF rep(1)] rep(2) leaf_def split: option.splits)
  show "walk_lookup (mem s) pt va \<noteq> 0 \<Longrightarrow> load64 (mem s) (walk_lookup (mem s) pt va) = L va"
    by (auto simp: walk_lookup_vm_rep[OF rep(1)] rep(2) leaf_def split: option.splits)
qed

lemma walk_create_lookup_same:
  assumes "pt_map s pt L T F" "walk_create pt va s = Ok (pte, s')" "pte \<noteq> 0"
  shows "walk_lookup (mem s') pt va = pte"
proof -
  obtain M1 M0 where rep: "vm_rep s pt M1 M0 F" using assms by (auto simp: pt_map_def)
  obtain M1' M0' F' where w: "vm_grown pt s M1 M0 F s' M1' M0' F'"
      "\<exists>r. M0' (PX 2 va, PX 1 va) = Some r \<and> pte = r + 8 * PX 0 va"
    using walk_create_spec[OF rep, of va] assms(2,3) by auto
  then have "vm_rep s' pt M1' M0' F'" by (simp add: vm_grown_def)
  from walk_lookup_vm_rep[OF this, of va] show ?thesis using w(2) by auto
qed

text \<open>
  C14. Walking a page table. Starting from a well-formed table, walk_create() returns 0 only
  when physical memory is used up; otherwise walk_lookup() then finds the same entry. The
  entry of every virtual address is the same before and after, the tables it adds come
  from the free pages, and no memory outside the tables and the free pages is written.
\<close>

theorem walk_create_preserves_mappings:
  assumes "pt_map s pt L T F"
  shows "\<exists>pte s' T' F'. walk_create pt va s = Ok (pte, s') \<and> pt_map s' pt L T' F'
    \<and> T' = T \<union> (F - F') \<and> F' \<subseteq> F
    \<and> (if pte = 0 then F' = {} else walk_lookup (mem s') pt va = pte \<and> load64 (mem s') pte = L va)
    \<and> (\<forall>a. (\<forall>q \<in> T \<union> F. \<not> in_region q 4096 a) \<longrightarrow> mem s' a = mem s a)"
proof -
  obtain pte s' T' F' where w: "walk_create pt va s = Ok (pte, s')" "pt_map s' pt L T' F'"
      "pt_step s T F s' T' F'" "pte = 0 \<longrightarrow> F' = {}" "pte \<noteq> 0 \<longrightarrow> load64 (mem s') pte = L va"
    using walk_create_map[OF assms, of va] by blast
  then show ?thesis
    using walk_create_lookup_same[OF assms w(1)] unfolding pt_step_def
    by (intro exI[of _ pte] exI[of _ s'] exI[of _ T'] exI[of _ F']) auto
qed

text \<open>Three free pages and an empty page table.\<close>

lemma three_pages_table:
  "pt_map three_pages 0x80040000 (\<lambda>_. 0) {0x80040000} {0x80031000, 0x80032000, 0x80030000}"
proof -
  have "entry (\<lambda>_. 0) p i = 0" for p i by (intro load64_zero) simp
  then have "pt_rep (mem three_pages) 0x80040000 Map.empty Map.empty"
    by (simp add: pt_rep_def link_new three_pages_def)
  moreover have "valid_page three_pages 0x80040000"
    by (simp add: three_pages_def valid_page_def page_aligned_def PAGESIZE_def KERNBASE_def PHYSTOP_def)
  ultimately have "vm_rep three_pages 0x80040000 Map.empty Map.empty {0x80031000, 0x80032000, 0x80030000}"
    using three_pages_rep by (simp add: vm_rep_def pt_pages_def)
  then show ?thesis unfolding pt_map_def
    by (intro exI[of _ Map.empty]) (simp add: leaf_def pt_pages_def fun_eq_iff)
qed

theorem walk_create_preserves_mappings_witness:
  "\<exists>pte s' T' F'. walk_create 0x80040000 0x5000 three_pages = Ok (pte, s') \<and> pt_map s' 0x80040000 (\<lambda>_. 0) T' F'
    \<and> (pte \<noteq> 0 \<longrightarrow> walk_lookup (mem s') 0x80040000 0x5000 = pte)"
proof -
  obtain pte s' T' F' where "walk_create 0x80040000 0x5000 three_pages = Ok (pte, s')"
      "pt_map s' 0x80040000 (\<lambda>_. 0) T' F'"
      "if pte = 0 then F' = {} else walk_lookup (mem s') 0x80040000 0x5000 = pte \<and> load64 (mem s') pte = 0"
    using walk_create_preserves_mappings[OF three_pages_table, of "0x5000"] by blast
  then show ?thesis by auto
qed

end
