(* ===== verification/Vm_Map.thy ===== *)
theory Vm_Map
  imports Vm
begin

text \<open>
  Theorems on the page-table operations of kernel/mm/vm.c: what \<open>map_page\<close> and
  \<open>unmap_page\<close> do to the entries of all addresses and to the free pages, and the copies
  between kernel memory and the user pages a table maps.
\<close>

section \<open>map\_page\<close>

text \<open>The entries of \<open>n\<close> pages from page number \<open>v\<close> on, mapped to frames from \<open>pa\<close> on.\<close>

definition map_range :: "(u64 \<Rightarrow> u64) \<Rightarrow> nat \<Rightarrow> nat \<Rightarrow> u64 \<Rightarrow> u64 \<Rightarrow> u64 \<Rightarrow> u64" where
  "map_range L v n pa perm = (\<lambda>va. if v \<le> vpn va \<and> vpn va < v + n
     then PA2PTE (pa + of_nat (vpn va - v) * PAGESIZE) OR perm OR PTE_V else L va)"

lemma map_range_0 [simp]: "map_range L v 0 pa perm = L"
  by (auto simp: map_range_def fun_eq_iff)

lemma map_range_Suc:
  "map_range (set_pte L a (PA2PTE pa OR perm OR PTE_V)) (Suc (vpn a)) n (pa + PAGESIZE) perm =
     map_range L (vpn a) (Suc n) pa perm"
proof
  fix va
  show "map_range (set_pte L a (PA2PTE pa OR perm OR PTE_V)) (Suc (vpn a)) n (pa + PAGESIZE) perm va =
     map_range L (vpn a) (Suc n) pa perm va"
  proof (cases "Suc (vpn a) \<le> vpn va \<and> vpn va < Suc (vpn a) + n")
    case True
    then obtain k where "vpn va = Suc (vpn a) + k" using le_Suc_ex by blast
    then have "vpn va - Suc (vpn a) = k" "vpn va - vpn a = Suc k" by auto
    then show ?thesis using True by (simp add: map_range_def algebra_simps)
  next
    case False
    then have "vpn va = vpn a \<or> \<not> (vpn a \<le> vpn va \<and> vpn va < vpn a + Suc n)" by auto
    then show ?thesis using False by (auto simp: map_range_def set_pte_def)
  qed
qed

lemma vpn_next:
  assumes "unat a + 4096 < 2 ^ 39"
  shows "vpn (a + PAGESIZE) = Suc (vpn a)"
proof -
  have u: "unat (a + PAGESIZE) = unat a + 4096" using assms unat_add_u64[of a PAGESIZE] by simp
  have "(unat a + 4096) div 4096 = unat a div 4096 + 1" by simp
  moreover have "unat a div 4096 + 1 < 2 ^ 27"
  proof -
    have "(unat a + 4096) div 4096 < 2 ^ 27" using assms by (simp add: div_less_iff_less_mult)
    then show ?thesis by simp
  qed
  ultimately show ?thesis by (simp add: vpn_def u)
qed

lemma map_loop_spec:
  assumes "pt_map s pt L T F" "unat a + 4096 * n < 2 ^ 39" "last_a = a + of_nat n * PAGESIZE"
    "\<forall>va. vpn a \<le> vpn va \<and> vpn va \<le> vpn a + n \<longrightarrow> L va AND PTE_V = 0"
  shows "\<exists>r s' L' T' F'. map_loop pt a last_a pa perm s = Some (Ok (r, s')) \<and> pt_map s' pt L' T' F'
    \<and> pt_step s T F s' T' F'
    \<and> (if r = 0 then L' = map_range L (vpn a) (Suc n) pa perm
       else r = - 1 \<and> F' = {} \<and> (\<exists>k \<le> n. L' = map_range L (vpn a) k pa perm))"
  using assms
proof (induction n arbitrary: a pa s L T F)
  case (Suc n)
  obtain pte s1 T1 F1 where w: "walk_create pt a s = Ok (pte, s1)" "pt_map s1 pt L T1 F1"
      "pt_step s T F s1 T1 F1" "pte = 0 \<Longrightarrow> F1 = {}" "pte \<noteq> 0 \<Longrightarrow> load64 (mem s1) pte = L a"
      "\<And>v. pte \<noteq> 0 \<Longrightarrow> pt_map (s1\<lparr>mem := store64 (mem s1) pte v\<rparr>) pt (set_pte L a v) T1 F1"
      "pte \<noteq> 0 \<Longrightarrow> \<exists>r \<in> T1. pte = r + 8 * PX 0 a"
    using walk_create_map[OF Suc.prems(1), of a] by blast
  show ?case
  proof (cases "pte = 0")
    case True
    then have "map_loop pt a last_a pa perm s = Some (Ok (- 1, s1))"
      using w(1) by (simp add: map_loop.simps)
    then show ?thesis using w(2,3,4) True
      by (intro exI[of _ "- 1"] exI[of _ s1] exI[of _ L] exI[of _ T1] exI[of _ F1]) auto
  next
    case False
    let ?v = "PA2PTE pa OR perm OR PTE_V"
    let ?s2 = "s1\<lparr>mem := store64 (mem s1) pte ?v\<rparr>"
    have "last_a \<noteq> a"
    proof
      assume "last_a = a"
      then have "of_nat (Suc n) * PAGESIZE = (0 :: u64)" using Suc.prems(3) by simp
      moreover have "of_nat (Suc n) * PAGESIZE = (of_nat (Suc n * 4096) :: u64)" by (simp add: PAGESIZE_def)
      moreover have "unat (of_nat (Suc n * 4096) :: u64) = Suc n * 4096"
        using Suc.prems(2) by (intro unat_of_nat_u64) simp
      ultimately show False by (metis unat_0 mult_eq_0_iff nat.distinct(1) zero_neq_numeral)
    qed
    then have loop: "map_loop pt a last_a pa perm s = map_loop pt (a + PAGESIZE) last_a (pa + PAGESIZE) perm ?s2"
      using w(1,5) False Suc.prems(4) by (subst map_loop.simps) simp
    have vn: "vpn (a + PAGESIZE) = Suc (vpn a)" using Suc.prems(2) by (intro vpn_next) simp
    have "unat (a + PAGESIZE) = unat a + 4096" using Suc.prems(2) unat_add_u64[of a PAGESIZE] by simp
    then have bound: "unat (a + PAGESIZE) + 4096 * n < 2 ^ 39" using Suc.prems(2) by simp
    have la: "last_a = a + PAGESIZE + of_nat n * PAGESIZE" using Suc.prems(3) by (simp add: algebra_simps)
    have un: "\<forall>va. vpn (a + PAGESIZE) \<le> vpn va \<and> vpn va \<le> vpn (a + PAGESIZE) + n \<longrightarrow>
        set_pte L a ?v va AND PTE_V = 0" using Suc.prems(4) vn by (auto simp: set_pte_def)
    from Suc.IH[OF w(6)[OF False] bound la un] obtain r s' L' T' F' where
        IH: "map_loop pt (a + PAGESIZE) last_a (pa + PAGESIZE) perm ?s2 = Some (Ok (r, s'))"
          "pt_map s' pt L' T' F'" "pt_step ?s2 T1 F1 s' T' F'"
          "if r = 0 then L' = map_range (set_pte L a ?v) (vpn (a + PAGESIZE)) (Suc n) (pa + PAGESIZE) perm
           else r = - 1 \<and> F' = {} \<and> (\<exists>k \<le> n. L' = map_range (set_pte L a ?v) (vpn (a + PAGESIZE)) k (pa + PAGESIZE) perm)"
      by blast
    have "if r = 0 then L' = map_range L (vpn a) (Suc (Suc n)) pa perm
        else r = - 1 \<and> F' = {} \<and> (\<exists>k \<le> Suc n. L' = map_range L (vpn a) k pa perm)"
      using IH(4) unfolding vn map_range_Suc by (metis Suc_le_mono)
    moreover have "pt_step s T F s' T' F'"
      using pt_step_trans[OF _ pt_step_store[OF w(2,3) w(7)[OF False]] IH(3)] pt_map_pages(1)[OF Suc.prems(1)]
      by simp
    ultimately show ?thesis using IH(1,2) loop
      by (intro exI[of _ r] exI[of _ s'] exI[of _ L'] exI[of _ T'] exI[of _ F']) simp
  qed
next
  case 0
  obtain pte s1 T1 F1 where w: "walk_create pt a s = Ok (pte, s1)" "pt_map s1 pt L T1 F1"
      "pt_step s T F s1 T1 F1" "pte = 0 \<Longrightarrow> F1 = {}" "pte \<noteq> 0 \<Longrightarrow> load64 (mem s1) pte = L a"
      "\<And>v. pte \<noteq> 0 \<Longrightarrow> pt_map (s1\<lparr>mem := store64 (mem s1) pte v\<rparr>) pt (set_pte L a v) T1 F1"
      "pte \<noteq> 0 \<Longrightarrow> \<exists>r \<in> T1. pte = r + 8 * PX 0 a"
    using walk_create_map[OF 0(1), of a] by blast
  show ?case
  proof (cases "pte = 0")
    case True
    then have "map_loop pt a last_a pa perm s = Some (Ok (- 1, s1))"
      using w(1) by (simp add: map_loop.simps)
    then show ?thesis using w(2,3,4) True
      by (intro exI[of _ "- 1"] exI[of _ s1] exI[of _ L] exI[of _ T1] exI[of _ F1]) auto
  next
    case False
    let ?v = "PA2PTE pa OR perm OR PTE_V"
    have "map_loop pt a last_a pa perm s = Some (Ok (0, s1\<lparr>mem := store64 (mem s1) pte ?v\<rparr>))"
      using w(1,5) False 0(3,4) by (subst map_loop.simps) simp
    moreover have "set_pte L a ?v = map_range L (vpn a) (Suc 0) pa perm"
      using map_range_Suc[of L a pa perm 0] by simp
    ultimately show ?thesis using w(6)[OF False, of ?v] pt_step_store[OF w(2,3) w(7)[OF False], of ?v]
      by (intro exI[of _ 0] exI[of _ "s1\<lparr>mem := store64 (mem s1) pte ?v\<rparr>"] exI[of _ "set_pte L a ?v"]
          exI[of _ T1] exI[of _ F1]) simp
  qed
qed

text \<open>A freshly created page table maps nothing.\<close>

lemma create_pagetable_some:
  assumes "kmem_pages s F" "F \<noteq> {}"
  shows "\<exists>pt s'. create_pagetable s = Ok (pt, s') \<and> pt \<in> F \<and> pt_map s' pt (\<lambda>_. 0) {pt} (F - {pt})
    \<and> kmem_step s s' \<and> (\<forall>a. \<not> in_region pt 4096 a \<longrightarrow> mem s' a = mem s a)"
proof -
  obtain p s1 where p: "alloc_page s = Ok (p, s1)" "p \<in> F" "kmem_pages s1 (F - {p})" "kmem_step s s1"
      "\<And>a. \<not> in_region p 4096 a \<Longrightarrow> mem s1 a = mem s a"
    using kmem.alloc_some[OF assms] by blast
  have vp: "valid_page s p" "p \<noteq> 0" using kmem_pages_valid[OF assms(1) p(2)] by auto
  let ?s = "s1\<lparr>mem := memset (mem s1) p 0 (ucast PAGESIZE)\<rparr>"
  have zero: "entry (mem ?s) p i = 0" if "unat i < 512" for i
    using that vp(1) by (simp add: entry_zeroed valid_page_def)
  have "pt_rep (mem ?s) p Map.empty Map.empty"
    using zero by (auto simp: pt_rep_def link_new)
  moreover have "kmem_pages ?s (F - {p})"
    using kmem_pages_memset[OF p(3)] vp(1) by (auto simp: valid_page_def)
  moreover have "valid_page ?s p" using vp(1) kmem_stepD(2)[OF p(4)] by (simp add: valid_page_def)
  ultimately have "vm_rep ?s p Map.empty Map.empty (F - {p})" by (simp add: vm_rep_def pt_pages_def)
  moreover have "leaf (mem ?s) Map.empty = (\<lambda>_. 0)" by (simp add: leaf_def fun_eq_iff)
  ultimately have "pt_map ?s p (\<lambda>_. 0) {p} (F - {p})"
    unfolding pt_map_def by (intro exI[of _ Map.empty]) (simp add: pt_pages_def)
  moreover have "create_pagetable s = Ok (p, ?s)" using p(1) vp(2) by (simp add: create_pagetable_def)
  moreover have "kmem_step s ?s" using p(4) unfolding kmem_step_def by (cases s, cases s1) auto
  ultimately show ?thesis using p(2,5) by (intro exI[of _ p] exI[of _ ?s]) (simp add: memset_page)
qed

lemma page_aligned_size:
  assumes "page_aligned sz" "0 < sz"
  obtains n where "unat sz = 4096 * Suc n" "\<And>va. va + sz - PAGESIZE = va + of_nat n * PAGESIZE"
proof -
  obtain k where k: "unat sz = 4096 * k" using page_aligned_unatE[OF assms(1)] by blast
  have "0 < unat sz" using assms(2) by (simp add: word_less_nat_alt)
  then obtain n where n: "k = Suc n" using k by (cases k) auto
  have "sz = of_nat (unat sz)" by simp
  also have "\<dots> = of_nat n * PAGESIZE + PAGESIZE" unfolding k n by (simp add: PAGESIZE_def algebra_simps)
  finally have sz: "sz = of_nat n * PAGESIZE + PAGESIZE" .
  have "va + sz - PAGESIZE = va + of_nat n * PAGESIZE" for va by (subst sz) simp
  then show ?thesis using that k n by blast
qed

lemma map_page_spec:
  assumes "pt_map s pt L T F" "page_aligned va" "page_aligned sz" "0 < sz" "unat va + unat sz \<le> 2 ^ 39"
    "\<forall>va'. vpn va \<le> vpn va' \<and> vpn va' < vpn va + unat sz div 4096 \<longrightarrow> L va' AND PTE_V = 0"
  shows "\<exists>r s' L' T' F'. map_page pt va pa sz perm s = Ok (r, s') \<and> pt_map s' pt L' T' F'
    \<and> pt_step s T F s' T' F'
    \<and> (if r = 0 then L' = map_range L (vpn va) (unat sz div 4096) pa (scast perm)
       else r = - 1 \<and> F' = {} \<and> (\<exists>k < unat sz div 4096. L' = map_range L (vpn va) k pa (scast perm)))"
proof -
  obtain n where n: "unat sz = 4096 * Suc n" "va + sz - PAGESIZE = va + of_nat n * PAGESIZE"
    using page_aligned_size[OF assms(3,4)] by metis
  have d: "unat sz div 4096 = Suc n" using n(1) by simp
  have "unat va + 4096 * n < 2 ^ 39" using assms(5) n(1) by simp
  moreover have "\<forall>va'. vpn va \<le> vpn va' \<and> vpn va' \<le> vpn va + n \<longrightarrow> L va' AND PTE_V = 0"
    using assms(6) d by auto
  ultimately obtain r s' L' T' F' where
      m: "map_loop pt va (va + sz - PAGESIZE) pa (scast perm) s = Some (Ok (r, s'))"
        "pt_map s' pt L' T' F'" "pt_step s T F s' T' F'"
        "if r = 0 then L' = map_range L (vpn va) (Suc n) pa (scast perm)
         else r = - 1 \<and> F' = {} \<and> (\<exists>k \<le> n. L' = map_range L (vpn va) k pa (scast perm))"
    using map_loop_spec[OF assms(1) _ n(2)] by blast
  have "map_page pt va pa sz perm s = Ok (r, s')"
    using assms(2-4) m(1) by (simp add: map_page_def page_aligned_def run_loop_def)
  then show ?thesis using m(2,3,4) d
    by (intro exI[of _ r] exI[of _ s'] exI[of _ L'] exI[of _ T'] exI[of _ F']) (auto simp: less_Suc_eq_le)
qed

lemma map_page_unaligned:
  "\<not> page_aligned va \<Longrightarrow> map_page pt va pa sz perm s = Panic ''map_page: va not aligned''"
  by (simp add: map_page_def page_aligned_def)

text \<open>
  C9. Mapping. map_page() on a page-aligned range of unmapped pages below 2^39 either
  returns 0 and then maps exactly the pages of the range, page k to frame pa + 4096 k with
  the given permission bits and PTE_V, or returns -1 with physical memory exhausted and a
  prefix of the range mapped. In both cases the entries of all other addresses and the
  memory outside the table and the free pages are unchanged.
\<close>

theorem map_page_maps_range:
  assumes "pt_map s pt L T F" "page_aligned va" "page_aligned sz" "0 < sz" "unat va + unat sz \<le> 2 ^ 39"
    "\<forall>va'. vpn va \<le> vpn va' \<and> vpn va' < vpn va + unat sz div 4096 \<longrightarrow> L va' AND PTE_V = 0"
  shows "\<exists>r s' L' T' F' k. map_page pt va pa sz perm s = Ok (r, s') \<and> pt_map s' pt L' T' F'
    \<and> (r = 0 \<and> k = unat sz div 4096 \<or> r = - 1 \<and> k < unat sz div 4096 \<and> F' = {})
    \<and> (\<forall>va'. L' va' = (if vpn va \<le> vpn va' \<and> vpn va' < vpn va + k
          then PA2PTE (pa + of_nat (vpn va' - vpn va) * PAGESIZE) OR scast perm OR PTE_V else L va'))
    \<and> (\<forall>a. (\<forall>q \<in> T \<union> F. \<not> in_region q 4096 a) \<longrightarrow> mem s' a = mem s a)"
proof -
  obtain r s' L' T' F' where m: "map_page pt va pa sz perm s = Ok (r, s')" "pt_map s' pt L' T' F'"
      "pt_step s T F s' T' F'"
      "if r = 0 then L' = map_range L (vpn va) (unat sz div 4096) pa (scast perm)
       else r = - 1 \<and> F' = {} \<and> (\<exists>k < unat sz div 4096. L' = map_range L (vpn va) k pa (scast perm))"
    using map_page_spec[OF assms] by blast
  obtain k where k: "r = 0 \<and> k = unat sz div 4096 \<or> r = - 1 \<and> k < unat sz div 4096 \<and> F' = {}"
      "L' = map_range L (vpn va) k pa (scast perm)"
    using m(4) by (cases "r = 0") auto
  then show ?thesis using m(1,2,3)
    by (intro exI[of _ r] exI[of _ s'] exI[of _ L'] exI[of _ T'] exI[of _ F'] exI[of _ k])
      (simp add: map_range_def pt_step_def)
qed

theorem map_page_maps_range_witness:
  "\<exists>r s' L' T' F' k. map_page 0x80040000 0x5000 0x80050000 0x2000 6 three_pages = Ok (r, s')
    \<and> pt_map s' 0x80040000 L' T' F'
    \<and> (r = 0 \<and> k = unat (0x2000 :: u64) div 4096 \<or> r = - 1 \<and> k < unat (0x2000 :: u64) div 4096 \<and> F' = {})
    \<and> (\<forall>va'. L' va' = (if vpn 0x5000 \<le> vpn va' \<and> vpn va' < vpn 0x5000 + k
          then PA2PTE (0x80050000 + of_nat (vpn va' - vpn 0x5000) * PAGESIZE) OR scast (6 :: 32 word) OR PTE_V else 0))
    \<and> (\<forall>a. (\<forall>q \<in> {0x80040000} \<union> {0x80031000, 0x80032000, 0x80030000}. \<not> in_region q 4096 a) \<longrightarrow>
          mem s' a = mem three_pages a)"
  by (rule map_page_maps_range[OF three_pages_table]) (simp_all add: page_aligned_def PAGESIZE_def)

section \<open>unmap\_page\<close>

text \<open>A page table only depends on the memory of its tables.\<close>

lemma pt_map_frame:
  assumes "pt_map s pt L T F" "kmem_pages s' F'" "T \<inter> F' = {}" "ld_end s' = ld_end s"
    "\<And>a q. q \<in> T \<Longrightarrow> in_region q 4096 a \<Longrightarrow> mem s' a = mem s a"
  shows "pt_map s' pt L T F'" "walk_lookup (mem s') pt va = walk_lookup (mem s) pt va"
proof -
  obtain M1 M0 where rep: "vm_rep s pt M1 M0 F" "L = leaf (mem s) M0" "T = pt_pages pt M1 M0"
    using assms(1) by (auto simp: pt_map_def)
  note v = vm_rep_valid[OF rep(1)]
  have pr: "pt_rep (mem s) pt M1 M0" using rep(1) by (simp add: vm_rep_def)
  have ent: "entry (mem s') q i = entry (mem s) q i" if "q \<in> T" "unat i < 512" for q i
    using assms(5)[OF that(1)] that pt_map_pages(4)[OF assms(1) that(1)]
    by (intro entry_cong) (auto simp: valid_page_def)
  have inT: "pt \<in> T" "M1 i = Some q \<Longrightarrow> q \<in> T" "M0 k = Some r \<Longrightarrow> r \<in> T" for i q k r
    using rep(3) by (auto simp: pt_pages_def intro: ranI)
  have "link (mem s') pt j (M1 j)" if "unat j < 512" for j
    using link_cong[OF ent[OF inT(1) that]] pt_repD(1)[OF pr that] by simp
  moreover have "link (mem s') q j (M0 (i, j))" if "M1 i = Some q" "unat j < 512" for i q j
    using link_cong[OF ent[OF inT(2)[OF that(1)] that(2)]] pt_repD(2)[OF pr that] by simp
  ultimately have "pt_rep (mem s') pt M1 M0" using pr unfolding pt_rep_def by blast
  moreover have "valid_page s' q = valid_page s q" for q using assms(4) by (simp add: valid_page_def)
  ultimately have rep': "vm_rep s' pt M1 M0 F'"
    using rep(1,3) assms(2,3) by (auto simp: vm_rep_def)
  have "leaf (mem s') M0 vb = leaf (mem s) M0 vb" for vb
    using ent[OF inT(3) PX_less[of 0 vb]] by (auto simp: leaf_def split: option.splits)
  then have "L = leaf (mem s') M0" using rep(2) by (simp add: fun_eq_iff)
  with rep' rep(3) show "pt_map s' pt L T F'" by (auto simp: pt_map_def)
  show "walk_lookup (mem s') pt va = walk_lookup (mem s) pt va"
    using walk_lookup_vm_rep[OF rep'] walk_lookup_vm_rep[OF rep(1)] by simp
qed

lemma pt_map_set_pte:
  assumes "pt_map s pt L T F" "walk_lookup (mem s) pt va = pte" "pte \<noteq> 0"
  shows "pt_map (s\<lparr>mem := store64 (mem s) pte v\<rparr>) pt (set_pte L va v) T F"
    and "\<exists>r \<in> T. pte = r + 8 * PX 0 va"
proof -
  obtain M1 M0 where rep: "vm_rep s pt M1 M0 F" "L = leaf (mem s) M0" "T = pt_pages pt M1 M0"
    using assms(1) by (auto simp: pt_map_def)
  obtain r where r: "M0 (PX 2 va, PX 1 va) = Some r" "pte = r + 8 * PX 0 va"
    using walk_lookup_vm_rep[OF rep(1), of va] assms(2,3) by (auto split: option.splits)
  then show "\<exists>r \<in> T. pte = r + 8 * PX 0 va" using rep(3) by (auto simp: pt_pages_def intro: ranI)
  show "pt_map (s\<lparr>mem := store64 (mem s) pte v\<rparr>) pt (set_pte L va v) T F"
    using vm_rep_set_pte(1,2)[OF rep(1) r(1), of v] r(2) rep(2,3) unfolding pt_map_def by metis
qed

text \<open>The walk to an address with a valid entry changes nothing.\<close>

lemma walk_create_present:
  assumes "pt_map s pt L T F" "L va AND PTE_V \<noteq> 0"
  shows "walk_create pt va s = Ok (walk_lookup (mem s) pt va, s)" "walk_lookup (mem s) pt va \<noteq> 0"
    "load64 (mem s) (walk_lookup (mem s) pt va) = L va"
proof -
  obtain M1 M0 where rep: "vm_rep s pt M1 M0 F" "L = leaf (mem s) M0" using assms(1) by (auto simp: pt_map_def)
  note v = vm_rep_valid[OF rep(1)]
  have pr: "pt_rep (mem s) pt M1 M0" using rep(1) by (simp add: vm_rep_def)
  obtain r where r: "M0 (PX 2 va, PX 1 va) = Some r"
    using assms(2) rep(2) by (cases "M0 (PX 2 va, PX 1 va)") (auto simp: leaf_def)
  obtain q where q: "M1 (PX 2 va) = Some q" using pt_repD(3)[OF pr, of "PX 2 va" "PX 1 va"] r by fastforce
  note lk1 = link_walk[OF pt_repD(1)[OF pr PX_less[of 2 va]]]
  note lk0 = link_walk[OF pt_repD(2)[OF pr q PX_less[of 1 va]]]
  have "PTE2PA (entry (mem s) pt (PX 2 va)) = q" using lk1(2)[OF q, of s] v(4)[OF q] by simp
  moreover have "PTE2PA (entry (mem s) q (PX 1 va)) = r" using lk0(2)[OF r, of s] v(5)[OF r] by simp
  moreover have "entry (mem s) pt (PX 2 va) AND PTE_V \<noteq> 0" using lk1(1) q by simp
  moreover have "entry (mem s) q (PX 1 va) AND PTE_V \<noteq> 0" using lk0(1) r by simp
  ultimately have "walk_create pt va s = Ok (r + 8 * PX 0 va, s)"
    by (simp add: walk_create_def numeral_2_eq_2 walk_create_from_Suc)
  moreover have lookup: "walk_lookup (mem s) pt va = r + 8 * PX 0 va"
    using walk_lookup_vm_rep[OF rep(1), of va] r by simp
  ultimately show "walk_create pt va s = Ok (walk_lookup (mem s) pt va, s)" by simp
  show "walk_lookup (mem s) pt va \<noteq> 0"
    using walk_lookup_map(1)[OF assms(1), of va] assms(2) by auto
  then show "load64 (mem s) (walk_lookup (mem s) pt va) = L va" by (rule walk_lookup_map(2)[OF assms(1)])
qed

definition unmap_range :: "(u64 \<Rightarrow> u64) \<Rightarrow> nat \<Rightarrow> nat \<Rightarrow> u64 \<Rightarrow> u64" where
  "unmap_range L v n = (\<lambda>va. if v \<le> vpn va \<and> vpn va < v + n \<and> L va AND PTE_V \<noteq> 0 then 0 else L va)"

text \<open>The frames the valid entries of a range of pages point to.\<close>

definition range_frames :: "(u64 \<Rightarrow> u64) \<Rightarrow> u64 \<Rightarrow> nat \<Rightarrow> u64 list" where
  "range_frames L a n = map PTE2PA (filter (\<lambda>e. e AND PTE_V \<noteq> 0)
     (map (\<lambda>k. L (a + of_nat k * PAGESIZE)) [0..<n]))"

lemma range_frames_0 [simp]: "range_frames L a 0 = []"
  by (simp add: range_frames_def)

lemma range_frames_Suc:
  "range_frames L a (Suc n) =
     (if L a AND PTE_V \<noteq> 0 then [PTE2PA (L a)] else []) @ range_frames L (a + PAGESIZE) n"
proof -
  have "[0..<Suc n] = 0 # map Suc [0..<n]" by (simp add: map_Suc_upt upt_conv_Cons del: upt_Suc)
  then have "map (\<lambda>k. L (a + of_nat k * PAGESIZE)) [0..<Suc n] =
      L a # map (\<lambda>k. L (a + PAGESIZE + of_nat k * PAGESIZE)) [0..<n]"
    by (simp only: list.map map_map) (simp add: algebra_simps)
  then show ?thesis by (simp add: range_frames_def del: upt_Suc)
qed

lemma pt_map_vpn: "pt_map s pt L T F \<Longrightarrow> vpn va = vpn vb \<Longrightarrow> L va = L vb"
  by (auto simp: pt_map_def leaf_def vpn_eq_iff split: option.split)

lemma unat_page_add:
  assumes "unat a + 4096 * k < 2 ^ 64"
  shows "unat (a + of_nat k * PAGESIZE) = unat a + 4096 * k"
proof -
  have "of_nat k * PAGESIZE = (of_nat (4096 * k) :: u64)" by (simp add: PAGESIZE_def)
  moreover have "unat (of_nat (4096 * k) :: u64) = 4096 * k" using assms by (intro unat_of_nat_u64) simp
  ultimately show ?thesis using assms unat_add_u64[of a "of_nat (4096 * k)"] by simp
qed

lemma vpn_add:
  assumes "unat a + 4096 * k < 2 ^ 39"
  shows "vpn (a + of_nat k * PAGESIZE) = vpn a + k"
  using assms
proof (induction k)
  case (Suc k)
  have "a + of_nat (Suc k) * PAGESIZE = a + of_nat k * PAGESIZE + PAGESIZE" by (simp add: algebra_simps)
  moreover have "vpn (a + of_nat k * PAGESIZE + PAGESIZE) = Suc (vpn (a + of_nat k * PAGESIZE))"
    using Suc.prems by (intro vpn_next) (simp add: unat_page_add)
  moreover have "vpn (a + of_nat k * PAGESIZE) = vpn a + k" using Suc by simp
  ultimately show ?case by (simp only: add_Suc_right)
qed simp

lemma range_frames_cong:
  assumes "\<And>k. k < n \<Longrightarrow> L' (a + of_nat k * PAGESIZE) = L (a + of_nat k * PAGESIZE)"
  shows "range_frames L' a n = range_frames L a n"
proof -
  have "map (\<lambda>k. L' (a + of_nat k * PAGESIZE)) [0..<n] = map (\<lambda>k. L (a + of_nat k * PAGESIZE)) [0..<n]"
    using assms by simp
  then show ?thesis by (simp only: range_frames_def)
qed

lemma page_add_Suc: "a + PAGESIZE + of_nat k * PAGESIZE = a + of_nat (Suc k) * PAGESIZE"
  by (simp add: algebra_simps)

lemma set_pte_next:
  assumes "unat a + 4096 * Suc n \<le> 2 ^ 39" "k < n"
  shows "set_pte L a v (a + PAGESIZE + of_nat k * PAGESIZE) = L (a + PAGESIZE + of_nat k * PAGESIZE)"
proof -
  have "vpn (a + of_nat (Suc k) * PAGESIZE) = vpn a + Suc k" using assms by (intro vpn_add) simp
  then show ?thesis by (simp add: set_pte_def page_add_Suc del: of_nat_Suc)
qed

lemma unmap_range_0 [simp]: "unmap_range L v 0 = L"
  by (auto simp: unmap_range_def fun_eq_iff)

lemma unmap_range_Suc:
  assumes "\<And>va. vpn va = vpn a \<Longrightarrow> L va = L a"
  shows "unmap_range (if L a AND PTE_V \<noteq> 0 then set_pte L a 0 else L) (Suc (vpn a)) n =
    unmap_range L (vpn a) (Suc n)"
proof
  fix va
  show "unmap_range (if L a AND PTE_V \<noteq> 0 then set_pte L a 0 else L) (Suc (vpn a)) n va =
    unmap_range L (vpn a) (Suc n) va"
    using assms[of va] by (cases "vpn va = vpn a") (auto simp: unmap_range_def set_pte_def)
qed

definition unmap_step :: "'z kalloc_state_scheme \<Rightarrow> u64 set \<Rightarrow> u64 set \<Rightarrow> u64 set \<Rightarrow>
    'z kalloc_state_scheme \<Rightarrow> u64 set \<Rightarrow> u64 set \<Rightarrow> bool" where
  "unmap_step s T F D s' T' F' \<longleftrightarrow> kmem_reach s s' \<and> T \<subseteq> T' \<and> T' \<union> F' = T \<union> F \<union> D
     \<and> (\<forall>a. (\<forall>q \<in> T \<union> F \<union> D. \<not> in_region q 4096 a) \<longrightarrow> mem s' a = mem s a)"

lemma unmap_step_trans:
  assumes "kmem_pages s F" "unmap_step s T F D1 s1 T1 F1" "unmap_step s1 T1 F1 D2 s2 T2 F2"
  shows "unmap_step s T F (D1 \<union> D2) s2 T2 F2"
proof -
  have "T1 \<union> F1 = T \<union> F \<union> D1" using assms(2) by (simp add: unmap_step_def)
  then have u: "T1 \<union> F1 \<union> D2 = T \<union> F \<union> (D1 \<union> D2)" by blast
  have "\<forall>q \<in> T \<union> F \<union> D1. \<not> in_region q 4096 a" if "\<forall>q \<in> T \<union> F \<union> (D1 \<union> D2). \<not> in_region q 4096 a" for a
    using that by blast
  then show ?thesis
    using assms(2,3) kmem_reach_trans[OF kmem_pages_cpu[OF assms(1)], of s1 s2]
    unfolding unmap_step_def u by auto
qed

lemma pt_step_unmap: "pt_step s T F s' T' F' \<Longrightarrow> unmap_step s T F {} s' T' F'"
  by (auto simp: pt_step_def unmap_step_def)

text \<open>Clearing one valid entry, with or without freeing the frame.\<close>

lemma unmap_one:
  assumes pm: "pt_map s pt L T F" and valid: "L a AND PTE_V \<noteq> 0" and p: "p = PTE2PA (L a)"
    and free: "do_free \<Longrightarrow> valid_page s p \<and> p \<notin> T \<union> F"
  shows "\<exists>s1. (if do_free then free_page p s else Ok s) = Ok s1
    \<and> pt_map (s1\<lparr>mem := store64 (mem s1) (walk_lookup (mem s) pt a) 0\<rparr>) pt (set_pte L a 0) T
        (if do_free then insert p F else F)
    \<and> unmap_step s T F (if do_free then {p} else {})
        (s1\<lparr>mem := store64 (mem s1) (walk_lookup (mem s) pt a) 0\<rparr>) T (if do_free then insert p F else F)"
proof -
  note pages = pt_map_pages[OF pm]
  note pres = walk_create_present[OF pm valid]
  have store: "store64 m (walk_lookup (mem s) pt a) v x = m x"
    if "\<forall>q \<in> T. \<not> in_region q 4096 x" for m v x
  proof -
    obtain r where "r \<in> T" "walk_lookup (mem s) pt a = r + 8 * PX 0 a"
      using pt_map_set_pte(2)[OF pm refl pres(2)] by blast
    then show ?thesis using that pages(4) PX_less[of 0 a]
      by (auto simp: valid_page_def intro!: store64_slot_frame)
  qed
  show ?thesis
  proof (cases do_free)
    case True
    then have vp: "valid_page s p" "p \<notin> F" "p \<notin> T" using free by auto
    obtain s1 where s1: "free_page p s = Ok s1" "kmem_pages s1 (insert p F)" "kmem_step s s1"
        "\<And>x. \<forall>q \<in> insert p F. \<not> in_region q 4096 x \<Longrightarrow> mem s1 x = mem s x"
      using kmem.free_ok[OF pages(1) vp(1,2)] by blast
    have tmem: "mem s1 x = mem s x" if "q \<in> T" "in_region q 4096 x" for q x
    proof (rule s1(4), rule ballI)
      fix q' assume "q' \<in> insert p F"
      then have "q' \<noteq> q" "page_aligned q'" using that vp pages(1,3) kmem_pages_valid[OF pages(1)]
        by (auto simp: valid_page_def)
      then show "\<not> in_region q' 4096 x"
        using in_region_pages_disjoint[of q q' x] that pages(4)[OF that(1)] by (auto simp: valid_page_def)
    qed
    have "T \<inter> insert p F = {}" using pages(3) vp(3) by auto
    from pt_map_frame[OF pm s1(2) this kmem_stepD(2)[OF s1(3)] tmem]
    have fr: "pt_map s1 pt L T (insert p F)" "walk_lookup (mem s1) pt a = walk_lookup (mem s) pt a" by auto
    have "pt_map (s1\<lparr>mem := store64 (mem s1) (walk_lookup (mem s) pt a) 0\<rparr>) pt (set_pte L a 0) T (insert p F)"
      using pt_map_set_pte(1)[OF fr pres(2)] .
    moreover have "unmap_step s T F {p} (s1\<lparr>mem := store64 (mem s1) (walk_lookup (mem s) pt a) 0\<rparr>) T (insert p F)"
      using s1(4) store kmem_reach_mem[OF kmem_reach_step[OF s1(3)]] by (auto simp: unmap_step_def)
    ultimately show ?thesis using True s1(1) by auto
  next
    case False
    have "unmap_step s T F {} (s\<lparr>mem := store64 (mem s) (walk_lookup (mem s) pt a) 0\<rparr>) T F"
      using store kmem_reach_mem[OF kmem_reach_refl] by (auto simp: unmap_step_def)
    then show ?thesis using False pt_map_set_pte(1)[OF pm refl pres(2)] by auto
  qed
qed

lemma unmap_loop_spec:
  assumes "pt_map s pt L T F" "unat a + 4096 * n \<le> 2 ^ 39" "bound = a + of_nat n * PAGESIZE"
    "\<And>k. k < n \<Longrightarrow> L (a + of_nat k * PAGESIZE) AND PTE_V \<noteq> 0 \<Longrightarrow>
       PTE_FLAGS (L (a + of_nat k * PAGESIZE)) \<noteq> PTE_V"
    "do_free \<Longrightarrow> distinct (range_frames L a n)
       \<and> (\<forall>p \<in> set (range_frames L a n). valid_page s p \<and> p \<notin> T \<union> F)"
  shows "\<exists>s' T' F'. unmap_loop pt a bound do_free s = Some (Ok s')
    \<and> pt_map s' pt (unmap_range L (vpn a) n) T' F'
    \<and> unmap_step s T F (if do_free then set (range_frames L a n) else {}) s' T' F'"
  using assms
proof (induction n arbitrary: a s L T F)
  case 0
  then have "unmap_loop pt a bound do_free s = Some (Ok s)" by (subst unmap_loop.simps) simp
  then show ?case using 0 pt_step_unmap[OF pt_step_refl, of s T F]
    by (intro exI[of _ s] exI[of _ T] exI[of _ F]) simp
next
  case (Suc n)
  have ub: "unat bound = unat a + 4096 * Suc n" using Suc.prems(2,3) by (simp add: unat_page_add del: of_nat_Suc)
  then have less: "a < bound" by (simp add: word_less_nat_alt)
  have ua: "unat (a + PAGESIZE) = unat a + 4096" using Suc.prems(2) unat_add_u64[of a PAGESIZE] by simp
  have b': "unat (a + PAGESIZE) + 4096 * n \<le> 2 ^ 39" using ua Suc.prems(2) by simp
  have bd: "bound = a + PAGESIZE + of_nat n * PAGESIZE" using Suc.prems(3) by (simp add: algebra_simps)
  have vn: "unmap_range L' (vpn (a + PAGESIZE)) n = unmap_range L' (Suc (vpn a)) n" for L'
  proof (cases n)
    case (Suc m)
    then show ?thesis using vpn_next[of a] ua Suc.prems(2) by simp
  qed simp
  note urs = unmap_range_Suc[of a L n, OF pt_map_vpn[OF Suc.prems(1)]]
  show ?case
  proof (cases "L a AND PTE_V = 0")
    case True
    obtain pte s1 T1 F1 where w: "walk_create pt a s = Ok (pte, s1)" "pt_map s1 pt L T1 F1"
        "pt_step s T F s1 T1 F1" "pte \<noteq> 0 \<longrightarrow> load64 (mem s1) pte = L a"
      using walk_create_map[OF Suc.prems(1), of a] by blast
    have TF: "T1 \<union> F1 = T \<union> F" and reach: "kmem_reach s s1" using w(3) by (auto simp: pt_step_def)
    have loop: "unmap_loop pt a bound do_free s = unmap_loop pt (a + PAGESIZE) bound do_free s1"
      using less w(1,4) True by (subst unmap_loop.simps) auto
    have fr: "range_frames L a (Suc n) = range_frames L (a + PAGESIZE) n" using True by (simp add: range_frames_Suc)
    obtain s' T' F' where IH: "unmap_loop pt (a + PAGESIZE) bound do_free s1 = Some (Ok s')"
        "pt_map s' pt (unmap_range L (vpn (a + PAGESIZE)) n) T' F'"
        "unmap_step s1 T1 F1 (if do_free then set (range_frames L (a + PAGESIZE) n) else {}) s' T' F'"
      using Suc.IH[OF w(2) b' bd] Suc.prems(4)[of "Suc _"] Suc.prems(5) fr TF kmem_reachD(8)[OF reach]
      by (auto simp: page_add_Suc simp del: of_nat_Suc)
    have "unmap_step s T F (if do_free then set (range_frames L a (Suc n)) else {}) s' T' F'"
      using unmap_step_trans[OF pt_map_pages(1)[OF Suc.prems(1)] pt_step_unmap[OF w(3)] IH(3)] fr
      by (cases do_free) simp_all
    then show ?thesis using IH(1,2) loop urs True vn
      by (intro exI[of _ s'] exI[of _ T'] exI[of _ F']) simp
  next
    case False
    let ?p = "PTE2PA (L a)" and ?L = "set_pte L a 0"
    have fr: "range_frames L a (Suc n) = ?p # range_frames L (a + PAGESIZE) n" using False by (simp add: range_frames_Suc)
    have fr': "range_frames ?L (a + PAGESIZE) n = range_frames L (a + PAGESIZE) n"
      using set_pte_next[OF Suc.prems(2)] by (intro range_frames_cong)
    note pres = walk_create_present[OF Suc.prems(1) False]
    obtain s1 where s1: "(if do_free then free_page ?p s else Ok s) = Ok s1"
        "pt_map (s1\<lparr>mem := store64 (mem s1) (walk_lookup (mem s) pt a) 0\<rparr>) pt ?L T
           (if do_free then insert ?p F else F)"
        "unmap_step s T F (if do_free then {?p} else {})
           (s1\<lparr>mem := store64 (mem s1) (walk_lookup (mem s) pt a) 0\<rparr>) T (if do_free then insert ?p F else F)"
      using unmap_one[OF Suc.prems(1) False refl, of do_free] Suc.prems(5) fr by auto
    let ?s2 = "s1\<lparr>mem := store64 (mem s1) (walk_lookup (mem s) pt a) 0\<rparr>"
    have loop: "unmap_loop pt a bound do_free s = unmap_loop pt (a + PAGESIZE) bound do_free ?s2"
      using less pres False s1(1) Suc.prems(4)[of 0] by (subst unmap_loop.simps) auto
    have reach: "kmem_reach s ?s2" using s1(3) by (simp add: unmap_step_def)
    have flags: "PTE_FLAGS (?L (a + PAGESIZE + of_nat k * PAGESIZE)) \<noteq> PTE_V"
      if "k < n" "?L (a + PAGESIZE + of_nat k * PAGESIZE) AND PTE_V \<noteq> 0" for k
      using that Suc.prems(4)[of "Suc k"] set_pte_next[OF Suc.prems(2) that(1), of L 0] by (simp add: algebra_simps)
    have fresh: "distinct (range_frames ?L (a + PAGESIZE) n)
        \<and> (\<forall>q \<in> set (range_frames ?L (a + PAGESIZE) n). valid_page ?s2 q \<and> q \<notin> T \<union> (if do_free then insert ?p F else F))"
      if do_free
      using Suc.prems(5)[OF that] that unfolding fr fr' kmem_reachD(8)[OF reach] by auto
    obtain s' T' F' where IH: "unmap_loop pt (a + PAGESIZE) bound do_free ?s2 = Some (Ok s')"
        "pt_map s' pt (unmap_range ?L (vpn (a + PAGESIZE)) n) T' F'"
        "unmap_step ?s2 T (if do_free then insert ?p F else F)
           (if do_free then set (range_frames ?L (a + PAGESIZE) n) else {}) s' T' F'"
      using Suc.IH[OF s1(2) b' bd flags fresh] by blast
    have "unmap_step s T F (if do_free then set (range_frames L a (Suc n)) else {}) s' T' F'"
      using unmap_step_trans[OF pt_map_pages(1)[OF Suc.prems(1)] s1(3) IH(3)] unfolding fr fr'
      by (cases do_free) auto
    then show ?thesis using IH(1,2) loop urs False vn
      by (intro exI[of _ s'] exI[of _ T'] exI[of _ F']) simp
  qed
qed

lemma unmap_page_spec:
  assumes "pt_map s pt L T F" "page_aligned va" "unat va + 4096 * unat npages \<le> 2 ^ 39"
    "\<And>k. k < unat npages \<Longrightarrow> L (va + of_nat k * PAGESIZE) AND PTE_V \<noteq> 0 \<Longrightarrow>
       PTE_FLAGS (L (va + of_nat k * PAGESIZE)) \<noteq> PTE_V"
    "do_free \<Longrightarrow> distinct (range_frames L va (unat npages))
       \<and> (\<forall>p \<in> set (range_frames L va (unat npages)). valid_page s p \<and> p \<notin> T \<union> F)"
  shows "\<exists>s' T' F'. unmap_page pt va npages do_free s = Ok s'
    \<and> pt_map s' pt (unmap_range L (vpn va) (unat npages)) T' F'
    \<and> unmap_step s T F (if do_free then set (range_frames L va (unat npages)) else {}) s' T' F'"
proof -
  have "va + npages * PAGESIZE = va + of_nat (unat npages) * PAGESIZE" by simp
  from unmap_loop_spec[OF assms(1,3) this assms(4,5)]
  obtain s' T' F' where "unmap_loop pt va (va + npages * PAGESIZE) do_free s = Some (Ok s')"
      "pt_map s' pt (unmap_range L (vpn va) (unat npages)) T' F'"
      "unmap_step s T F (if do_free then set (range_frames L va (unat npages)) else {}) s' T' F'"
    by blast
  then show ?thesis using assms(2)
    by (intro exI[of _ s'] exI[of _ T'] exI[of _ F']) (simp add: unmap_page_def page_aligned_def run_loop_def)
qed

text \<open>
  C13. Unmapping. unmap_page() on npages pages from a page-aligned address clears exactly the
  valid entries of the range and, when asked to, returns exactly the frames these entries
  named to the free pages (some of which the walk may take again for tables). It ends
  without a panic when every valid entry of the range is a leaf and, for do_free, the
  frames are distinct pages that are neither tables nor already free.
\<close>

theorem unmap_page_frees_range:
  assumes "pt_map s pt L T F" "page_aligned va" "unat va + 4096 * unat npages \<le> 2 ^ 39"
    "\<And>k. k < unat npages \<Longrightarrow> L (va + of_nat k * PAGESIZE) AND PTE_V \<noteq> 0 \<Longrightarrow>
       PTE_FLAGS (L (va + of_nat k * PAGESIZE)) \<noteq> PTE_V"
    "do_free \<Longrightarrow> distinct (range_frames L va (unat npages))
       \<and> (\<forall>p \<in> set (range_frames L va (unat npages)). valid_page s p \<and> p \<notin> T \<union> F)"
  shows "\<exists>s' T' F'. unmap_page pt va npages do_free s = Ok s'
    \<and> pt_map s' pt (unmap_range L (vpn va) (unat npages)) T' F'
    \<and> T \<subseteq> T' \<and> T' \<union> F' = T \<union> F \<union> (if do_free then set (range_frames L va (unat npages)) else {})"
  using unmap_page_spec[OF assms] unfolding unmap_step_def by blast

text \<open>A page table that maps the page at 0 to the frame 0x80043000 for the user.\<close>

definition one_user_page :: kalloc_state where
  "one_user_page = three_pages\<lparr>mem :=
     store64 (store64 (store64 (\<lambda>_. 0) 0x80040000 (PA2PTE 0x80041000 OR PTE_V))
       0x80041000 (PA2PTE 0x80042000 OR PTE_V)) 0x80042000 (PA2PTE 0x80043000 OR 0x17)\<rparr>"

definition one_user_map :: "u64 \<Rightarrow> u64" where
  "one_user_map va = (if vpn va = 0 then PA2PTE 0x80043000 OR 0x17 else 0)"

lemma one_user_page_table:
  "pt_map one_user_page 0x80040000 one_user_map {0x80040000, 0x80041000, 0x80042000}
     {0x80031000, 0x80032000, 0x80030000}"
proof -
  let ?m = "mem one_user_page"
  have al: "page_aligned 0x80040000" "page_aligned 0x80041000" "page_aligned 0x80042000"
    by (simp_all add: page_aligned_def PAGESIZE_def)
  have z: "entry (\<lambda>_. 0) p i = 0" for p i by (intro load64_zero) simp
  have e: "entry ?m p i = (if p = 0x80042000 \<and> i = 0 then PA2PTE 0x80043000 OR 0x17
      else if p = 0x80041000 \<and> i = 0 then PA2PTE 0x80042000 OR PTE_V
      else if p = 0x80040000 \<and> i = 0 then PA2PTE 0x80041000 OR PTE_V else 0)"
    if "page_aligned p" "unat i < 512" for p i
  proof -
    have m: "?m = store64 (store64 (store64 (\<lambda>_. 0) 0x80040000 (PA2PTE 0x80041000 OR PTE_V))
       0x80041000 (PA2PTE 0x80042000 OR PTE_V)) 0x80042000 (PA2PTE 0x80043000 OR 0x17)"
      by (simp add: one_user_page_def)
    have st: "entry (store64 m q v) p i = (if p = q \<and> i = 0 then v else entry m p i)" if "page_aligned q" for m q v
      using entry_store64[OF \<open>page_aligned p\<close> that \<open>unat i < 512\<close>, of 0 m v] by simp
    show ?thesis unfolding m st[OF al(1)] st[OF al(2)] st[OF al(3)] z ..
  qed
  define M1 :: tables1 where "M1 = [0 \<mapsto> 0x80041000]"
  define M0 :: tables0 where "M0 = [(0, 0) \<mapsto> 0x80042000]"
  have rep: "pt_rep ?m 0x80040000 M1 M0"
    using e[OF al(1), of 0] e[OF al(2), of 0] by (auto simp: pt_rep_def link_def M1_def M0_def e al inj_on_def)
  have "valid_page one_user_page q" if "q \<in> {0x80040000, 0x80041000, 0x80042000}" for q
    using that by (auto simp: one_user_page_def three_pages_def valid_page_def page_aligned_def PAGESIZE_def
        KERNBASE_def PHYSTOP_def)
  moreover have "kmem_pages one_user_page {0x80031000, 0x80032000, 0x80030000}"
  proof -
    let ?F = "{0x80031000, 0x80032000, 0x80030000}"
    have st: "kmem_pages (s\<lparr>mem := store64 (mem s) q v\<rparr>) ?F" if "kmem_pages s ?F" "page_aligned q" "q \<notin> ?F"
      for s :: kalloc_state and q v using kmem_pages_store[OF that, of 0] by simp
    show ?thesis
      using st[OF st[OF st[OF three_pages_rep al(1)] al(2)] al(3)]
      by (simp add: one_user_page_def three_pages_def)
  qed
  ultimately have "vm_rep one_user_page 0x80040000 M1 M0 {0x80031000, 0x80032000, 0x80030000}"
    using rep by (auto simp: vm_rep_def pt_pages_def M1_def M0_def)
  moreover have "leaf ?m M0 va = one_user_map va" for va
  proof -
    have "vpn va = 0 \<longleftrightarrow> vpn va = vpn 0" by (simp add: vpn_def)
    also have "\<dots> \<longleftrightarrow> PX 2 va = 0 \<and> PX 1 va = 0 \<and> PX 0 va = 0" by (simp only: vpn_eq_iff) (simp add: PX_def)
    finally show ?thesis using e[OF al(3), of 0] by (auto simp: leaf_def M0_def e al one_user_map_def unat_PX)
  qed
  then have "leaf ?m M0 = one_user_map" by (rule ext)
  ultimately show ?thesis unfolding pt_map_def
    by (intro exI[of _ M1] exI[of _ M0]) (auto simp: pt_pages_def M1_def M0_def)
qed

theorem unmap_page_frees_range_witness:
  "\<exists>s' T' F'. unmap_page 0x80040000 0 2 True one_user_page = Ok s'
    \<and> pt_map s' 0x80040000 (\<lambda>_. 0) T' F' \<and> 0x80043000 \<in> T' \<union> F'"
proof -
  have frames: "range_frames one_user_map 0 (unat (2 :: u64)) = [0x80043000]"
    by (simp add: range_frames_def one_user_map_def vpn_def upt_rec PTE_V_def PTE2PA_def PA2PTE_def PAGESIZE_def)
  have zero: "unmap_range one_user_map (vpn 0) (unat (2 :: u64)) = (\<lambda>_. 0)"
    by (auto simp: unmap_range_def one_user_map_def vpn_def fun_eq_iff PTE_V_def PA2PTE_def)
  have frame: "valid_page one_user_page 0x80043000"
    by (simp add: page_aligned_def PAGESIZE_def valid_page_def one_user_page_def three_pages_def
        KERNBASE_def PHYSTOP_def)
  have leaf: "PTE_FLAGS (one_user_map (of_nat k * PAGESIZE)) \<noteq> PTE_V"
    if "one_user_map (of_nat k * PAGESIZE) AND PTE_V \<noteq> 0" for k
    using that by (auto simp: one_user_map_def PTE_FLAGS_def PTE_V_def PA2PTE_def split: if_splits)
  have "\<exists>s' T' F'. unmap_page 0x80040000 0 2 True one_user_page = Ok s' \<and> pt_map s' 0x80040000
      (unmap_range one_user_map (vpn 0) (unat (2 :: u64))) T' F' \<and> {0x80040000, 0x80041000, 0x80042000} \<subseteq> T'
      \<and> T' \<union> F' = {0x80040000, 0x80041000, 0x80042000} \<union> {0x80031000, 0x80032000, 0x80030000}
        \<union> (if True then set (range_frames one_user_map 0 (unat (2 :: u64))) else {})"
    using frames leaf frame
    by (intro unmap_page_frees_range[OF one_user_page_table]) (simp_all add: page_aligned_def)
  then obtain s' T' F' where "unmap_page 0x80040000 0 2 True one_user_page = Ok s'"
      "pt_map s' 0x80040000 (\<lambda>_. 0) T' F'" "0x80043000 \<in> T' \<union> F'"
    unfolding zero frames by auto
  then show ?thesis by blast
qed

section \<open>Copies between kernel and user memory\<close>

definition user_pte :: "u64 \<Rightarrow> bool" where
  "user_pte e \<longleftrightarrow> e AND PTE_V \<noteq> 0 \<and> e AND PTE_U \<noteq> 0"

text \<open>The physical address of a user byte.\<close>

definition user_pa :: "(u64 \<Rightarrow> u64) \<Rightarrow> u64 \<Rightarrow> u64" where
  "user_pa L va = PTE2PA (L va) + (va - PAGEROUNDDOWN va)"

lemma vpn_PAGEROUNDDOWN [simp]: "vpn (PAGEROUNDDOWN va) = vpn va"
  by (simp add: vpn_def unat_PAGEROUNDDOWN)

lemma walkaddr_user:
  assumes "pt_map s pt L T F" "va < MAXVA" "user_pte (L va)"
  shows "walkaddr pt va s = Ok (PTE2PA (L va), s)"
  using walk_create_present[OF assms(1), of va] assms(2,3) by (auto simp: walkaddr_def user_pte_def)

lemma walkaddr_spec:
  assumes "pt_map s pt L T F"
  shows "\<exists>s' T' F'. walkaddr pt va s = Ok (if va < MAXVA \<and> user_pte (L va) then PTE2PA (L va) else 0, s')
    \<and> pt_map s' pt L T' F' \<and> pt_step s T F s' T' F'"
proof (cases "va < MAXVA")
  case True
  obtain pte s1 T1 F1 where w: "walk_create pt va s = Ok (pte, s1)" "pt_map s1 pt L T1 F1"
      "pt_step s T F s1 T1 F1" "pte = 0 \<longrightarrow> L va = 0" "pte \<noteq> 0 \<longrightarrow> load64 (mem s1) pte = L va"
    using walk_create_map[OF assms, of va] by blast
  then show ?thesis using True
    by (intro exI[of _ s1] exI[of _ T1] exI[of _ F1]) (auto simp: walkaddr_def user_pte_def)
next
  case False
  then show ?thesis using assms
    by (intro exI[of _ s] exI[of _ T] exI[of _ F]) (auto simp: walkaddr_def)
qed

end
