(* ===== verification/Usercopy.thy ===== *)
theory Usercopy
  imports Vm_Map
begin

text \<open>
  copyout, copyin and copyinstr of kernel/mm/vm.c: copies between kernel memory and the
  bytes of user pages, which need not be adjacent in physical memory. The theorems are
  byte by byte; \<open>user_range\<close> says that a range of virtual addresses is mapped for the user.
\<close>

section \<open>Mapped user ranges\<close>

definition user_range :: "(u64 \<Rightarrow> u64) \<Rightarrow> u64 set \<Rightarrow> u64 \<Rightarrow> nat \<Rightarrow> bool" where
  "user_range L R va n \<longleftrightarrow> unat va + n \<le> unat MAXVA
     \<and> (\<forall>i < n. user_pte (L (va + of_nat i)) \<and> PTE2PA (L (va + of_nat i)) \<noteq> 0
          \<and> user_pa L (va + of_nat i) \<noteq> - 1
          \<and> (\<forall>q \<in> R. \<not> in_region q 4096 (user_pa L (va + of_nat i))))
     \<and> (\<forall>i < n. \<forall>j < n. user_pa L (va + of_nat i) = user_pa L (va + of_nat j) \<longrightarrow> i = j)"

lemma unat_MAXVA: "unat MAXVA = 2 ^ 38"
  by (simp add: MAXVA_def)

lemma page_aligned_PTE2PA [simp]: "page_aligned (PTE2PA e)"
proof -
  have "take_bit 12 (push_bit 12 (drop_bit 10 e)) = (0 :: u64)"
    by (rule bit_word_eqI) (auto simp: bit_simps)
  then show ?thesis by (simp add: page_aligned_def PTE2PA_def PAGESIZE_def take_bit_eq_mod)
qed

lemma unat_add_small: "unat va + i \<le> 2 ^ 38 \<Longrightarrow> unat (va + of_nat i :: u64) = unat va + i"
  using unat_add_u64[of va "of_nat i"] unat_of_nat_u64[of i] by simp

lemma page_offset_add:
  fixes va :: u64
  assumes "unat va mod 4096 + i < 4096" "unat va + i \<le> 2 ^ 38"
  shows "PAGEROUNDDOWN (va + of_nat i) = PAGEROUNDDOWN va" "vpn (va + of_nat i) = vpn va"
proof -
  have "unat va + i = 4096 * (unat va div 4096) + (unat va mod 4096 + i)" by simp
  then have "(unat va + i) div 4096 = (4096 * (unat va div 4096) + (unat va mod 4096 + i)) div 4096"
    by (rule arg_cong)
  also have "\<dots> = unat va div 4096 + (unat va mod 4096 + i) div 4096" by (rule div_mult_self4) simp
  finally have "(unat va + i) div 4096 = unat va div 4096" using assms(1) by simp
  then have d: "unat (va + of_nat i) div 4096 = unat va div 4096" using unat_add_small[OF assms(2)] by simp
  then show "PAGEROUNDDOWN (va + of_nat i) = PAGEROUNDDOWN va"
    by (simp add: word_unat_eq_iff unat_PAGEROUNDDOWN)
  show "vpn (va + of_nat i) = vpn va" using d by (simp add: vpn_def)
qed

lemma user_pa_add:
  assumes "\<And>a b. vpn a = vpn b \<Longrightarrow> L a = L b" "unat va mod 4096 + i < 4096" "unat va + i \<le> 2 ^ 38"
  shows "user_pa L (va + of_nat i) = user_pa L va + of_nat i"
proof -
  have "L (va + of_nat i) = L va" using page_offset_add(2)[OF assms(2,3)] by (rule assms(1))
  then show ?thesis using page_offset_add(1)[OF assms(2,3)] by (simp add: user_pa_def algebra_simps)
qed

lemma user_range_split:
  assumes "user_range L R va n" "k \<le> n"
  shows "user_range L R va k" "user_range L R (va + of_nat k) (n - k)"
proof -
  show "user_range L R va k" using assms by (auto simp: user_range_def)
  have u: "unat (va + of_nat k) = unat va + k"
    using assms by (intro unat_add_small) (simp add: user_range_def unat_MAXVA)
  have shift: "va + of_nat k + of_nat i = va + of_nat (k + i)" for i by (simp add: algebra_simps)
  have in_range: "k + i < n" if "i < n - k" for i using that by simp
  show "user_range L R (va + of_nat k) (n - k)"
    unfolding user_range_def u shift
  proof (intro conjI allI impI)
    show "unat va + k + (n - k) \<le> unat MAXVA" using assms by (simp add: user_range_def)
    fix i assume "i < n - k"
    then show "user_pte (L (va + of_nat (k + i)))" "PTE2PA (L (va + of_nat (k + i))) \<noteq> 0"
      "user_pa L (va + of_nat (k + i)) \<noteq> - 1" "\<forall>q \<in> R. \<not> in_region q 4096 (user_pa L (va + of_nat (k + i)))"
      using assms(1) in_range[of i] unfolding user_range_def by blast+
    fix j assume "j < n - k" "user_pa L (va + of_nat (k + i)) = user_pa L (va + of_nat (k + j))"
    then have "k + i = k + j"
      using assms(1) in_range[OF \<open>i < n - k\<close>] in_range[of j] unfolding user_range_def by blast
    then show "i = j" by simp
  qed
qed

lemma in_region_of_nat:
  assumes "n \<le> 2 ^ 64"
  shows "in_region d n a \<longleftrightarrow> (\<exists>i < n. a = d + of_nat i)"
proof
  assume "in_region d n a"
  then show "\<exists>i < n. a = d + of_nat i"
    by (intro exI[of _ "unat (a - d)"]) (simp add: in_region_def)
next
  assume "\<exists>i < n. a = d + of_nat i"
  then obtain i where "i < n" "a = d + of_nat i" by blast
  then show "in_region d n a" using assms by (simp add: in_region_def unat_of_nat_u64)
qed

text \<open>Writing to user bytes does not disturb the page table or the free pages.\<close>

lemma pt_map_user_write:
  assumes "pt_map s pt L T F" "\<And>a q. q \<in> T \<union> F \<Longrightarrow> in_region q 4096 a \<Longrightarrow> m a = mem s a"
  shows "pt_map (s\<lparr>mem := m\<rparr>) pt L T F"
proof -
  have "kmem_pages (s\<lparr>mem := m\<rparr>) F"
    using pt_map_pages(1)[OF assms(1)] assms(2) by (intro kmem_pages_mem_cong) auto
  from pt_map_frame(1)[OF assms(1) this pt_map_pages(3)[OF assms(1)]] assms(2)
  show ?thesis by auto
qed

text \<open>One iteration of \<open>copyout\<close> or \<open>copyin\<close>: the bytes of the first page of the range.\<close>

lemma chunk_cases:
  assumes "0 < len"
  shows "unat (chunk va len) \<le> unat len" "unat va mod 4096 + unat (chunk va len) \<le> 4096"
    "unat (len - chunk va len) = unat len - unat (chunk va len)"
    "0 < len - chunk va len \<Longrightarrow> PAGEROUNDDOWN va + PAGESIZE = va + chunk va len"
proof -
  show le: "unat (chunk va len) \<le> unat len" "unat va mod 4096 + unat (chunk va len) \<le> 4096"
    by (auto simp: unat_chunk)
  show diff: "unat (len - chunk va len) = unat len - unat (chunk va len)"
    using chunk_le by (simp add: unat_sub)
  assume "0 < len - chunk va len"
  then have "unat (chunk va len) < unat len" using diff by (simp add: word_less_nat_alt)
  then have "chunk va len = PAGESIZE - (va - PAGEROUNDDOWN va)"
    by (auto simp: chunk_def Let_def split: if_splits)
  then show "PAGEROUNDDOWN va + PAGESIZE = va + chunk va len" by (simp add: algebra_simps)
qed

section \<open>copyout\<close>

lemma page_bytes_end: "page_aligned p \<Longrightarrow> unat p + 4096 \<le> 2 ^ 64"
proof -
  assume "page_aligned p"
  then obtain k where k: "unat p = 4096 * k" using page_aligned_unatE by blast
  have "unat p < 2 ^ 64" by (rule unat_u64_less)
  then have "4096 * k < 4096 * 2 ^ 52" using k by simp
  then have "k + 1 \<le> 2 ^ 52" by simp
  then have "4096 * (k + 1) \<le> 4096 * 2 ^ 52" by simp
  then show ?thesis using k by simp
qed

text \<open>The first page of a mapped range, as \<open>walkaddr\<close> and the chunk length give it.\<close>

lemma user_chunk:
  assumes pm: "pt_map s pt L T F" and ur: "user_range L R va (unat len)" and len: "0 < len"
  defines "n \<equiv> chunk va len"
  shows "walkaddr pt (PAGEROUNDDOWN va) s = Ok (PTE2PA (L va), s)" "PTE2PA (L va) \<noteq> 0"
    "PTE2PA (L va) + (va - PAGEROUNDDOWN va) = user_pa L va"
    "\<And>i. i < unat n \<Longrightarrow> user_pa L (va + of_nat i) = user_pa L va + of_nat i"
    "unat (user_pa L va) + unat n \<le> 2 ^ 64" "unat (ucast n :: u32) = unat n"
proof -
  note c = chunk_cases[OF len, of va, folded n_def]
  have len0: "0 < unat len" using len by (simp add: word_less_nat_alt)
  have Lv: "vpn a = vpn b \<Longrightarrow> L a = L b" for a b using pt_map_vpn[OF pm] .
  have Lr: "L (PAGEROUNDDOWN va) = L va" by (rule Lv) simp
  have vb: "unat va + unat len \<le> 2 ^ 38" using ur by (simp add: user_range_def unat_MAXVA)
  have "PAGEROUNDDOWN va < MAXVA"
    using vb len0 unat_PAGEROUNDDOWN[of va] by (simp add: word_less_nat_alt unat_MAXVA)
  moreover have "user_pte (L va)" and nz: "PTE2PA (L va) \<noteq> 0"
    using ur len0 by (auto simp: user_range_def)
  ultimately show "walkaddr pt (PAGEROUNDDOWN va) s = Ok (PTE2PA (L va), s)"
    using walkaddr_user[OF pm, of "PAGEROUNDDOWN va"] Lr by simp
  show "PTE2PA (L va) \<noteq> 0" by (rule nz)
  show "PTE2PA (L va) + (va - PAGEROUNDDOWN va) = user_pa L va" by (simp add: user_pa_def)
  show "user_pa L (va + of_nat i) = user_pa L va + of_nat i" if "i < unat n" for i
    using user_pa_add[of L va i, OF Lv] c(1,2) vb that by simp
  have pe: "unat (PTE2PA (L va)) + 4096 \<le> 2 ^ 64" using page_bytes_end by simp
  have off: "unat va mod 4096 + unat n \<le> 4096" using c(2) .
  have n0: "0 < unat n" using chunk_pos[OF len, of va] by (simp add: n_def)
  have "unat (user_pa L va) = unat (PTE2PA (L va)) + unat va mod 4096"
    using unat_add_u64[of "PTE2PA (L va)" "va - PAGEROUNDDOWN va"] pe off n0
    by (simp add: user_pa_def unat_page_offset)
  then show "unat (user_pa L va) + unat n \<le> 2 ^ 64" using pe off by simp
  have "unat n < 2 ^ 32" using off by simp
  then show "unat (ucast n :: u32) = unat n" by (simp add: unsigned_ucast_eq take_bit_nat_eq_self_iff)
qed

lemma copyout_spec:
  assumes "pt_map s pt L T F" "user_range L (T \<union> F) dstva (unat len)" "unat src + unat len < 2 ^ 64"
    "\<And>i j. i < unat len \<Longrightarrow> j < unat len \<Longrightarrow> src + of_nat i \<noteq> user_pa L (dstva + of_nat j)"
  shows "\<exists>m. copyout pt dstva src len s = Ok (0, s\<lparr>mem := m\<rparr>)
    \<and> (\<forall>i < unat len. m (user_pa L (dstva + of_nat i)) = mem s (src + of_nat i))
    \<and> (\<forall>a. (\<forall>i < unat len. a \<noteq> user_pa L (dstva + of_nat i)) \<longrightarrow> m a = mem s a)"
  using assms
proof (induction pt dstva src len s rule: copyout.induct)
  case (1 pt dstva src len s)
  note pm = 1(2) and ur = 1(3) and sb = 1(4) and dis = 1(5)
  show ?case
  proof (cases "0 < len")
    case False
    then have "len = 0" by (simp add: word_gt_0)
    then show ?thesis by (intro exI[of _ "mem s"]) (simp add: copyout.simps)
  next
    case True
    define n where "n = chunk dstva len"
    note c = chunk_cases[OF True, of dstva, folded n_def]
    note uc = user_chunk[OF pm ur True, folded n_def]
    define m1 where "m1 = memmove (mem s) (user_pa L dstva) src (ucast n)"
    have m1: "m1 a = (if in_region (user_pa L dstva) (unat n) a then mem s (src + (a - user_pa L dstva)) else mem s a)" for a
      unfolding m1_def using memmove_eq[of src "ucast n :: u32" "user_pa L dstva" "mem s"] uc(5,6) sb c(1) by simp
    have new: "m1 (user_pa L (dstva + of_nat i)) = mem s (src + of_nat i)" if "i < unat n" for i
      using uc(4)[OF that] that c(1) unat_u64_less[of n] by (simp add: m1 in_region_def unat_of_nat_u64)
    have old: "m1 a = mem s a" if "\<And>i. i < unat n \<Longrightarrow> a \<noteq> user_pa L (dstva + of_nat i)" for a
    proof -
      have "\<not> in_region (user_pa L dstva) (unat n) a"
        using that uc(4) unat_u64_less[of n] by (subst in_region_of_nat) auto
      then show ?thesis by (simp add: m1)
    qed
    have pm1: "pt_map (s\<lparr>mem := m1\<rparr>) pt L T F"
    proof (rule pt_map_user_write[OF pm])
      fix a q assume "q \<in> T \<union> F" "in_region q 4096 a"
      then show "m1 a = mem s a" using ur c(1) by (intro old) (auto simp: user_range_def)
    qed
    have loop: "copyout pt dstva src len s =
        copyout pt (PAGEROUNDDOWN dstva + PAGESIZE) (src + n) (len - n) (s\<lparr>mem := m1\<rparr>)"
      using True uc(1,2,3) by (subst copyout.simps) (simp add: n_def m1_def Let_def)
    show ?thesis
    proof (cases "0 < len - n")
      case False
      then have "len - n = 0" by (simp add: word_gt_0)
      then have eq: "unat n = unat len" by simp
      have "copyout pt dstva src len s = Ok (0, s\<lparr>mem := m1\<rparr>)"
        using loop False by (simp add: copyout.simps)
      then show ?thesis using new old eq by (intro exI[of _ m1]) auto
    next
      case rest: True
      have va: "PAGEROUNDDOWN dstva + PAGESIZE = dstva + of_nat (unat n)" using c(4)[OF rest] by simp
      have src': "src + n + of_nat i = src + of_nat (unat n + i)" "dstva + of_nat (unat n) + of_nat i = dstva + of_nat (unat n + i)" for i
        by (simp_all add: algebra_simps)
      have un: "unat (src + n) = unat src + unat n" using sb c(1) by (intro unat_add_u64) simp
      have lt: "unat n + i < unat len" if "i < unat (len - n)" for i using that c(3) by simp
      have ur1: "user_range L (T \<union> F) (dstva + of_nat (unat n)) (unat (len - n))"
        using user_range_split(2)[OF ur c(1)] c(3) by simp
      have "\<exists>m. copyout pt (PAGEROUNDDOWN dstva + PAGESIZE) (src + n) (len - n) (s\<lparr>mem := m1\<rparr>) =
            Ok (0, (s\<lparr>mem := m1\<rparr>)\<lparr>mem := m\<rparr>)
          \<and> (\<forall>i < unat (len - n). m (user_pa L (dstva + of_nat (unat n) + of_nat i)) = m1 (src + n + of_nat i))
          \<and> (\<forall>a. (\<forall>i < unat (len - n). a \<noteq> user_pa L (dstva + of_nat (unat n) + of_nat i)) \<longrightarrow> m a = m1 a)"
      proof -
        have bound: "unat (src + n) + unat (len - n) < 2 ^ 64" using un c(1,3) sb by simp
        have dis': "src + n + of_nat i \<noteq> user_pa L (dstva + of_nat (unat n) + of_nat j)"
          if "i < unat (len - n)" "j < unat (len - n)" for i j
          unfolding src' using dis[OF lt[OF that(1)] lt[OF that(2)]] .
        have pre: "(PTE2PA (L dstva), s) = (x, y) \<Longrightarrow> x = PTE2PA (L dstva) \<and> y = s" for x y by auto
        show ?thesis
          using 1(1)[OF True refl uc(1) refl uc(2) refl] pm1 ur1 bound dis' uc(3) va
          by (simp add: n_def[symmetric] m1_def[symmetric])
      qed
      then obtain m where m: "copyout pt (PAGEROUNDDOWN dstva + PAGESIZE) (src + n) (len - n) (s\<lparr>mem := m1\<rparr>) = Ok (0, s\<lparr>mem := m\<rparr>)"
          "\<And>i. i < unat (len - n) \<Longrightarrow> m (user_pa L (dstva + of_nat (unat n + i))) = m1 (src + of_nat (unat n + i))"
          "\<And>a. \<forall>i < unat (len - n). a \<noteq> user_pa L (dstva + of_nat (unat n + i)) \<Longrightarrow> m a = m1 a"
        unfolding src' by auto
      have byte: "m (user_pa L (dstva + of_nat i)) = mem s (src + of_nat i)" if i: "i < unat len" for i
      proof (cases "i < unat n")
        case True
        have "user_pa L (dstva + of_nat i) \<noteq> user_pa L (dstva + of_nat (unat n + j))" if "j < unat (len - n)" for j
          using ur i lt[OF that] True unfolding user_range_def by (metis not_add_less1)
        then show ?thesis using m(3) new[OF True] by simp
      next
        case False
        then obtain j where j: "i = unat n + j" by (metis le_add_diff_inverse not_less)
        then have "j < unat (len - n)" using i c(3) by simp
        moreover have "m1 (src + of_nat i) = mem s (src + of_nat i)"
          using dis[OF i] c(1) by (intro old) simp
        ultimately show ?thesis using m(2)[of j] j by simp
      qed
      have frame: "m a = mem s a" if "\<forall>i < unat len. a \<noteq> user_pa L (dstva + of_nat i)" for a
      proof -
        have "m a = m1 a" using that lt by (intro m(3)) blast
        also have "m1 a = mem s a" using that c(1) by (intro old) simp
        finally show ?thesis .
      qed
      show ?thesis using loop m(1) byte frame by (intro exI[of _ m]) simp
    qed
  qed
qed

section \<open>copyin\<close>

lemma user_chunk_below:
  assumes "pt_map s pt L T F" "user_range L R va (unat len)" "0 < len"
  shows "unat (user_pa L va) + unat (chunk va len) < 2 ^ 64"
proof -
  define k where "k = unat (chunk va len) - 1"
  have k: "k < unat (chunk va len)" "unat (chunk va len) = k + 1"
    using chunk_pos[OF assms(3), of va] by (simp_all add: k_def)
  have "k < unat len" using k(1) chunk_cases(1)[OF assms(3), of va] by simp
  then have "user_pa L (va + of_nat k) \<noteq> - 1" using assms(2) by (auto simp: user_range_def)
  then have ne: "user_pa L va + of_nat k \<noteq> - 1" using user_chunk(4)[OF assms k(1)] by simp
  have le: "unat (user_pa L va) + unat (chunk va len) \<le> 2 ^ 64" by (rule user_chunk(5)[OF assms])
  show ?thesis
  proof (rule ccontr)
    assume "\<not> ?thesis"
    then have "unat (user_pa L va) + k + 1 = 2 ^ 64" using le k(2) by simp
    then have "(of_nat (unat (user_pa L va) + k + 1) :: u64) = of_nat (2 ^ 64)" by (rule arg_cong)
    then have "user_pa L va + of_nat k + 1 = 0" by simp
    then show False using ne by (simp add: eq_neg_iff_add_eq_0)
  qed
qed

lemma copyin_spec:
  assumes "pt_map s pt L T F" "user_range L (T \<union> F) srcva (unat len)" "unat dst + unat len \<le> 2 ^ 64"
    "\<And>i j. i < unat len \<Longrightarrow> j < unat len \<Longrightarrow> dst + of_nat i \<noteq> user_pa L (srcva + of_nat j)"
    "\<And>i q. i < unat len \<Longrightarrow> q \<in> T \<union> F \<Longrightarrow> \<not> in_region q 4096 (dst + of_nat i)"
  shows "\<exists>m. copyin pt dst srcva len s = Ok (0, s\<lparr>mem := m\<rparr>)
    \<and> (\<forall>i < unat len. m (dst + of_nat i) = mem s (user_pa L (srcva + of_nat i)))
    \<and> (\<forall>a. (\<forall>i < unat len. a \<noteq> dst + of_nat i) \<longrightarrow> m a = mem s a)"
  using assms
proof (induction pt dst srcva len s rule: copyin.induct)
  case (1 pt dst srcva len s)
  note pm = 1(2) and ur = 1(3) and db = 1(4) and dis = 1(5) and out = 1(6)
  show ?case
  proof (cases "0 < len")
    case False
    then have "len = 0" by (simp add: word_gt_0)
    then show ?thesis by (intro exI[of _ "mem s"]) (simp add: copyin.simps)
  next
    case True
    define n where "n = chunk srcva len"
    note c = chunk_cases[OF True, of srcva, folded n_def]
    note uc = user_chunk[OF pm ur True, folded n_def]
    define m1 where "m1 = memmove (mem s) dst (user_pa L srcva) (ucast n)"
    have m1: "m1 a = (if in_region dst (unat n) a then mem s (user_pa L srcva + (a - dst)) else mem s a)" for a
      unfolding m1_def using memmove_eq[of "user_pa L srcva" "ucast n :: u32" dst "mem s"]
        user_chunk_below[OF pm ur True, folded n_def] uc(6) db c(1) by simp
    have new: "m1 (dst + of_nat i) = mem s (user_pa L (srcva + of_nat i))" if "i < unat n" for i
      using uc(4)[OF that] that c(1) unat_u64_less[of n] by (simp add: m1 in_region_def unat_of_nat_u64)
    have old: "m1 a = mem s a" if "\<And>i. i < unat n \<Longrightarrow> a \<noteq> dst + of_nat i" for a
    proof -
      have "\<not> in_region dst (unat n) a" using that unat_u64_less[of n] by (subst in_region_of_nat) auto
      then show ?thesis by (simp add: m1)
    qed
    have pm1: "pt_map (s\<lparr>mem := m1\<rparr>) pt L T F"
    proof (rule pt_map_user_write[OF pm])
      fix a q assume "q \<in> T \<union> F" "in_region q 4096 a"
      then show "m1 a = mem s a" using out c(1) by (intro old) auto
    qed
    have loop: "copyin pt dst srcva len s =
        copyin pt (dst + n) (PAGEROUNDDOWN srcva + PAGESIZE) (len - n) (s\<lparr>mem := m1\<rparr>)"
      using True uc(1,2,3) by (subst copyin.simps) (simp add: n_def m1_def Let_def)
    show ?thesis
    proof (cases "0 < len - n")
      case False
      then have "len - n = 0" by (simp add: word_gt_0)
      then have eq: "unat n = unat len" by simp
      have "copyin pt dst srcva len s = Ok (0, s\<lparr>mem := m1\<rparr>)"
        using loop False by (simp add: copyin.simps)
      then show ?thesis using new old eq by (intro exI[of _ m1]) auto
    next
      case rest: True
      have va: "PAGEROUNDDOWN srcva + PAGESIZE = srcva + of_nat (unat n)" using c(4)[OF rest] by simp
      have sum: "dst + n + of_nat i = dst + of_nat (unat n + i)"
        "srcva + of_nat (unat n) + of_nat i = srcva + of_nat (unat n + i)" for i
        by (simp_all add: algebra_simps)
      have lt: "unat n + i < unat len" if "i < unat (len - n)" for i using that c(3) by simp
      have "0 < unat (len - n)" using rest by (simp add: word_less_nat_alt)
      then have un: "unat (dst + n) = unat dst + unat n"
        using db c(1,3) by (intro unat_add_u64) simp
      have "\<exists>m. copyin pt (dst + n) (PAGEROUNDDOWN srcva + PAGESIZE) (len - n) (s\<lparr>mem := m1\<rparr>) =
            Ok (0, (s\<lparr>mem := m1\<rparr>)\<lparr>mem := m\<rparr>)
          \<and> (\<forall>i < unat (len - n). m (dst + n + of_nat i) = m1 (user_pa L (srcva + of_nat (unat n) + of_nat i)))
          \<and> (\<forall>a. (\<forall>i < unat (len - n). a \<noteq> dst + n + of_nat i) \<longrightarrow> m a = m1 a)"
      proof -
        have ur1: "user_range L (T \<union> F) (srcva + of_nat (unat n)) (unat (len - n))"
          using user_range_split(2)[OF ur c(1)] c(3) by simp
        have bound: "unat (dst + n) + unat (len - n) \<le> 2 ^ 64" using un c(1,3) db by simp
        have dis': "dst + n + of_nat i \<noteq> user_pa L (srcva + of_nat (unat n) + of_nat j)"
          if "i < unat (len - n)" "j < unat (len - n)" for i j
          unfolding sum using dis[OF lt[OF that(1)] lt[OF that(2)]] .
        have out': "\<not> in_region q 4096 (dst + n + of_nat i)" if "i < unat (len - n)" "q \<in> T \<union> F" for i q
          unfolding sum using out[OF lt[OF that(1)] that(2)] .
        show ?thesis
          using 1(1)[OF True refl uc(1) refl uc(2) refl] pm1 ur1 bound dis' out' uc(3) va
          by (simp add: n_def[symmetric] m1_def[symmetric])
      qed
      then obtain m where m: "copyin pt (dst + n) (PAGEROUNDDOWN srcva + PAGESIZE) (len - n) (s\<lparr>mem := m1\<rparr>) = Ok (0, s\<lparr>mem := m\<rparr>)"
          "\<And>i. i < unat (len - n) \<Longrightarrow> m (dst + of_nat (unat n + i)) = m1 (user_pa L (srcva + of_nat (unat n + i)))"
          "\<And>a. \<forall>i < unat (len - n). a \<noteq> dst + of_nat (unat n + i) \<Longrightarrow> m a = m1 a"
        unfolding sum by auto
      have byte: "m (dst + of_nat i) = mem s (user_pa L (srcva + of_nat i))" if i: "i < unat len" for i
      proof (cases "i < unat n")
        case True
        have "dst + of_nat i \<noteq> dst + of_nat (unat n + j)" if "j < unat (len - n)" for j
        proof
          assume "dst + of_nat i = dst + of_nat (unat n + j)"
          then have "(of_nat i :: u64) = of_nat (unat n + j)" by (simp only: add_left_cancel)
          then have "i = unat n + j"
            using unat_of_nat_u64[of i] unat_of_nat_u64[of "unat n + j"] i lt[OF that] unat_u64_less[of len]
            by (metis order_less_trans)
          then show False using True by simp
        qed
        then have "m (dst + of_nat i) = m1 (dst + of_nat i)" by (intro m(3)) blast
        then show ?thesis using new[OF True] by simp
      next
        case False
        then obtain j where j: "i = unat n + j" by (metis le_add_diff_inverse not_less)
        then have "j < unat (len - n)" using i c(3) by simp
        moreover have "m1 (user_pa L (srcva + of_nat i)) = mem s (user_pa L (srcva + of_nat i))"
          using dis[OF _ i] c(1) by (intro old) (metis order_less_le_trans)
        ultimately show ?thesis using m(2)[of j] j by simp
      qed
      have frame: "m a = mem s a" if "\<forall>i < unat len. a \<noteq> dst + of_nat i" for a
      proof -
        have "m a = m1 a" using that lt by (intro m(3)) blast
        also have "m1 a = mem s a" using that c(1) by (intro old) simp
        finally show ?thesis .
      qed
      show ?thesis using loop m(1) byte frame by (intro exI[of _ m]) simp
    qed
  qed
qed

section \<open>Theorems\<close>

text \<open>
  C11. A copy to user memory and back. When the range of user addresses is mapped for the
  user and the kernel buffers do not overlap the user bytes, copyout() followed by copyin() both
  return 0, the second buffer holds the bytes of the first, and copyout() writes nothing
  but the user bytes, copyin() nothing but its buffer.
\<close>

theorem copyout_copyin_roundtrip:
  assumes "pt_map s pt L T F" "user_range L (T \<union> F) va (unat len)"
    "unat src + unat len < 2 ^ 64" "unat dst + unat len \<le> 2 ^ 64"
    "\<And>i j. i < unat len \<Longrightarrow> j < unat len \<Longrightarrow> src + of_nat i \<noteq> user_pa L (va + of_nat j)"
    "\<And>i j. i < unat len \<Longrightarrow> j < unat len \<Longrightarrow> dst + of_nat i \<noteq> user_pa L (va + of_nat j)"
    "\<And>i q. i < unat len \<Longrightarrow> q \<in> T \<union> F \<Longrightarrow> \<not> in_region q 4096 (dst + of_nat i)"
  shows "\<exists>m m'. copyout pt va src len s = Ok (0, s\<lparr>mem := m\<rparr>)
    \<and> copyin pt dst va len (s\<lparr>mem := m\<rparr>) = Ok (0, s\<lparr>mem := m'\<rparr>)
    \<and> (\<forall>i < unat len. m (user_pa L (va + of_nat i)) = mem s (src + of_nat i))
    \<and> (\<forall>i < unat len. m' (dst + of_nat i) = mem s (src + of_nat i))
    \<and> (\<forall>a. (\<forall>i < unat len. a \<noteq> user_pa L (va + of_nat i)) \<longrightarrow> m a = mem s a)
    \<and> (\<forall>a. (\<forall>i < unat len. a \<noteq> dst + of_nat i) \<longrightarrow> m' a = m a)"
proof -
  obtain m where m: "copyout pt va src len s = Ok (0, s\<lparr>mem := m\<rparr>)"
      "\<forall>i < unat len. m (user_pa L (va + of_nat i)) = mem s (src + of_nat i)"
      "\<And>a. (\<forall>i < unat len. a \<noteq> user_pa L (va + of_nat i)) \<longrightarrow> m a = mem s a"
    using copyout_spec[OF assms(1-3,5)] by blast
  have "pt_map (s\<lparr>mem := m\<rparr>) pt L T F"
  proof (rule pt_map_user_write[OF assms(1)])
    fix a q assume "q \<in> T \<union> F" "in_region q 4096 a"
    then have "\<forall>i < unat len. a \<noteq> user_pa L (va + of_nat i)"
      using assms(2) by (auto simp: user_range_def)
    then show "m a = mem s a" using m(3) by blast
  qed
  from copyin_spec[OF this assms(2,4,6,7)] obtain m' where
      "copyin pt dst va len (s\<lparr>mem := m\<rparr>) = Ok (0, s\<lparr>mem := m'\<rparr>)"
      "\<forall>i < unat len. m' (dst + of_nat i) = m (user_pa L (va + of_nat i))"
      "\<forall>a. (\<forall>i < unat len. a \<noteq> dst + of_nat i) \<longrightarrow> m' a = m a"
    by auto
  with m show ?thesis by (intro exI[of _ m] exI[of _ m']) simp
qed

lemma one_user_range:
  assumes "unat va + n \<le> 4096"
  shows "user_range one_user_map ({0x80040000, 0x80041000, 0x80042000} \<union> {0x80031000, 0x80032000, 0x80030000}) va n"
    "i < n \<Longrightarrow> user_pa one_user_map (va + of_nat i) = 0x80043000 + of_nat (unat va + i)"
proof -
  have u: "unat (va + of_nat i) = unat va + i" if "i < n" for i
    using that assms by (intro unat_add_small) simp
  have L: "one_user_map (va + of_nat i) = PA2PTE 0x80043000 OR 0x17" if "i < n" for i
    using u[OF that] that assms by (simp add: one_user_map_def vpn_def)
  have pa: "user_pa one_user_map (va + of_nat i) = 0x80043000 + of_nat (unat va + i)" if "i < n" for i
  proof -
    have "PAGEROUNDDOWN (va + of_nat i) = 0"
      using u[OF that] that assms by (simp add: word_unat_eq_iff unat_PAGEROUNDDOWN)
    then show ?thesis by (simp add: user_pa_def L[OF that] PTE2PA_def PA2PTE_def)
  qed
  then show "i < n \<Longrightarrow> user_pa one_user_map (va + of_nat i) = 0x80043000 + of_nat (unat va + i)" .
  have up: "unat (0x80043000 + of_nat (unat va + i) :: u64) = 0x80043000 + (unat va + i)" if "i < n" for i
    using that assms unat_add_u64[of "0x80043000" "of_nat (unat va + i)"] unat_of_nat_u64[of "unat va + i"]
    by (simp del: of_nat_add)
  have far: "\<not> in_region q 4096 (user_pa one_user_map (va + of_nat i))"
    if "i < n" "q \<in> {0x80040000, 0x80041000, 0x80042000} \<union> {0x80031000, 0x80032000, 0x80030000}" for i q
  proof -
    have "unat q + 4096 \<le> unat (0x80043000 + of_nat (unat va + i) :: u64)" using that(2) up[OF that(1)] by auto
    then show ?thesis unfolding pa[OF that(1)] in_region_def by (simp add: unat_sub_if')
  qed
  have ne: "user_pa one_user_map (va + of_nat i) \<noteq> - 1" if "i < n" for i
  proof
    assume "user_pa one_user_map (va + of_nat i) = - 1"
    then have "unat (0x80043000 + of_nat (unat va + i) :: u64) = unat (- 1 :: u64)" 
      unfolding pa[OF that] by (rule arg_cong)
    then show False using up[OF that] that assms
      by (simp add: unsigned_minus_1_eq_mask mask_eq_exp_minus_1 del: of_nat_add)
  qed
  have inj: "i = j" if "i < n" "j < n" "user_pa one_user_map (va + of_nat i) = user_pa one_user_map (va + of_nat j)" for i j
  proof -
    have "unat (0x80043000 + of_nat (unat va + i) :: u64) = unat (0x80043000 + of_nat (unat va + j) :: u64)"
      using that(3) unfolding pa[OF that(1)] pa[OF that(2)] by (rule arg_cong)
    then show ?thesis unfolding up[OF that(1)] up[OF that(2)] by simp
  qed
  show "user_range one_user_map ({0x80040000, 0x80041000, 0x80042000} \<union> {0x80031000, 0x80032000, 0x80030000}) va n"
    unfolding user_range_def
  proof (intro conjI allI impI ballI)
    show "unat va + n \<le> unat MAXVA" using assms by (simp add: unat_MAXVA)
  next
    fix i assume "i < n"
    then show "user_pte (one_user_map (va + of_nat i))" "PTE2PA (one_user_map (va + of_nat i)) \<noteq> 0"
      by (simp_all add: L user_pte_def PTE_V_def PTE_U_def PTE2PA_def PA2PTE_def)
  qed (fact ne far inj)+
qed

theorem copyout_copyin_roundtrip_witness:
  "\<exists>m m'. copyout 0x80040000 0x10 0x80009000 3 one_user_page = Ok (0, one_user_page\<lparr>mem := m\<rparr>)
    \<and> copyin 0x80040000 0x80009100 0x10 3 (one_user_page\<lparr>mem := m\<rparr>) = Ok (0, one_user_page\<lparr>mem := m'\<rparr>)
    \<and> m' 0x80009102 = mem one_user_page 0x80009002"
proof -
  have ur: "user_range one_user_map ({0x80040000, 0x80041000, 0x80042000} \<union> {0x80031000, 0x80032000, 0x80030000})
      0x10 (unat (3 :: u64))" by (rule one_user_range) simp
  have pa: "user_pa one_user_map (0x10 + of_nat i) = 0x80043000 + of_nat (16 + i)" if "i < 3" for i
    using one_user_range(2)[of "0x10" 3 i] that by simp
  have i3: "i = 0 \<or> i = 1 \<or> i = 2" if "i < 3" for i :: nat using that by auto
  have apart: "0x80009000 + of_nat i \<noteq> user_pa one_user_map (0x10 + of_nat j)"
      "0x80009100 + of_nat i \<noteq> user_pa one_user_map (0x10 + of_nat j)" if "i < 3" "j < 3" for i j
    using i3[OF that(1)] i3[OF that(2)] unfolding pa[OF that(2)] by auto
  have out: "\<not> in_region q 4096 (0x80009100 + of_nat i)"
    if "i < 3" "q \<in> {0x80040000, 0x80041000, 0x80042000} \<union> {0x80031000, 0x80032000, 0x80030000}" for i q
    using i3[OF that(1)] that(2) by (auto simp: in_region_def)
  obtain m m' where "copyout 0x80040000 0x10 0x80009000 3 one_user_page = Ok (0, one_user_page\<lparr>mem := m\<rparr>)"
      "copyin 0x80040000 0x80009100 0x10 3 (one_user_page\<lparr>mem := m\<rparr>) = Ok (0, one_user_page\<lparr>mem := m'\<rparr>)"
      "\<forall>i < unat (3 :: u64). m' (0x80009100 + of_nat i) = mem one_user_page (0x80009000 + of_nat i)"
    using copyout_copyin_roundtrip[OF one_user_page_table ur, of "0x80009000" "0x80009100"] apart out
    by (simp del: Un_insert_left Un_insert_right) blast
  then show ?thesis by (intro exI[of _ m] exI[of _ m']) (auto dest!: spec[of _ 2])
qed

text \<open>
  C30. Copying fails cleanly: when the page of the first byte is not mapped for the user or
  lies at or above MAXVA, copyout(), copyin() and copyinstr() return -1. No byte of
  memory outside the page tables and the free pages changes.
\<close>

theorem user_copy_unmapped:
  assumes "pt_map s pt L T F" "0 < len" "MAXVA \<le> va \<or> \<not> user_pte (L va)"
  shows "\<exists>s'. copyout pt va src len s = Ok (- 1, s') \<and> copyin pt dst va len s = Ok (- 1, s')
    \<and> copyinstr pt dst va len s = Ok (- 1, s')
    \<and> (\<forall>a. (\<forall>q \<in> T \<union> F. \<not> in_region q 4096 a) \<longrightarrow> mem s' a = mem s a)"
proof -
  have "L (PAGEROUNDDOWN va) = L va" by (rule pt_map_vpn[OF assms(1)]) simp
  moreover have "MAXVA \<le> PAGEROUNDDOWN va" if "MAXVA \<le> va"
  proof -
    have "2 ^ 38 \<le> unat va" using that by (simp add: word_le_nat_alt unat_MAXVA)
    then have "4096 * (2 ^ 26) \<le> 4096 * (unat va div 4096)" by (intro mult_le_mono2) simp
    then show ?thesis by (simp add: word_le_nat_alt unat_MAXVA unat_PAGEROUNDDOWN)
  qed
  ultimately have "\<not> (PAGEROUNDDOWN va < MAXVA \<and> user_pte (L (PAGEROUNDDOWN va)))"
    using assms(3) by (auto simp: not_less)
  then obtain s' T' F' where "walkaddr pt (PAGEROUNDDOWN va) s = Ok (0, s')" "pt_step s T F s' T' F'"
    using walkaddr_spec[OF assms(1), of "PAGEROUNDDOWN va"] by (simp only: if_False) blast
  then show ?thesis using assms(2)
    by (intro exI[of _ s']) (simp add: copyout.simps copyin.simps copyinstr.simps Let_def pt_step_def)
qed

theorem user_copy_unmapped_witness:
  "\<exists>s'. copyout 0x80040000 0x7000 0x80009000 3 three_pages = Ok (- 1, s')
    \<and> copyin 0x80040000 0x80009000 0x7000 3 three_pages = Ok (- 1, s')
    \<and> copyinstr 0x80040000 0x80009000 0x7000 3 three_pages = Ok (- 1, s')"
  using user_copy_unmapped[OF three_pages_table, of 3 "0x7000" "0x80009000" "0x80009000"]
  by (auto simp: user_pte_def)

end
