(* ===== verification/Bytes.thy ===== *)
theory Bytes
  imports Prelude
begin

text \<open>
  Structures stored in a byte array: little-endian 16- and 32-bit fields of a list of bytes
  (a disk block), and of memory. The lemmas are the round trips, and that a store changes
  only its own field.
\<close>

section \<open>Fields of a list of bytes\<close>

definition get16 :: "nat \<Rightarrow> u8 list \<Rightarrow> u16" where
  "get16 i bs = ucast (bs ! i) OR push_bit 8 (ucast (bs ! (i + 1)))"

definition put16 :: "nat \<Rightarrow> u16 \<Rightarrow> u8 list \<Rightarrow> u8 list" where
  "put16 i w bs = bs[i := ucast w, i + 1 := ucast (drop_bit 8 w)]"

definition get32 :: "nat \<Rightarrow> u8 list \<Rightarrow> u32" where
  "get32 i bs = ucast (bs ! i) OR push_bit 8 (ucast (bs ! (i + 1))) OR push_bit 16 (ucast (bs ! (i + 2)))
     OR push_bit 24 (ucast (bs ! (i + 3)))"

definition put32 :: "nat \<Rightarrow> u32 \<Rightarrow> u8 list \<Rightarrow> u8 list" where
  "put32 i w bs = bs[i := ucast w, i + 1 := ucast (drop_bit 8 w), i + 2 := ucast (drop_bit 16 w), i + 3 := ucast (drop_bit 24 w)]"

lemma length_put [simp]: "length (put16 i v bs) = length bs" "length (put32 i w bs) = length bs"
  by (simp_all add: put16_def put32_def)

lemma get16_put16 [simp]: "i + 2 \<le> length bs \<Longrightarrow> get16 i (put16 i w bs) = w"
proof (rule bit_word_eqI)
  fix n assume len: "i + 2 \<le> length bs" and "n < LENGTH(16)"
  then consider "n < 8" | "8 \<le> n" "n < 16" by (simp, linarith)
  then show "bit (get16 i (put16 i w bs)) n \<longleftrightarrow> bit w n"
    by cases (use len in \<open>simp_all add: get16_def put16_def bit_simps less_diff_conv2\<close>)
qed

lemma get32_put32 [simp]: "i + 4 \<le> length bs \<Longrightarrow> get32 i (put32 i w bs) = w"
proof (rule bit_word_eqI)
  fix n assume len: "i + 4 \<le> length bs" and "n < LENGTH(32)"
  then consider "n < 8" | "8 \<le> n" "n < 16" | "16 \<le> n" "n < 24" | "24 \<le> n" "n < 32" by (simp, linarith)
  then show "bit (get32 i (put32 i w bs)) n \<longleftrightarrow> bit w n"
    by cases (use len in \<open>simp_all add: get32_def put32_def bit_simps less_diff_conv2\<close>)
qed

lemma put_outside:
  "j < i \<or> i + 2 \<le> j \<Longrightarrow> put16 i v bs ! j = bs ! j"
  "j < i \<or> i + 4 \<le> j \<Longrightarrow> put32 i w bs ! j = bs ! j"
  by (auto simp: put16_def put32_def)

lemma get_put_other [simp]:
  "i + 4 \<le> j \<or> j + 4 \<le> i \<Longrightarrow> get32 i (put32 j w bs) = get32 i bs"
  "i + 4 \<le> j \<or> j + 2 \<le> i \<Longrightarrow> get32 i (put16 j v bs) = get32 i bs"
  "i + 2 \<le> j \<or> j + 4 \<le> i \<Longrightarrow> get16 i (put32 j w bs) = get16 i bs"
  "i + 2 \<le> j \<or> j + 2 \<le> i \<Longrightarrow> get16 i (put16 j v bs) = get16 i bs"
  by (auto simp: get32_def get16_def put_outside)

section \<open>Fields of memory\<close>

definition load16 :: "memory \<Rightarrow> u64 \<Rightarrow> u16" where
  "load16 m a = ucast (m a) OR push_bit 8 (ucast (m (a + 1)))"

definition store16 :: "memory \<Rightarrow> u64 \<Rightarrow> u16 \<Rightarrow> memory" where
  "store16 m a w = m(a := ucast w, a + 1 := ucast (drop_bit 8 w))"

definition load32 :: "memory \<Rightarrow> u64 \<Rightarrow> u32" where
  "load32 m a = ucast (m a) OR push_bit 8 (ucast (m (a + 1))) OR push_bit 16 (ucast (m (a + 2))) OR push_bit 24 (ucast (m (a + 3)))"

definition store32 :: "memory \<Rightarrow> u64 \<Rightarrow> u32 \<Rightarrow> memory" where
  "store32 m a w = m(a := ucast w, a + 1 := ucast (drop_bit 8 w), a + 2 := ucast (drop_bit 16 w), a + 3 := ucast (drop_bit 24 w))"

lemma load16_store16 [simp]: "load16 (store16 m a w) a = w"
proof (rule bit_word_eqI)
  fix n assume "n < LENGTH(16)"
  then consider "n < 8" | "8 \<le> n" "n < 16" by (simp, linarith)
  then show "bit (load16 (store16 m a w) a) n \<longleftrightarrow> bit w n"
    by cases (simp_all add: load16_def store16_def bit_simps less_diff_conv2)
qed

lemma load32_store32 [simp]: "load32 (store32 m a w) a = w"
proof (rule bit_word_eqI)
  fix n assume "n < LENGTH(32)"
  then consider "n < 8" | "8 \<le> n" "n < 16" | "16 \<le> n" "n < 24" | "24 \<le> n" "n < 32" by (simp, linarith)
  then show "bit (load32 (store32 m a w) a) n \<longleftrightarrow> bit w n"
    by cases (simp_all add: load32_def store32_def bit_simps less_diff_conv2)
qed

lemma store_outside [mem_frame]:
  "\<not> in_region a 2 x \<Longrightarrow> store16 m a v x = m x"
  "\<not> in_region a 4 x \<Longrightarrow> store32 m a w x = m x"
  by (auto simp: store16_def store32_def in_region_def)

section \<open>Ranges of memory\<close>

text \<open>The \<open>n\<close> bytes from \<open>a\<close> on, and their assignment.\<close>

definition bytes_at :: "memory \<Rightarrow> u64 \<Rightarrow> nat \<Rightarrow> u8 list" where
  "bytes_at m a n = map (\<lambda>i. m (a + of_nat i)) [0..<n]"

primrec set_bytes :: "u64 \<Rightarrow> u8 list \<Rightarrow> memory \<Rightarrow> memory" where
  "set_bytes a [] m = m"
| "set_bytes a (b # bs) m = set_bytes (a + 1) bs (m(a := b))"

lemma length_bytes_at [simp]: "length (bytes_at m a n) = n"
  by (simp add: bytes_at_def)

lemma nth_bytes_at [simp]: "i < n \<Longrightarrow> bytes_at m a n ! i = m (a + of_nat i)"
  by (simp add: bytes_at_def)

lemma set_bytes_outside [mem_frame]:
  "length bs < 2 ^ 64 \<Longrightarrow> \<not> in_region a (length bs) x \<Longrightarrow> set_bytes a bs m x = m x"
  by (induction bs arbitrary: a m) (auto simp: in_region_Suc)

lemma bytes_at_set_bytes: "length bs < 2 ^ 64 \<Longrightarrow> bytes_at (set_bytes a bs m) a (length bs) = bs"
proof (induction bs arbitrary: a m)
  case (Cons b bs)
  have "bytes_at f a (Suc n) = f a # bytes_at f (a + 1) n" for f n
    by (rule nth_equalityI) (auto simp: nth_Cons algebra_simps split: nat.splits)
  moreover have "set_bytes (a + 1) bs (m(a := b)) a = b"
    using Cons.prems not_in_region_next[of "length bs" a] by (subst set_bytes_outside) simp_all
  ultimately show ?case using Cons by simp
qed (simp add: bytes_at_def)

end
