(* ===== verification/Proc.thy ===== *)
theory Proc
  imports Usercopy Bytes
begin

text \<open>
  kernel/proc/proc.c and proc.h: the process table, creation and exit of processes, sleep
  and wakeup, and the three schedulers. A process pointer is an index into \<open>proc[]\<close>, null
  is \<open>None\<close>. A function that gives up the CPU is split at its call of \<open>swtch\<close>: the part
  before it ends with \<open>sched_out\<close>, the part after it starts with \<open>sched_in\<close>. Kernel
  structures are records; where the code passes the address of a field to a copy, the
  field is also written to its place in memory.
\<close>

section \<open>State\<close>

datatype procstate = UNUSED | USED | SLEEPING | RUNNABLE | RUNNING | ZOMBIE

text \<open>What processes sleep on: the addresses the kernel passes to \<open>sleep\<close>.\<close>

datatype channel =
    C_proc nat | C_ticks | C_nread u64 | C_nwrite u64 | C_log | C_bufsleep nat | C_inodesleep nat
  | C_buf nat | C_desc

record proc =
  p_priority :: i32
  p_timeslice :: i32
  p_timetotal :: i32
  p_state :: procstate
  p_chan :: "channel option"
  p_killed :: i32
  p_xstate :: i32
  p_pid :: i32
  p_parent :: "nat option"
  p_kstack :: u64
  p_sz :: u64
  p_pagetable :: u64
  p_trapframe :: u64
  p_context :: kcontext
  p_ofile :: "nat option list"
  p_cwd :: "nat option"
  p_name :: "u8 list"

text \<open>
  \<open>regs\<close> are the callee-saved registers of the running code, which \<open>swtch\<close> exchanges. The
  \<open>ld_\<close> fields are addresses of kernel symbols.
\<close>

record proc_state = kalloc_state +
  ptable :: "proc list"
  initproc :: "nat option"
  nextpid :: i32
  sched_ctx :: kcontext
  rr_idx :: i32
  regs :: kcontext
  ld_proc :: u64
  ld_initcode :: u64
  ld_forkret :: u64
  ld_kthread_entry :: u64

abbreviation the_proc :: "nat \<Rightarrow> 'z proc_state_scheme \<Rightarrow> proc" where
  "the_proc p s \<equiv> ptable s ! p"

definition upd_proc :: "nat \<Rightarrow> (proc \<Rightarrow> proc) \<Rightarrow> 'z proc_state_scheme \<Rightarrow> 'z proc_state_scheme" where
  "upd_proc p f s = s\<lparr>ptable := (ptable s)[p := f (ptable s ! p)]\<rparr>"

text \<open>
  Following a null pointer in the kernel faults: page 0 is not mapped, and \<open>kerneltrap\<close>
  panics on a page fault.
\<close>

definition deref :: "nat option \<Rightarrow> (nat \<Rightarrow> 'b res) \<Rightarrow> 'b res" where
  "deref p f = (case p of None \<Rightarrow> Panic ''kerneltrap'' | Some i \<Rightarrow> f i)"

text \<open>\<open>struct trapframe\<close>: byte offsets of the fields in the trapframe page.\<close>

definition TF_kernel_satp :: u64 where "TF_kernel_satp = 0"
definition TF_kernel_sp :: u64 where "TF_kernel_sp = 8"
definition TF_kernel_trap :: u64 where "TF_kernel_trap = 16"
definition TF_epc :: u64 where "TF_epc = 24"
definition TF_kernel_hartid :: u64 where "TF_kernel_hartid = 32"
definition TF_sp :: u64 where "TF_sp = 48"
definition TF_a :: "nat \<Rightarrow> u64" where "TF_a n = 112 + 8 * of_nat n"
definition TF_SIZE :: u32 where "TF_SIZE = 288"

text \<open>\<open>struct proc\<close>: its size and the place of \<open>xstate\<close> in it.\<close>

definition xstate_addr :: "nat \<Rightarrow> 'z proc_state_scheme \<Rightarrow> u64" where
  "xstate_addr p s = ld_proc s + 368 * of_nat p + 52"

definition zero_context :: kcontext where
  "zero_context = \<lparr>ctx_ra = 0, ctx_sp = 0, ctx_s0 = 0, ctx_s1 = 0, ctx_s2 = 0, ctx_s3 = 0, ctx_s4 = 0,
     ctx_s5 = 0, ctx_s6 = 0, ctx_s7 = 0, ctx_s8 = 0, ctx_s9 = 0, ctx_s10 = 0, ctx_s11 = 0\<rparr>"

text \<open>\<open>safestrcpy\<close> on the array \<open>name\<close> of a process.\<close>

definition copy_name :: "u8 list \<Rightarrow> u8 list \<Rightarrow> nat \<Rightarrow> u8 list" where
  "copy_name dst src n =
     (let str = take (n - 1) (takeWhile (\<lambda>c. c \<noteq> 0) src) @ [0]
      in str @ drop (length str) dst)"

definition bytes_of :: "string \<Rightarrow> u8 list" where
  "bytes_of str = map (\<lambda>c. of_nat (of_char c)) str @ [0]"

section \<open>The current process\<close>

definition myproc :: "'z proc_state_scheme \<Rightarrow> (nat option \<times> 'z proc_state_scheme) res" where
  "myproc s =
     (let y = push_off (sy s); p = cpu_proc (this_cpu y)
      in bind_res (pop_off y) (\<lambda>y. Ok (p, s\<lparr>sy := y\<rparr>)))"

section \<open>Process creation\<close>

definition procinit :: "'z proc_state_scheme \<Rightarrow> 'z proc_state_scheme" where
  "procinit s =
     (let s = s\<lparr>sy := initlock L_wait ''wait_lock'' (initlock L_pid ''pid_lock'' (sy s))\<rparr>
      in fold (\<lambda>p s. upd_proc p (\<lambda>pr. pr\<lparr>p_state := UNUSED, p_kstack := KSTACK (of_nat p), p_priority := 0\<rparr>)
                (s\<lparr>sy := initlock (L_proc p) ''proc'' (sy s)\<rparr>)) [0..<NPROC] s)"

definition allocpid :: "'z proc_state_scheme \<Rightarrow> (i32 \<times> 'z proc_state_scheme) res" where
  "allocpid s =
     bind_res (kacquire L_pid s) (\<lambda>s.
     let pid = nextpid s; s = s\<lparr>nextpid := nextpid s + 1\<rparr> in
     bind_res (krelease L_pid s) (\<lambda>s. Ok (pid, s)))"

definition proc_pagetable :: "nat \<Rightarrow> 'z proc_state_scheme \<Rightarrow> (u64 \<times> 'z proc_state_scheme) res" where
  "proc_pagetable p s =
     bind_res (create_pagetable s) (\<lambda>(pagetable, s).
     if pagetable = 0 then Ok (0, s)
     else
       bind_res (map_page pagetable TRAMPOLINE (ld_trampoline s) PAGESIZE (ucast (PTE_R OR PTE_X)) s) (\<lambda>(r, s).
       if r < 0 then bind_res (destroy_pagetable pagetable s) (\<lambda>s. Ok (0, s))
       else
         bind_res (map_page pagetable TRAPFRAME (p_trapframe (the_proc p s)) PAGESIZE
                     (ucast (PTE_R OR PTE_W)) s) (\<lambda>(r, s).
         if r < 0
         then bind_res (unmap_page pagetable TRAMPOLINE 1 False s) (\<lambda>s.
              bind_res (destroy_pagetable pagetable s) (\<lambda>s. Ok (0, s)))
         else Ok (pagetable, s))))"

definition proc_freepagetable :: "u64 \<Rightarrow> u64 \<Rightarrow> 'z proc_state_scheme \<Rightarrow> 'z proc_state_scheme res" where
  "proc_freepagetable pagetable sz s =
     bind_res (unmap_page pagetable TRAMPOLINE 1 False s) (\<lambda>s.
     bind_res (unmap_page pagetable TRAPFRAME 1 False s) (\<lambda>s.
     destroy_pagetable pagetable s))"

definition freeproc :: "nat \<Rightarrow> 'z proc_state_scheme \<Rightarrow> 'z proc_state_scheme res" where
  "freeproc p s =
     bind_res (if p_trapframe (the_proc p s) \<noteq> 0 then free_page (p_trapframe (the_proc p s)) s else Ok s) (\<lambda>s.
     let s = upd_proc p (p_trapframe_update (\<lambda>_. 0)) s in
     bind_res (if p_pagetable (the_proc p s) \<noteq> 0
               then proc_freepagetable (p_pagetable (the_proc p s)) (p_sz (the_proc p s)) s else Ok s) (\<lambda>s.
     Ok (upd_proc p (\<lambda>pr. pr\<lparr>p_pagetable := 0, p_sz := 0, p_pid := 0, p_parent := None,
           p_name := (p_name pr)[0 := 0], p_chan := None, p_killed := 0, p_xstate := 0,
           p_state := UNUSED\<rparr>) s)))"

text \<open>The search loop of \<open>allocproc\<close>; the lock of the process found stays held.\<close>

primrec find_unused :: "nat list \<Rightarrow> 'z proc_state_scheme \<Rightarrow> (nat option \<times> 'z proc_state_scheme) res" where
  "find_unused [] s = Ok (None, s)"
| "find_unused (p # ps) s =
     bind_res (kacquire (L_proc p) s) (\<lambda>s.
     if p_state (the_proc p s) = UNUSED then Ok (Some p, s)
     else bind_res (krelease (L_proc p) s) (\<lambda>s. find_unused ps s))"

definition allocproc :: "'z proc_state_scheme \<Rightarrow> (nat option \<times> 'z proc_state_scheme) res" where
  "allocproc s =
     bind_res (find_unused [0..<NPROC] s) (\<lambda>(f, s).
     case f of
       None \<Rightarrow> Ok (None, s)
     | Some p \<Rightarrow>
         bind_res (allocpid s) (\<lambda>(pid, s).
         let s = upd_proc p (\<lambda>pr. pr\<lparr>p_pid := pid, p_state := USED\<rparr>) s in
         bind_res (alloc_page s) (\<lambda>(tf, s).
         let s = upd_proc p (p_trapframe_update (\<lambda>_. tf)) s in
         if tf = 0
         then bind_res (freeproc p s) (\<lambda>s.
              bind_res (krelease (L_proc p) s) (\<lambda>s. Ok (None, s)))
         else
           bind_res (proc_pagetable p s) (\<lambda>(pt, s).
           let s = upd_proc p (p_pagetable_update (\<lambda>_. pt)) s in
           if pt = 0
           then bind_res (freeproc p s) (\<lambda>s.
                bind_res (krelease (L_proc p) s) (\<lambda>s. Ok (None, s)))
           else Ok (Some p, upd_proc p (\<lambda>pr. pr\<lparr>p_context := zero_context\<lparr>ctx_ra := ld_forkret s,
                      ctx_sp := p_kstack pr + PAGESIZE\<rparr>\<rparr>) s)))))"

definition userinit :: "'z proc_state_scheme \<Rightarrow> 'z proc_state_scheme res" where
  "userinit s =
     bind_res (allocproc s) (\<lambda>(r, s).
     let s = s\<lparr>initproc := r\<rparr> in
     deref r (\<lambda>p.
     bind_res (uvmfirst (p_pagetable (the_proc p s)) (ld_initcode s) 52 s) (\<lambda>s.
     let s = upd_proc p (p_sz_update (\<lambda>_. PAGESIZE)) s;
         tf = p_trapframe (the_proc p s);
         s = s\<lparr>mem := store64 (store64 (mem s) (tf + TF_epc) 0) (tf + TF_sp) PAGESIZE\<rparr>;
         s = upd_proc p (\<lambda>pr. pr\<lparr>p_name := copy_name (p_name pr) (bytes_of ''initcode'') 16,
                                p_state := RUNNABLE\<rparr>) s
     in krelease (L_proc p) s)))"

definition growproc :: "i32 \<Rightarrow> 'z proc_state_scheme \<Rightarrow> (int \<times> 'z proc_state_scheme) res" where
  "growproc n s =
     bind_res (myproc s) (\<lambda>(r, s).
     deref r (\<lambda>p.
     let sz = p_sz (the_proc p s); pt = p_pagetable (the_proc p s) in
     if 0 < sint n
     then bind_res (uvmalloc pt sz (sz + scast n) (ucast PTE_W) s) (\<lambda>(sz, s).
          if sz = 0 then Ok (- 1, s) else Ok (0, upd_proc p (p_sz_update (\<lambda>_. sz)) s))
     else if sint n < 0
     then bind_res (uvmdealloc pt sz (sz + scast n) s) (\<lambda>(sz, s).
          Ok (0, upd_proc p (p_sz_update (\<lambda>_. sz)) s))
     else Ok (0, upd_proc p (p_sz_update (\<lambda>_. sz)) s)))"

definition fork :: "'z proc_state_scheme \<Rightarrow> (i32 \<times> 'z proc_state_scheme) res" where
  "fork s =
     bind_res (myproc s) (\<lambda>(r, s).
     bind_res (allocproc s) (\<lambda>(np, s).
     case np of
       None \<Rightarrow> Ok (- 1, s)
     | Some np \<Rightarrow>
         deref r (\<lambda>p.
         bind_res (uvmcopy (p_pagetable (the_proc p s)) (p_pagetable (the_proc np s))
                     (p_sz (the_proc p s)) s) (\<lambda>(c, s).
         if c < 0
         then bind_res (freeproc np s) (\<lambda>s.
              bind_res (krelease (L_proc np) s) (\<lambda>s. Ok (- 1, s)))
         else
           let s = upd_proc np (p_sz_update (\<lambda>_. p_sz (the_proc p s))) s;
               tf = p_trapframe (the_proc np s);
               m = memmove (mem s) tf (p_trapframe (the_proc p s)) TF_SIZE;
               s = s\<lparr>mem := store64 m (tf + TF_a 0) 0\<rparr>;
               s = upd_proc np (\<lambda>pr. pr\<lparr>p_name := copy_name (p_name pr) (p_name (the_proc p s)) 16\<rparr>) s;
               pid = p_pid (the_proc np s)
           in bind_res (krelease (L_proc np) s) (\<lambda>s.
              bind_res (kacquire L_wait s) (\<lambda>s.
              let s = upd_proc np (p_parent_update (\<lambda>_. Some p)) s in
              bind_res (krelease L_wait s) (\<lambda>s.
              bind_res (kacquire (L_proc np) s) (\<lambda>s.
              let s = upd_proc np (p_state_update (\<lambda>_. RUNNABLE)) s in
              bind_res (krelease (L_proc np) s) (\<lambda>s.
              Ok (pid, s))))))))))"

definition kthread_create :: "u64 \<Rightarrow> 'z proc_state_scheme \<Rightarrow> (i32 \<times> 'z proc_state_scheme) res" where
  "kthread_create func s =
     bind_res (myproc s) (\<lambda>(r, s).
     bind_res (allocproc s) (\<lambda>(np, s).
     case np of
       None \<Rightarrow> Ok (- 1, s)
     | Some np \<Rightarrow>
         let s = upd_proc np (\<lambda>pr. pr\<lparr>p_context := (p_context pr)\<lparr>ctx_ra := ld_kthread_entry s,
                     ctx_s0 := func, ctx_sp := p_kstack pr + PAGESIZE\<rparr>, p_sz := 0,
                     p_name := copy_name (p_name pr) (bytes_of ''kthread'') 16\<rparr>) s;
             pid = p_pid (the_proc np s)
         in bind_res (krelease (L_proc np) s) (\<lambda>s.
            bind_res
              (case r of
                 None \<Rightarrow> Ok s
               | Some p \<Rightarrow>
                   bind_res (kacquire L_wait s) (\<lambda>s.
                   krelease L_wait (upd_proc np (p_parent_update (\<lambda>_. Some p)) s))) (\<lambda>s.
            bind_res (kacquire (L_proc np) s) (\<lambda>s.
            let s = upd_proc np (p_state_update (\<lambda>_. RUNNABLE)) s in
            bind_res (krelease (L_proc np) s) (\<lambda>s. Ok (pid, s)))))))"

definition create_process :: "u64 \<Rightarrow> 'z proc_state_scheme \<Rightarrow> (i32 \<times> 'z proc_state_scheme) res" where
  "create_process entry_fn s =
     bind_res (allocproc s) (\<lambda>(r, s).
     case r of
       None \<Rightarrow> Ok (- 1, s)
     | Some p \<Rightarrow>
         let s = upd_proc p (\<lambda>pr. pr\<lparr>p_context := (p_context pr)\<lparr>ctx_ra := entry_fn\<rparr>,
                     p_name := copy_name (p_name pr) (bytes_of ''process'') 16,
                     p_timeslice := 0, p_timetotal := 0\<rparr>) s
         in bind_res (kacquire (L_proc p) s) (\<lambda>s.
            let s = upd_proc p (p_state_update (\<lambda>_. RUNNABLE)) s in
            bind_res (krelease (L_proc p) s) (\<lambda>s. Ok (p_pid (the_proc p s), s))))"

section \<open>Sleep, wakeup and the switch to the scheduler\<close>

definition sched_out :: "'z proc_state_scheme \<Rightarrow> (u32 \<times> 'z proc_state_scheme) res" where
  "sched_out s =
     bind_res (myproc s) (\<lambda>(r, s).
     deref r (\<lambda>p.
     if \<not> holding (L_proc p) (sy s) then Panic ''sched p->lock''
     else if noff (this_cpu (sy s)) \<noteq> 1 then Panic ''sched locks''
     else if p_state (the_proc p s) = RUNNING then Panic ''sched RUNNING''
     else if intr_get (sy s) then Panic ''sched interruptible''
     else
       let ie = intena (this_cpu (sy s));
           s = upd_proc p (p_context_update (\<lambda>_. regs s)) s
       in Ok (ie, s\<lparr>regs := cpu_context (this_cpu (sy s))\<rparr>)))"

definition sched_in :: "u32 \<Rightarrow> 'z proc_state_scheme \<Rightarrow> 'z proc_state_scheme" where
  "sched_in ie s = s\<lparr>sy := upd_mycpu (intena_update (\<lambda>_. ie)) (sy s)\<rparr>"

definition yield_out :: "'z proc_state_scheme \<Rightarrow> (u32 \<times> 'z proc_state_scheme) res" where
  "yield_out s =
     bind_res (myproc s) (\<lambda>(r, s).
     deref r (\<lambda>p.
     bind_res (kacquire (L_proc p) s) (\<lambda>s.
     sched_out (upd_proc p (p_state_update (\<lambda>_. RUNNABLE)) s))))"

definition yield_in :: "nat \<Rightarrow> u32 \<Rightarrow> 'z proc_state_scheme \<Rightarrow> 'z proc_state_scheme res" where
  "yield_in p ie s = krelease (L_proc p) (sched_in ie s)"

definition sleep_out :: "channel option \<Rightarrow> lockaddr \<Rightarrow> 'z proc_state_scheme \<Rightarrow> (u32 \<times> 'z proc_state_scheme) res" where
  "sleep_out chan lk s =
     bind_res (myproc s) (\<lambda>(r, s).
     deref r (\<lambda>p.
     bind_res (kacquire (L_proc p) s) (\<lambda>s.
     bind_res (krelease lk s) (\<lambda>s.
     sched_out (upd_proc p (\<lambda>pr. pr\<lparr>p_chan := chan, p_state := SLEEPING\<rparr>) s)))))"

definition sleep_in :: "nat \<Rightarrow> lockaddr \<Rightarrow> u32 \<Rightarrow> 'z proc_state_scheme \<Rightarrow> 'z proc_state_scheme res" where
  "sleep_in p lk ie s =
     (let s = upd_proc p (p_chan_update (\<lambda>_. None)) (sched_in ie s) in
      bind_res (krelease (L_proc p) s) (\<lambda>s. kacquire lk s))"

definition wakeup_one :: "channel option \<Rightarrow> nat \<Rightarrow> 'z proc_state_scheme \<Rightarrow> 'z proc_state_scheme res" where
  "wakeup_one chan p s =
     bind_res (myproc s) (\<lambda>(r, s).
     if Some p \<noteq> r
     then bind_res (kacquire (L_proc p) s) (\<lambda>s.
          let s = (if p_state (the_proc p s) = SLEEPING \<and> p_chan (the_proc p s) = chan
                   then upd_proc p (p_state_update (\<lambda>_. RUNNABLE)) s else s)
          in krelease (L_proc p) s)
     else Ok s)"

definition wakeup :: "channel option \<Rightarrow> 'z proc_state_scheme \<Rightarrow> 'z proc_state_scheme res" where
  "wakeup chan s = fold_res (wakeup_one chan) [0..<NPROC] s"

primrec kill_scan :: "i32 \<Rightarrow> nat list \<Rightarrow> 'z proc_state_scheme \<Rightarrow> (int \<times> 'z proc_state_scheme) res" where
  "kill_scan pid [] s = Ok (- 1, s)"
| "kill_scan pid (p # ps) s =
     bind_res (kacquire (L_proc p) s) (\<lambda>s.
     if p_pid (the_proc p s) = pid
     then let s = upd_proc p (p_killed_update (\<lambda>_. 1)) s;
              s = (if p_state (the_proc p s) = SLEEPING
                   then upd_proc p (p_state_update (\<lambda>_. RUNNABLE)) s else s)
          in bind_res (krelease (L_proc p) s) (\<lambda>s. Ok (0, s))
     else bind_res (krelease (L_proc p) s) (\<lambda>s. kill_scan pid ps s))"

definition kill :: "i32 \<Rightarrow> 'z proc_state_scheme \<Rightarrow> (int \<times> 'z proc_state_scheme) res" where
  "kill pid s = kill_scan pid [0..<NPROC] s"

definition setkilled :: "nat \<Rightarrow> 'z proc_state_scheme \<Rightarrow> 'z proc_state_scheme res" where
  "setkilled p s =
     bind_res (kacquire (L_proc p) s) (\<lambda>s.
     krelease (L_proc p) (upd_proc p (p_killed_update (\<lambda>_. 1)) s))"

definition killed :: "nat \<Rightarrow> 'z proc_state_scheme \<Rightarrow> (i32 \<times> 'z proc_state_scheme) res" where
  "killed p s =
     bind_res (kacquire (L_proc p) s) (\<lambda>s.
     let k = p_killed (the_proc p s) in
     bind_res (krelease (L_proc p) s) (\<lambda>s. Ok (k, s)))"

primrec set_priority_scan :: "i32 \<Rightarrow> i32 \<Rightarrow> nat list \<Rightarrow> 'z proc_state_scheme \<Rightarrow> 'z proc_state_scheme res" where
  "set_priority_scan pid pri [] s = Ok s"
| "set_priority_scan pid pri (p # ps) s =
     bind_res (kacquire (L_proc p) s) (\<lambda>s.
     if p_pid (the_proc p s) = pid
     then krelease (L_proc p) (upd_proc p (p_priority_update (\<lambda>_. pri)) s)
     else bind_res (krelease (L_proc p) s) (\<lambda>s. set_priority_scan pid pri ps s))"

definition set_proc_priority :: "i32 \<Rightarrow> i32 \<Rightarrow> 'z proc_state_scheme \<Rightarrow> 'z proc_state_scheme res" where
  "set_proc_priority pid pri s = set_priority_scan pid pri [0..<NPROC] s"

section \<open>Exit and wait\<close>

definition reparent :: "nat option \<Rightarrow> 'z proc_state_scheme \<Rightarrow> 'z proc_state_scheme res" where
  "reparent p s =
     fold_res (\<lambda>pp s.
       if p_parent (the_proc pp s) = p
       then wakeup (map_option C_proc (initproc s)) (upd_proc pp (p_parent_update (\<lambda>_. initproc s)) s)
       else Ok s) [0..<NPROC] s"

text \<open>\<open>exit\<close> up to its switch; should it ever be resumed it panics.\<close>

definition exit_out :: "i32 \<Rightarrow> 'z proc_state_scheme \<Rightarrow> (u32 \<times> 'z proc_state_scheme) res" where
  "exit_out status s =
     bind_res (myproc s) (\<lambda>(r, s).
     if r = initproc s then Panic ''init exiting''
     else
       bind_res (kacquire L_wait s) (\<lambda>s.
       bind_res (reparent r s) (\<lambda>s.
       deref r (\<lambda>p.
       bind_res (wakeup (map_option C_proc (p_parent (the_proc p s))) s) (\<lambda>s.
       bind_res (kacquire (L_proc p) s) (\<lambda>s.
       let s = upd_proc p (\<lambda>pr. pr\<lparr>p_xstate := status, p_state := ZOMBIE\<rparr>) s in
       bind_res (krelease L_wait s) (\<lambda>s. sched_out s)))))))"

text \<open>\<open>exit_process\<close>: \<open>None\<close> when it returns, \<open>Some intena\<close> when it switches away for good.\<close>

definition exit_process :: "nat option \<Rightarrow> i32 \<Rightarrow> 'z proc_state_scheme \<Rightarrow> (u32 option \<times> 'z proc_state_scheme) res" where
  "exit_process r status s =
     (case r of
        None \<Rightarrow> Ok (None, s)
      | Some p \<Rightarrow>
          if Some p = initproc s then Panic ''init exiting''
          else
            bind_res (kacquire L_wait s) (\<lambda>s.
            bind_res (reparent (Some p) s) (\<lambda>s.
            bind_res (wakeup (map_option C_proc (p_parent (the_proc p s))) s) (\<lambda>s.
            bind_res (kacquire (L_proc p) s) (\<lambda>s.
            let s = upd_proc p (\<lambda>pr. pr\<lparr>p_xstate := status, p_state := ZOMBIE\<rparr>) s in
            bind_res (krelease L_wait s) (\<lambda>s.
            bind_res (krelease (L_proc p) s) (\<lambda>s.
            bind_res (myproc s) (\<lambda>(cur, s).
            if cur = Some p
            then bind_res (kacquire (L_proc p) s) (\<lambda>s.
                 bind_res (sched_out s) (\<lambda>(ie, s). Ok (Some ie, s)))
            else Ok (None, s)))))))))"

text \<open>
  One pass of \<open>wait\<close> over the table with \<open>wait_lock\<close> held: \<open>Some r\<close> when it returns \<open>r\<close>
  (all locks released), otherwise \<open>havekids\<close>.
\<close>

primrec wait_scan :: "nat option \<Rightarrow> u64 \<Rightarrow> nat list \<Rightarrow> bool \<Rightarrow> 'z proc_state_scheme \<Rightarrow>
    ((i32 option \<times> bool) \<times> 'z proc_state_scheme) res" where
  "wait_scan r addr [] havekids s = Ok ((None, havekids), s)"
| "wait_scan r addr (pp # ps) havekids s =
     (if p_parent (the_proc pp s) = r then
        bind_res (kacquire (L_proc pp) s) (\<lambda>s.
        if p_state (the_proc pp s) = ZOMBIE then
          let pid = p_pid (the_proc pp s) in
          bind_res
            (if addr \<noteq> 0
             then deref r (\<lambda>p.
                  copyout (p_pagetable (the_proc p s)) addr (xstate_addr pp s) 4
                    (s\<lparr>mem := store32 (mem s) (xstate_addr pp s) (p_xstate (the_proc pp s))\<rparr>))
             else Ok (0, s)) (\<lambda>(c, s).
          if c < 0
          then bind_res (krelease (L_proc pp) s) (\<lambda>s.
               bind_res (krelease L_wait s) (\<lambda>s. Ok ((Some (- 1), True), s)))
          else
            bind_res (freeproc pp s) (\<lambda>s.
            bind_res (krelease (L_proc pp) s) (\<lambda>s.
            bind_res (krelease L_wait s) (\<lambda>s. Ok ((Some pid, True), s)))))
        else bind_res (krelease (L_proc pp) s) (\<lambda>s. wait_scan r addr ps True s))
      else wait_scan r addr ps havekids s)"

text \<open>
  One round of the loop of \<open>wait\<close>, entered with \<open>wait_lock\<close> held: it returns a value or
  goes to sleep on the process itself, to start the next round when woken.
\<close>

datatype 'a wait_result = Wait_returns 'a | Wait_sleeps u32

definition wait_round :: "nat option \<Rightarrow> u64 \<Rightarrow> 'z proc_state_scheme \<Rightarrow> (i32 wait_result \<times> 'z proc_state_scheme) res" where
  "wait_round r addr s =
     bind_res (wait_scan r addr [0..<NPROC] False s) (\<lambda>((found, havekids), s).
     case found of
       Some v \<Rightarrow> Ok (Wait_returns v, s)
     | None \<Rightarrow>
         if \<not> havekids
         then bind_res (krelease L_wait s) (\<lambda>s. Ok (Wait_returns (- 1), s))
         else
           deref r (\<lambda>p.
           if p_killed (the_proc p s) \<noteq> 0
           then bind_res (krelease L_wait s) (\<lambda>s. Ok (Wait_returns (- 1), s))
           else bind_res (sleep_out (Some (C_proc p)) L_wait s) (\<lambda>(ie, s). Ok (Wait_sleeps ie, s))))"

definition wait_start :: "u64 \<Rightarrow> 'z proc_state_scheme \<Rightarrow> (i32 wait_result \<times> 'z proc_state_scheme) res" where
  "wait_start addr s =
     bind_res (myproc s) (\<lambda>(r, s).
     bind_res (kacquire L_wait s) (\<lambda>s. wait_round r addr s))"

definition wait_resume :: "nat \<Rightarrow> u64 \<Rightarrow> u32 \<Rightarrow> 'z proc_state_scheme \<Rightarrow> (i32 wait_result \<times> 'z proc_state_scheme) res" where
  "wait_resume p addr ie s =
     bind_res (sleep_in p L_wait ie s) (\<lambda>s. wait_round (Some p) addr s)"

text \<open>\<open>wait_process\<close> has the body of \<open>wait\<close>.\<close>

definition wait_process_start :: "u64 \<Rightarrow> 'z proc_state_scheme \<Rightarrow> (i32 wait_result \<times> 'z proc_state_scheme) res" where
  "wait_process_start addr s =
     bind_res (myproc s) (\<lambda>(r, s).
     bind_res (kacquire L_wait s) (\<lambda>s. wait_round r addr s))"

section \<open>Schedulers\<close>

text \<open>
  One iteration of the inner loop of \<open>scheduler\<close> up to its \<open>swtch\<close>: \<open>True\<close> when process \<open>p\<close>
  now runs (its lock held), \<open>False\<close> when it was not runnable.
\<close>

definition scheduler_try :: "nat \<Rightarrow> 'z proc_state_scheme \<Rightarrow> (bool \<times> 'z proc_state_scheme) res" where
  "scheduler_try p s =
     bind_res (kacquire (L_proc p) s) (\<lambda>s.
     if p_state (the_proc p s) = RUNNABLE
     then let s = upd_proc p (p_state_update (\<lambda>_. RUNNING)) s;
              s = s\<lparr>sy := upd_mycpu (cpu_proc_update (\<lambda>_. Some p)) (sy s)\<rparr>;
              s = s\<lparr>sy := upd_mycpu (cpu_context_update (\<lambda>_. regs s)) (sy s)\<rparr>
          in Ok (True, s\<lparr>regs := p_context (the_proc p s)\<rparr>)
     else bind_res (krelease (L_proc p) s) (\<lambda>s. Ok (False, s)))"

text \<open>The rest of the iteration, when the process has switched back.\<close>

definition scheduler_back :: "nat \<Rightarrow> 'z proc_state_scheme \<Rightarrow> 'z proc_state_scheme res" where
  "scheduler_back p s =
     krelease (L_proc p) (s\<lparr>sy := upd_mycpu (cpu_proc_update (\<lambda>_. None)) (sy s)\<rparr>)"

text \<open>The selection loop of \<open>scheduler_priority\<close>.\<close>

primrec select_priority :: "nat list \<Rightarrow> nat option \<Rightarrow> i32 \<Rightarrow> 'z proc_state_scheme \<Rightarrow>
    (nat option \<times> 'z proc_state_scheme) res" where
  "select_priority [] chosen highest s = Ok (chosen, s)"
| "select_priority (p # ps) chosen highest s =
     bind_res (kacquire (L_proc p) s) (\<lambda>s.
     let (chosen, highest) =
           (if p_state (the_proc p s) = RUNNABLE \<and> sint highest < sint (p_priority (the_proc p s))
            then (Some p, p_priority (the_proc p s)) else (chosen, highest))
     in bind_res (krelease (L_proc p) s) (\<lambda>s. select_priority ps chosen highest s))"

text \<open>
  One round of \<open>scheduler_priority\<close> up to its \<open>swtch\<close>: \<open>None\<close> when the scheduler returns,
  \<open>Some (p, True)\<close> when it switched to \<open>p\<close>, \<open>Some (p, False)\<close> when \<open>p\<close> was not runnable
  any more.
\<close>

definition scheduler_priority_round :: "'z proc_state_scheme \<Rightarrow> ((nat \<times> bool) option \<times> 'z proc_state_scheme) res" where
  "scheduler_priority_round s =
     bind_res (select_priority [0..<NPROC] None (- 1) (s\<lparr>sy := intr_on (sy s)\<rparr>)) (\<lambda>(chosen, s).
     case chosen of
       None \<Rightarrow> Ok (None, s)
     | Some p \<Rightarrow>
         bind_res (kacquire (L_proc p) s) (\<lambda>s.
         if p_state (the_proc p s) = RUNNABLE
         then
           let s = upd_proc p (p_state_update (\<lambda>_. RUNNING)) s;
               s = s\<lparr>sy := upd_mycpu (cpu_proc_update (\<lambda>_. Some p)) (sy s)\<rparr>;
               s = upd_proc p (\<lambda>pr. pr\<lparr>p_priority := p_priority pr - 3\<rparr>) s
           in bind_res (krelease (L_proc p) s) (\<lambda>s.
              Ok (Some (p, True), s\<lparr>sched_ctx := regs s, regs := p_context (the_proc p s)\<rparr>))
         else bind_res (krelease (L_proc p) s) (\<lambda>s. Ok (Some (p, False), s))))"

text \<open>The selection loop of \<open>scheduler_rotate\<close>, over the offsets \<open>i\<close> from \<open>rr_idx\<close>.\<close>

primrec select_rotate :: "nat list \<Rightarrow> 'z proc_state_scheme \<Rightarrow> (nat option \<times> 'z proc_state_scheme) res" where
  "select_rotate [] s = Ok (None, s)"
| "select_rotate (i # is) s =
     (let idx = (unat (rr_idx s) + i) mod NPROC in
      bind_res (kacquire (L_proc idx) s) (\<lambda>s.
      if p_state (the_proc idx s) = RUNNABLE
      then let s = s\<lparr>rr_idx := of_nat ((idx + 1) mod NPROC)\<rparr> in
           bind_res (krelease (L_proc idx) s) (\<lambda>s. Ok (Some idx, s))
      else bind_res (krelease (L_proc idx) s) (\<lambda>s. select_rotate is s)))"

definition scheduler_rotate_round :: "'z proc_state_scheme \<Rightarrow> ((nat \<times> bool) option \<times> 'z proc_state_scheme) res" where
  "scheduler_rotate_round s =
     bind_res (select_rotate [0..<NPROC] (s\<lparr>sy := intr_on (sy s)\<rparr>)) (\<lambda>(chosen, s).
     case chosen of
       None \<Rightarrow> Ok (None, s)
     | Some p \<Rightarrow>
         bind_res (kacquire (L_proc p) s) (\<lambda>s.
         if p_state (the_proc p s) = RUNNABLE
         then
           let s = upd_proc p (p_state_update (\<lambda>_. RUNNING)) s;
               s = s\<lparr>sy := upd_mycpu (cpu_proc_update (\<lambda>_. Some p)) (sy s)\<rparr>
           in bind_res (krelease (L_proc p) s) (\<lambda>s.
              Ok (Some (p, True), s\<lparr>sched_ctx := regs s, regs := p_context (the_proc p s)\<rparr>))
         else bind_res (krelease (L_proc p) s) (\<lambda>s. Ok (Some (p, False), s))))"

text \<open>The head of \<open>scheduler\<close>, and the top of its loop.\<close>

definition scheduler_init :: "'z proc_state_scheme \<Rightarrow> 'z proc_state_scheme" where
  "scheduler_init s = s\<lparr>sy := upd_mycpu (cpu_proc_update (\<lambda>_. None)) (sy s)\<rparr>"

definition scheduler_top :: "'z proc_state_scheme \<Rightarrow> 'z proc_state_scheme" where
  "scheduler_top s = s\<lparr>sy := intr_on (sy s)\<rparr>"

text \<open>
  What \<open>scheduler_priority\<close> and \<open>scheduler_rotate\<close> do when the process they switched to
  has come back.
\<close>

definition scheduler_ctx_back :: "'z proc_state_scheme \<Rightarrow> 'z proc_state_scheme" where
  "scheduler_ctx_back s = s\<lparr>sy := upd_mycpu (cpu_proc_update (\<lambda>_. None)) (sy s)\<rparr>"

text \<open>The first actions of a process that runs for the first time (\<open>forkret\<close>, \<open>kthread_entry\<close>).\<close>

definition forkret_start :: "'z proc_state_scheme \<Rightarrow> 'z proc_state_scheme res" where
  "forkret_start s =
     bind_res (myproc s) (\<lambda>(p, s).
     bind_res (myproc s) (\<lambda>(r, s).
     deref r (\<lambda>p. krelease (L_proc p) s)))"

definition kthread_entry_start :: "'z proc_state_scheme \<Rightarrow> (u64 \<times> 'z proc_state_scheme) res" where
  "kthread_entry_start s =
     (let func = ctx_s0 (regs s) in
      bind_res (myproc s) (\<lambda>(r, s).
      deref r (\<lambda>p. bind_res (krelease (L_proc p) s) (\<lambda>s. Ok (func, s)))))"

section \<open>User memory of the current process (vm.c)\<close>

definition either_copyout :: "bool \<Rightarrow> u64 \<Rightarrow> u64 \<Rightarrow> u64 \<Rightarrow> 'z proc_state_scheme \<Rightarrow> (int \<times> 'z proc_state_scheme) res" where
  "either_copyout user_dst dst src len s =
     bind_res (myproc s) (\<lambda>(r, s).
     if user_dst then deref r (\<lambda>p. copyout (p_pagetable (the_proc p s)) dst src len s)
     else Ok (0, s\<lparr>mem := memmove (mem s) dst src (ucast len)\<rparr>))"

definition either_copyin :: "u64 \<Rightarrow> bool \<Rightarrow> u64 \<Rightarrow> u64 \<Rightarrow> 'z proc_state_scheme \<Rightarrow> (int \<times> 'z proc_state_scheme) res" where
  "either_copyin dst user_src src len s =
     bind_res (myproc s) (\<lambda>(r, s).
     if user_src then deref r (\<lambda>p. copyin (p_pagetable (the_proc p s)) dst src len s)
     else Ok (0, s\<lparr>mem := memmove (mem s) dst src (ucast len)\<rparr>))"

definition vmfault :: "u64 \<Rightarrow> u64 \<Rightarrow> 'z proc_state_scheme \<Rightarrow> (u64 \<times> 'z proc_state_scheme) res" where
  "vmfault pagetable va s =
     bind_res (myproc s) (\<lambda>(r, s).
     deref r (\<lambda>p.
     if p_sz (the_proc p s) \<le> va then Ok (0, s)
     else
       let va = PAGEROUNDDOWN va in
       bind_res (ismapped pagetable va s) (\<lambda>(b, s).
       if b then Ok (0, s)
       else
         bind_res (alloc_page s) (\<lambda>(pg, s).
         if pg = 0 then Ok (0, s)
         else
           bind_res (map_page (p_pagetable (the_proc p s)) va pg PAGESIZE
                       (ucast (PTE_W OR PTE_U OR PTE_R))
                       (s\<lparr>mem := memset (mem s) pg 0 (ucast PAGESIZE)\<rparr>)) (\<lambda>(c, s).
           if c \<noteq> 0 then bind_res (free_page pg s) (\<lambda>s. Ok (0, s))
           else Ok (pg, s))))))"

end
