(* ===== verification/Sched.thy ===== *)
theory Sched
  imports Proc
begin

text \<open>
  Theorems about kernel/proc/proc.c: the process table as a state machine. Each operation
  is first shown to be a plain update of the table (the lock sections disappear), then
  the properties follow: what wakeup, kill and the scheduler change, that a sleeper
  is woken, that at most one process runs.
\<close>

section \<open>The current process and sections under a process lock\<close>

abbreviation curproc :: "'z machine_scheme \<Rightarrow> nat option" where
  "curproc s \<equiv> cpu_proc (this_cpu (sy s))"

lemma myproc_eq:
  assumes "wf_sync (Suc d) (sy s)"
  shows "myproc s = Ok (curproc s, s\<lparr>sy := settled (sy s)\<rparr>)"
proof -
  have "pop_off (push_off (sy s)) = Ok (settled (sy s))"
    using pop_push_off[OF assms, of "locks (sy s)"] by (simp add: push_off_locks settled_locks)
  then show ?thesis using push_off_cpu[OF wf_syncD(1)[OF assms]] by (simp add: myproc_def Let_def)
qed

lemma this_cpu_settled [simp]: "cpu_proc (cpus (settled y) ! mycpu y) = cpu_proc (this_cpu y)"
  by simp

lemma cpu_proc_took [simp]:
  assumes "wf_sync (Suc d) y"
  shows "cpu_proc (cpus (took lk y) ! mycpu y) = cpu_proc (this_cpu y)"
  using push_off_cpu[OF wf_syncD(1)[OF assms]] by (simp add: took_def Let_def)

text \<open>Every process lock but possibly that of the current process is free.\<close>

definition others_free :: "sync \<Rightarrow> bool" where
  "others_free y \<longleftrightarrow> (\<forall>i < NPROC. Some i \<noteq> cpu_proc (this_cpu y) \<longrightarrow> lock_free (L_proc i) y)"

lemma others_free_settled [simp]: "others_free (settled y) = others_free y"
  by (simp add: others_free_def)

section \<open>wakeup\<close>

definition wake :: "channel option \<Rightarrow> nat option \<Rightarrow> nat \<Rightarrow> proc \<Rightarrow> proc" where
  "wake chan cur i pr = (if Some i \<noteq> cur \<and> p_state pr = SLEEPING \<and> p_chan pr = chan
     then pr\<lparr>p_state := RUNNABLE\<rparr> else pr)"

text \<open>The process table after \<open>wakeup(chan)\<close>.\<close>

definition woken :: "channel option \<Rightarrow> nat option \<Rightarrow> proc list \<Rightarrow> proc list" where
  "woken chan cur pt = map (\<lambda>i. wake chan cur i (pt ! i)) [0..<length pt]"

lemma length_woken [simp]: "length (woken chan cur pt) = length pt"
  by (simp add: woken_def)

lemma nth_woken: "i < length pt \<Longrightarrow> woken chan cur pt ! i = wake chan cur i (pt ! i)"
  by (simp add: woken_def)

lemma wake_simps [simp]:
  "p_pid (wake chan cur i pr) = p_pid pr" "p_chan (wake chan cur i pr) = p_chan pr"
  "p_killed (wake chan cur i pr) = p_killed pr" "p_pagetable (wake chan cur i pr) = p_pagetable pr"
  "p_parent (wake chan cur i pr) = p_parent pr" "p_sz (wake chan cur i pr) = p_sz pr"
  by (simp_all add: wake_def)

lemma wakeup_one_eq:
  assumes "wf_sync 1 (sy s)" "Some p \<noteq> curproc s \<Longrightarrow> lock_free (L_proc p) (sy s)"
  shows "wakeup_one chan p s =
    Ok (s\<lparr>sy := settled (sy s), ptable := (ptable s)[p := wake chan (curproc s) p (the_proc p s)]\<rparr>)"
proof (cases "Some p = curproc s")
  case True
  then show ?thesis
    using myproc_eq[of 0 s] assms(1) by (simp add: wakeup_one_def wake_def)
next
  case False
  let ?y = "settled (sy s)"
  have y: "wf_sync (Suc 0) ?y" "lock_free (L_proc p) ?y" using assms False by simp_all
  have idem: "settled ?y = ?y" using settled_settled wf_syncD(1)[OF assms(1)] .
  show ?thesis
    using False myproc_eq[of 0 s] assms(1) kacquire_free[of "L_proc p" "s\<lparr>sy := ?y\<rparr>"] y
    by (simp add: wakeup_one_def wake_def upd_proc_def Let_def krelease_took[OF _ y] idem)
qed

lemma wakeup_eq:
  assumes "wf_sync 1 (sy s)" "others_free (sy s)" "length (ptable s) = NPROC"
  shows "wakeup chan s = Ok (s\<lparr>sy := settled (sy s), ptable := woken chan (curproc s) (ptable s)\<rparr>)"
proof -
  define tab where "tab k = map (\<lambda>i. if i < k then wake chan (curproc s) i (the_proc i s) else the_proc i s) [0..<NPROC]" for k
  define st where "st k = s\<lparr>sy := (if k = 0 then sy s else settled (sy s)), ptable := tab k\<rparr>" for k
  have step: "wakeup_one chan k (st k) = Ok (st (Suc k))" if "k < NPROC" for k
  proof -
    have "wf_sync 1 (sy (st k))" "lock_free (L_proc k) (sy (st k))" if "Some k \<noteq> curproc s"
      using assms \<open>k < NPROC\<close> that by (auto simp: st_def others_free_def)
    moreover have "wf_sync 1 (sy (st k))" using assms by (simp add: st_def)
    moreover have "curproc (st k) = curproc s" by (simp add: st_def)
    moreover have "settled (sy (st k)) = settled (sy s)"
      using settled_settled wf_syncD(1)[OF assms(1)] by (simp add: st_def)
    moreover have "(tab k)[k := wake chan (curproc s) k (tab k ! k)] = tab (Suc k)"
      using that by (intro nth_equalityI) (auto simp: tab_def nth_list_update less_Suc_eq)
    ultimately show ?thesis using wakeup_one_eq[of "st k" k chan] by (simp add: st_def)
  qed
  have "st 0 = s" using assms(3) by (simp add: st_def tab_def map_nth flip: assms(3))
  then have "\<exists>s'. wakeup chan s = Ok s' \<and> s' = st NPROC"
    using fold_res_upt[of "\<lambda>k t. t = st k" s NPROC "wakeup_one chan"] step by (simp add: wakeup_def)
  moreover have "tab NPROC = woken chan (curproc s) (ptable s)"
    using assms(3) by (auto simp: tab_def woken_def)
  ultimately show ?thesis by (simp add: st_def NPROC_def)
qed

text \<open>
  C26. wakeup(chan) never panics when the other processes' locks are free. It makes
  RUNNABLE exactly the processes other than the caller that sleep on chan, and changes
  nothing else of the process table.
\<close>

theorem wakeup_wakes_sleepers:
  assumes "wf_sync 1 (sy s)" "others_free (sy s)" "length (ptable s) = NPROC"
  shows "\<exists>s'. wakeup chan s = Ok s' \<and> length (ptable s') = NPROC \<and> mem s' = mem s
    \<and> (\<forall>i < NPROC. the_proc i s' =
         (if Some i \<noteq> curproc s \<and> p_state (the_proc i s) = SLEEPING \<and> p_chan (the_proc i s) = chan
          then (the_proc i s)\<lparr>p_state := RUNNABLE\<rparr> else the_proc i s))"
  using wakeup_eq[OF assms, of chan] assms(3) by (simp add: nth_woken wake_def)

section \<open>kill\<close>

lemma proc_section:
  assumes "wf_sync (Suc d) (sy s)" "lock_free lk (sy s)"
  shows "kacquire lk s = Ok (s\<lparr>sy := took lk (sy s)\<rparr>)"
    "sy t = took lk (sy s) \<Longrightarrow> krelease lk t = Ok (t\<lparr>sy := settled (sy s)\<rparr>)"
  using kacquire_free[OF assms(2)] krelease_took[OF _ assms] by auto

lemma kill_scan_eq:
  assumes "wf_sync 1 (sy s)" "\<forall>i \<in> set ps. i < length (ptable s) \<and> lock_free (L_proc i) (sy s)"
  shows "kill_scan pid ps s =
    (case find (\<lambda>i. p_pid (the_proc i s) = pid) ps of
       None \<Rightarrow> Ok (- 1, if ps = [] then s else s\<lparr>sy := settled (sy s)\<rparr>)
     | Some i \<Rightarrow> Ok (0, upd_proc i (\<lambda>pr. pr\<lparr>p_killed := 1,
           p_state := (if p_state pr = SLEEPING then RUNNABLE else p_state pr)\<rparr>) (s\<lparr>sy := settled (sy s)\<rparr>)))"
  using assms
proof (induction ps arbitrary: s)
  case (Cons q ps)
  have lf: "wf_sync (Suc 0) (sy s)" "lock_free (L_proc q) (sy s)" "q < length (ptable s)"
    using Cons.prems by auto
  have idem: "settled (settled (sy s)) = settled (sy s)" using settled_settled wf_syncD(1)[OF lf(1)] .
  show ?case
  proof (cases "p_pid (the_proc q s) = pid")
    case True
    then show ?thesis using lf(3) by (simp add: upd_proc_def Let_def proc_section[OF lf(1,2)])
  next
    case False
    then show ?thesis
      using Cons.IH[of "s\<lparr>sy := settled (sy s)\<rparr>"] Cons.prems idem
      by (simp add: Let_def upd_proc_def proc_section[OF lf(1,2)] split: option.split)
  qed
qed simp

section \<open>Operations on states with known held locks\<close>

text \<open>Updates of independent fields commute; \<open>sy\<close> goes first.\<close>

lemma sy_first:
  "sy_update f (ptable_update g s) = ptable_update g (sy_update f s)"
  "sy_update f (regs_update h s) = regs_update h (sy_update f s)"
  "ptable_update g (regs_update h s) = regs_update h (ptable_update g s)"
  by simp_all

abbreviation kheld :: "lockaddr set \<Rightarrow> 'z machine_scheme \<Rightarrow> bool" where
  "kheld H s \<equiv> held H (sy s)"

text \<open>Only the locks, the interrupt state and the nesting depth differ.\<close>

definition sync_only :: "'z machine_scheme \<Rightarrow> 'z machine_scheme \<Rightarrow> bool" where
  "sync_only s s' \<longleftrightarrow> s' = s\<lparr>sy := sy s'\<rparr> \<and> curproc s' = curproc s \<and> mycpu (sy s') = mycpu (sy s)
     \<and> cpu_context (this_cpu (sy s')) = cpu_context (this_cpu (sy s))"

lemma kacquire_held:
  assumes "kheld H s" "l \<notin> H" "card H < 99"
  shows "\<exists>y. kacquire l s = Ok (s\<lparr>sy := y\<rparr>) \<and> held (insert l H) y
    \<and> cpu_proc (this_cpu y) = curproc s \<and> mycpu y = mycpu (sy s)
    \<and> cpu_context (this_cpu y) = cpu_context (this_cpu (sy s))"
  using acquire_held[OF assms] by (auto simp: kacquire_def)

lemma krelease_held:
  assumes "kheld H s" "l \<in> H"
  shows "\<exists>y. krelease l s = Ok (s\<lparr>sy := y\<rparr>) \<and> held (H - {l}) y
    \<and> cpu_proc (this_cpu y) = curproc s \<and> mycpu y = mycpu (sy s)
    \<and> cpu_context (this_cpu y) = cpu_context (this_cpu (sy s))"
  using release_held[OF assms] by (auto simp: krelease_def)

lemma myproc_held:
  assumes "kheld H s"
  shows "\<exists>y. myproc s = Ok (curproc s, s\<lparr>sy := y\<rparr>) \<and> held H y
    \<and> cpu_proc (this_cpu y) = curproc s \<and> mycpu y = mycpu (sy s)
    \<and> cpu_context (this_cpu y) = cpu_context (this_cpu (sy s))"
proof -
  have "cpu_context (this_cpu (settled (sy s))) = cpu_context (this_cpu (sy s))"
    using heldD(1)[OF assms] by (simp add: settled_def)
  then show ?thesis
    using myproc_eq[of 0 s] held_wf_sync[OF assms, of "Suc 0"] held_settled[OF assms] by auto
qed

text \<open>
  A process gives up the CPU: the switch of \<open>sched\<close> with only its own lock held, and the
  end of the scheduler's iteration.
\<close>

lemma switch_out:
  assumes "kheld {L_proc p} s" "curproc s = Some p" "p < length (ptable s)" "p_state (the_proc p s) \<noteq> RUNNING"
  shows "\<exists>ie s1 y. sched_out s = Ok (ie, s1) \<and> scheduler_back p s1 =
      Ok (s\<lparr>sy := y, ptable := (ptable s)[p := (the_proc p s)\<lparr>p_context := regs s\<rparr>],
            regs := cpu_context (this_cpu (sy s))\<rparr>)
    \<and> held {} y \<and> cpu_proc (this_cpu y) = None \<and> mycpu y = mycpu (sy s)"
proof -
  obtain y1 where y1: "myproc s = Ok (Some p, s\<lparr>sy := y1\<rparr>)" "held {L_proc p} y1"
      "cpu_proc (this_cpu y1) = Some p" "mycpu y1 = mycpu (sy s)"
      "cpu_context (this_cpu y1) = cpu_context (this_cpu (sy s))"
    using myproc_held[OF assms(1)] assms(2) by auto
  note h = heldD[OF y1(2)]
  have out: "sched_out s = Ok (intena (this_cpu y1), s\<lparr>sy := y1, ptable := (ptable s)[p := (the_proc p s)\<lparr>p_context := regs s\<rparr>],
      regs := cpu_context (this_cpu (sy s))\<rparr>)"
    using y1 assms(4) h(6) h(8) h(10)[of "L_proc p"] by (simp add: sched_out_def deref_def upd_proc_def Let_def)
  let ?y = "upd_mycpu (cpu_proc_update (\<lambda>_. None)) y1"
  have "held {L_proc p} ?y" using held_upd_mycpu[OF y1(2)] by simp
  then obtain y2 where y2: "release (L_proc p) ?y = Ok y2" "held {} y2"
      "cpu_proc (this_cpu y2) = cpu_proc (this_cpu ?y)" "mycpu y2 = mycpu ?y"
    using release_held[of "{L_proc p}" ?y "L_proc p"] by auto
  have "cpu_proc (this_cpu ?y) = None" using h(1) by simp
  then show ?thesis using out y2 y1(4)
    by (auto intro!: exI[of _ y2] simp: scheduler_back_def krelease_def)
qed

section \<open>The process table as a state machine\<close>

text \<open>
  The saved kernel stack of a process that does not run, as far as the switch matters:
  where it continues when the scheduler switches to it.
\<close>

datatype resume_point = Fresh | In_yield u32 | In_sleep lockaddr u32

type_synonym 'z config = "'z proc_state_scheme \<times> (nat \<Rightarrow> resume_point)"

text \<open>A sleeper re-acquires its condition lock, finds its condition and releases the lock.\<close>

primrec resume_at :: "nat \<Rightarrow> resume_point \<Rightarrow> 'z proc_state_scheme \<Rightarrow> 'z proc_state_scheme res" where
  "resume_at p Fresh s = forkret_start s"
| "resume_at p (In_yield ie) s = yield_in p ie s"
| "resume_at p (In_sleep lk ie) s = bind_res (sleep_in p lk ie s) (krelease lk)"

datatype kop = Dispatch nat | Yield | Sleep channel lockaddr | Wakeup channel | Kill i32 | Exit i32

primrec kop_run :: "kop \<Rightarrow> 'z config \<Rightarrow> 'z config res" where
  "kop_run (Dispatch p) k =
     bind_res (scheduler_try p (fst k)) (\<lambda>(ran, s).
     if ran then bind_res (resume_at p (snd k p) s) (\<lambda>s. Ok (s, snd k)) else Ok (s, snd k))"
| "kop_run Yield k =
     deref (curproc (fst k)) (\<lambda>p.
     bind_res (yield_out (fst k)) (\<lambda>(ie, s).
     bind_res (scheduler_back p s) (\<lambda>s. Ok (s, (snd k)(p := In_yield ie)))))"
| "kop_run (Sleep chan lk) k =
     deref (curproc (fst k)) (\<lambda>p.
     bind_res (kacquire lk (fst k)) (\<lambda>s.
     bind_res (sleep_out (Some chan) lk s) (\<lambda>(ie, s).
     bind_res (scheduler_back p s) (\<lambda>s. Ok (s, (snd k)(p := In_sleep lk ie))))))"
| "kop_run (Wakeup chan) k = bind_res (wakeup (Some chan) (fst k)) (\<lambda>s. Ok (s, snd k))"
| "kop_run (Kill pid) k = bind_res (kill pid (fst k)) (\<lambda>(r, s). Ok (s, snd k))"
| "kop_run (Exit st) k =
     deref (curproc (fst k)) (\<lambda>p.
     bind_res (exit_out st (fst k)) (\<lambda>(ie, s).
     bind_res (scheduler_back p s) (\<lambda>s. Ok (s, snd k))))"

primrec enabled :: "kop \<Rightarrow> 'z config \<Rightarrow> bool" where
  "enabled (Dispatch p) k \<longleftrightarrow> curproc (fst k) = None \<and> p < NPROC"
| "enabled Yield k \<longleftrightarrow> curproc (fst k) \<noteq> None"
| "enabled (Sleep chan lk) k \<longleftrightarrow> curproc (fst k) \<noteq> None \<and> lk \<notin> range L_proc"
| "enabled (Wakeup chan) k \<longleftrightarrow> True"
| "enabled (Kill pid) k \<longleftrightarrow> True"
| "enabled (Exit st) k \<longleftrightarrow> curproc (fst k) \<noteq> None \<and> curproc (fst k) \<noteq> initproc (fst k)"

inductive kreach :: "'z config \<Rightarrow> 'z config \<Rightarrow> bool" for k0 where
  start: "kreach k0 k0"
| step: "kreach k0 k \<Longrightarrow> enabled op k \<Longrightarrow> kop_run op k = Ok k' \<Longrightarrow> kreach k0 k'"

definition tab_ok :: "nat option \<Rightarrow> proc list \<Rightarrow> bool" where
  "tab_ok cur pt \<longleftrightarrow> length pt = NPROC \<and> (\<forall>p. cur = Some p \<longrightarrow> p < NPROC)
     \<and> (\<forall>i < NPROC. p_state (pt ! i) = RUNNING \<longleftrightarrow> cur = Some i)"

definition resume_ok :: "resume_point \<Rightarrow> bool" where
  "resume_ok r = (case r of In_sleep lk ie \<Rightarrow> lk \<notin> range L_proc | _ \<Rightarrow> True)"

definition kinv :: "'z config \<Rightarrow> bool" where
  "kinv k \<longleftrightarrow> kheld {} (fst k) \<and> tab_ok (curproc (fst k)) (ptable (fst k))
     \<and> (\<forall>i. resume_ok (snd k i))"

lemma tab_ok_update:
  assumes "tab_ok cur pt" "p < NPROC" "(p_state pr = RUNNING) = (cur' = Some p)"
    "\<And>i. i < NPROC \<Longrightarrow> i \<noteq> p \<Longrightarrow> (cur = Some i) = (cur' = Some i)" "\<And>i. cur' = Some i \<Longrightarrow> i < NPROC"
  shows "tab_ok cur' (pt[p := pr])"
  using assms by (auto simp: tab_ok_def nth_list_update)

lemma tab_ok_woken: "tab_ok cur pt \<Longrightarrow> tab_ok cur (woken chan cur pt)"
  by (auto simp: tab_ok_def nth_woken wake_def)

lemma others_free_held: "held H y \<Longrightarrow> (\<And>i. L_proc i \<notin> H) \<Longrightarrow> others_free y"
  by (auto simp: others_free_def intro: heldD(9))

lemma wakeup_held:
  assumes "kheld H s" "\<And>i. L_proc i \<notin> H" "length (ptable s) = NPROC"
  shows "\<exists>y. wakeup chan s = Ok (s\<lparr>sy := y, ptable := woken chan (curproc s) (ptable s)\<rparr>)
    \<and> held H y \<and> cpu_proc (this_cpu y) = curproc s \<and> mycpu y = mycpu (sy s)
    \<and> cpu_context (this_cpu y) = cpu_context (this_cpu (sy s))"
proof -
  have "cpu_context (this_cpu (settled (sy s))) = cpu_context (this_cpu (sy s))"
    using heldD(1)[OF assms(1)] by (simp add: settled_def)
  then show ?thesis
    using wakeup_eq[OF held_wf_sync[OF assms(1)] others_free_held[OF assms(1,2)] assms(3)]
      held_settled[OF assms(1)] by auto
qed

lemma yield_step:
  assumes "kheld {} s" "curproc s = Some p" "p < length (ptable s)"
  shows "\<exists>ie y. kop_run Yield (s, c) = Ok (s\<lparr>sy := y,
      ptable := (ptable s)[p := (the_proc p s)\<lparr>p_state := RUNNABLE, p_context := regs s\<rparr>],
      regs := cpu_context (this_cpu (sy s))\<rparr>, c(p := In_yield ie))
    \<and> held {} y \<and> cpu_proc (this_cpu y) = None \<and> mycpu y = mycpu (sy s)"
proof -
  obtain y1 where y1: "myproc s = Ok (Some p, s\<lparr>sy := y1\<rparr>)" "held {} y1" "cpu_proc (this_cpu y1) = Some p"
      "mycpu y1 = mycpu (sy s)" "cpu_context (this_cpu y1) = cpu_context (this_cpu (sy s))"
    using myproc_held[OF assms(1)] assms(2) by auto
  obtain y2 where y2: "kacquire (L_proc p) (s\<lparr>sy := y1\<rparr>) = Ok (s\<lparr>sy := y2\<rparr>)" "held {L_proc p} y2"
      "cpu_proc (this_cpu y2) = Some p" "mycpu y2 = mycpu (sy s)"
      "cpu_context (this_cpu y2) = cpu_context (this_cpu (sy s))"
    using kacquire_held[of "{}" "s\<lparr>sy := y1\<rparr>" "L_proc p"] y1 by auto
  let ?s = "upd_proc p (p_state_update (\<lambda>_. RUNNABLE)) (s\<lparr>sy := y2\<rparr>)"
  obtain ie s1 y3 where "sched_out ?s = Ok (ie, s1)"
      "scheduler_back p s1 = Ok (?s\<lparr>sy := y3, ptable := (ptable ?s)[p := (the_proc p ?s)\<lparr>p_context := regs ?s\<rparr>],
            regs := cpu_context (this_cpu (sy ?s))\<rparr>)"
      "held {} y3" "cpu_proc (this_cpu y3) = None" "mycpu y3 = mycpu (sy ?s)"
    using switch_out[of p ?s] y2 assms(3) by (auto simp: upd_proc_def)
  then show ?thesis using y1 y2 assms(2,3)
    by (intro exI[of _ ie] exI[of _ y3]) (simp add: yield_out_def deref_def upd_proc_def)
qed

lemma sleep_step:
  assumes "kheld {} s" "curproc s = Some p" "p < length (ptable s)" "lk \<notin> range L_proc"
  shows "\<exists>ie y. kop_run (Sleep chan lk) (s, c) = Ok (s\<lparr>sy := y,
      ptable := (ptable s)[p := (the_proc p s)\<lparr>p_chan := Some chan, p_state := SLEEPING, p_context := regs s\<rparr>],
      regs := cpu_context (this_cpu (sy s))\<rparr>, c(p := In_sleep lk ie))
    \<and> held {} y \<and> cpu_proc (this_cpu y) = None \<and> mycpu y = mycpu (sy s)"
proof -
  have ne: "L_proc p \<noteq> lk" using assms(4) by auto
  obtain y0 where y0: "kacquire lk s = Ok (s\<lparr>sy := y0\<rparr>)" "held {lk} y0"
      "cpu_proc (this_cpu y0) = Some p" "mycpu y0 = mycpu (sy s)"
      "cpu_context (this_cpu y0) = cpu_context (this_cpu (sy s))"
    using kacquire_held[OF assms(1), of lk] assms(2) by auto
  obtain y1 where y1: "myproc (s\<lparr>sy := y0\<rparr>) = Ok (Some p, s\<lparr>sy := y1\<rparr>)" "held {lk} y1"
      "cpu_proc (this_cpu y1) = Some p" "mycpu y1 = mycpu (sy s)"
      "cpu_context (this_cpu y1) = cpu_context (this_cpu (sy s))"
    using myproc_held[of "{lk}" "s\<lparr>sy := y0\<rparr>"] y0 by auto
  obtain y2 where y2: "kacquire (L_proc p) (s\<lparr>sy := y1\<rparr>) = Ok (s\<lparr>sy := y2\<rparr>)" "held {L_proc p, lk} y2"
      "cpu_proc (this_cpu y2) = Some p" "mycpu y2 = mycpu (sy s)"
      "cpu_context (this_cpu y2) = cpu_context (this_cpu (sy s))"
    using kacquire_held[of "{lk}" "s\<lparr>sy := y1\<rparr>" "L_proc p"] y1 ne by auto
  have "{L_proc p, lk} - {lk} = {L_proc p}" using assms(4) by auto
  then obtain y3 where y3: "krelease lk (s\<lparr>sy := y2\<rparr>) = Ok (s\<lparr>sy := y3\<rparr>)" "held {L_proc p} y3"
      "cpu_proc (this_cpu y3) = Some p" "mycpu y3 = mycpu (sy s)"
      "cpu_context (this_cpu y3) = cpu_context (this_cpu (sy s))"
    using krelease_held[of "{L_proc p, lk}" "s\<lparr>sy := y2\<rparr>" lk] y2 by auto
  let ?s = "upd_proc p (\<lambda>pr. pr\<lparr>p_chan := Some chan, p_state := SLEEPING\<rparr>) (s\<lparr>sy := y3\<rparr>)"
  obtain ie s1 y4 where "sched_out ?s = Ok (ie, s1)"
      "scheduler_back p s1 = Ok (?s\<lparr>sy := y4, ptable := (ptable ?s)[p := (the_proc p ?s)\<lparr>p_context := regs ?s\<rparr>],
            regs := cpu_context (this_cpu (sy ?s))\<rparr>)"
      "held {} y4" "cpu_proc (this_cpu y4) = None" "mycpu y4 = mycpu (sy ?s)"
    using switch_out[of p ?s] y3 assms(3) by (auto simp: upd_proc_def)
  then show ?thesis using y0 y1 y2 y3 assms(2,3)
    by (intro exI[of _ ie] exI[of _ y4]) (simp add: sleep_out_def deref_def upd_proc_def)
qed

lemma upd_proc_sy: "upd_proc p f (s\<lparr>sy := y\<rparr>) = (upd_proc p f s)\<lparr>sy := y\<rparr>"
  by (simp add: upd_proc_def)

text \<open>Dispatch: a runnable process continues at its resume point, with its registers.\<close>

lemma dispatch_step:
  assumes "kheld {} s" "p < length (ptable s)" "p_state (the_proc p s) = RUNNABLE"
    "resume_ok (c p)"
  shows "\<exists>y. kop_run (Dispatch p) (s, c) = Ok (s\<lparr>sy := y,
      ptable := (ptable s)[p := (the_proc p s)\<lparr>p_state := RUNNING,
        p_chan := (case c p of In_sleep lk ie \<Rightarrow> None | _ \<Rightarrow> p_chan (the_proc p s))\<rparr>],
      regs := p_context (the_proc p s)\<rparr>, c)
    \<and> held {} y \<and> cpu_proc (this_cpu y) = Some p \<and> mycpu y = mycpu (sy s)"
proof -
  obtain y1 where y1: "kacquire (L_proc p) s = Ok (s\<lparr>sy := y1\<rparr>)" "held {L_proc p} y1" "mycpu y1 = mycpu (sy s)"
    using kacquire_held[OF assms(1), of "L_proc p"] by auto
  let ?y2 = "upd_mycpu (cpu_context_update (\<lambda>_. regs s)) (upd_mycpu (cpu_proc_update (\<lambda>_. Some p)) y1)"
  define s2 where "s2 = s\<lparr>sy := ?y2, ptable := (ptable s)[p := (the_proc p s)\<lparr>p_state := RUNNING\<rparr>],
     regs := p_context (the_proc p s)\<rparr>"
  have tr: "scheduler_try p s = Ok (True, s2)"
    using y1 assms(2,3) by (simp add: scheduler_try_def upd_proc_def Let_def s2_def)
  have y2: "held {L_proc p} (sy s2)" "curproc s2 = Some p" "mycpu (sy s2) = mycpu (sy s)"
  proof -
    show "held {L_proc p} (sy s2)"
      unfolding s2_def using held_upd_mycpu[OF held_upd_mycpu[OF y1(2)]] by simp
    show "curproc s2 = Some p" using heldD(1)[OF y1(2)] by (simp add: s2_def)
    show "mycpu (sy s2) = mycpu (sy s)" using y1(3) by (simp add: s2_def)
  qed
  have out: "\<exists>y. krelease (L_proc p) (t\<lparr>sy := z\<rparr>) = Ok (t\<lparr>sy := y\<rparr>) \<and> held {} y \<and> cpu_proc (this_cpu y) = Some p
      \<and> mycpu y = mycpu (sy s)" if "held {L_proc p} z" "cpu_proc (this_cpu z) = Some p" "mycpu z = mycpu (sy s)"
    for t :: "'a proc_state_scheme" and z
    using krelease_held[of "{L_proc p}" "t\<lparr>sy := z\<rparr>" "L_proc p"] that by auto
  have ie: "held {L_proc p} (upd_mycpu (intena_update (\<lambda>_. ie)) (sy s2))"
      "cpu_proc (this_cpu (upd_mycpu (intena_update (\<lambda>_. ie)) (sy s2))) = Some p"
      "mycpu (upd_mycpu (intena_update (\<lambda>_. ie)) (sy s2)) = mycpu (sy s)" for ie
  proof -
    show "held {L_proc p} (upd_mycpu (intena_update (\<lambda>_. ie)) (sy s2))"
      by (rule held_upd_mycpu[OF y2(1)]) simp
    show "cpu_proc (this_cpu (upd_mycpu (intena_update (\<lambda>_. ie)) (sy s2))) = Some p"
      using heldD(1)[OF y2(1)] y2(2) by simp
    show "mycpu (upd_mycpu (intena_update (\<lambda>_. ie)) (sy s2)) = mycpu (sy s)" using y2(3) by simp
  qed
  show ?thesis
  proof (cases "c p")
    case Fresh
    obtain z where z: "myproc s2 = Ok (Some p, s2\<lparr>sy := z\<rparr>)" "held {L_proc p} z" "cpu_proc (this_cpu z) = Some p" "mycpu z = mycpu (sy s)"
      using myproc_held[OF y2(1)] y2(2,3) by auto
    obtain z' where z': "myproc (s2\<lparr>sy := z\<rparr>) = Ok (Some p, s2\<lparr>sy := z'\<rparr>)" "held {L_proc p} z'"
        "cpu_proc (this_cpu z') = Some p" "mycpu z' = mycpu (sy s)"
      using myproc_held[of "{L_proc p}" "s2\<lparr>sy := z\<rparr>"] z by auto
    obtain y where "krelease (L_proc p) (s2\<lparr>sy := z'\<rparr>) = Ok (s2\<lparr>sy := y\<rparr>)" "held {} y" "cpu_proc (this_cpu y) = Some p" "mycpu y = mycpu (sy s)"
      using out[OF z'(2-4)] by blast
    then show ?thesis using tr z z' Fresh
      by (intro exI[of _ y]) (simp add: forkret_start_def deref_def s2_def)
  next
    case (In_yield ie)
    obtain y where "krelease (L_proc p) (s2\<lparr>sy := upd_mycpu (intena_update (\<lambda>_. ie)) (sy s2)\<rparr>) = Ok (s2\<lparr>sy := y\<rparr>)"
        "held {} y" "cpu_proc (this_cpu y) = Some p" "mycpu y = mycpu (sy s)"
      using out[OF ie] by blast
    then show ?thesis using tr In_yield
      by (intro exI[of _ y]) (simp add: yield_in_def sched_in_def s2_def)
  next
    case (In_sleep lk ie)
    let ?t = "upd_proc p (p_chan_update (\<lambda>_. None)) s2"
    obtain z where z: "krelease (L_proc p) (?t\<lparr>sy := upd_mycpu (intena_update (\<lambda>_. ie)) (sy s2)\<rparr>) = Ok (?t\<lparr>sy := z\<rparr>)"
        "held {} z" "cpu_proc (this_cpu z) = Some p" "mycpu z = mycpu (sy s)"
      using out[OF ie] by blast
    obtain z' where z': "kacquire lk (?t\<lparr>sy := z\<rparr>) = Ok (?t\<lparr>sy := z'\<rparr>)" "held {lk} z'" "cpu_proc (this_cpu z') = Some p"
        "mycpu z' = mycpu (sy s)"
      using kacquire_held[of "{}" "?t\<lparr>sy := z\<rparr>" lk] z by auto
    obtain y where y: "krelease lk (?t\<lparr>sy := z'\<rparr>) = Ok (?t\<lparr>sy := y\<rparr>)" "held {} y" "cpu_proc (this_cpu y) = Some p" "mycpu y = mycpu (sy s)"
      using krelease_held[of "{lk}" "?t\<lparr>sy := z'\<rparr>" lk] z' by auto
    have "kop_run (Dispatch p) (s, c) = Ok (?t\<lparr>sy := y\<rparr>, c)"
      using tr In_sleep z(1) z'(1) y(1) by (simp add: sleep_in_def sched_in_def upd_proc_sy Let_def)
    then show ?thesis using y(2-4) assms(2) In_sleep
      by (intro exI[of _ y]) (simp add: s2_def upd_proc_def)
  qed
qed

text \<open>Wakeups in between change only SLEEPING to RUNNABLE.\<close>

definition roused :: "procstate \<Rightarrow> procstate \<Rightarrow> bool" where
  "roused st st' \<longleftrightarrow> st' = st \<or> st = SLEEPING \<and> st' = RUNNABLE"

lemma wake_roused: "\<exists>st. wake chan cur i pr = pr\<lparr>p_state := st\<rparr> \<and> roused (p_state pr) st"
proof (cases "Some i \<noteq> cur \<and> p_state pr = SLEEPING \<and> p_chan pr = chan")
  case True
  then show ?thesis by (intro exI[of _ RUNNABLE]) (auto simp: wake_def roused_def)
next
  case False
  then show ?thesis by (intro exI[of _ "p_state pr"]) (auto simp: wake_def roused_def)
qed

lemma roused_trans: "roused a b \<Longrightarrow> roused b c \<Longrightarrow> roused a c"
  by (auto simp: roused_def)

text \<open>The table after the first \<open>k\<close> iterations of \<open>reparent(r)\<close>, started on \<open>pt0\<close>.\<close>

definition reparented :: "nat option \<Rightarrow> nat option \<Rightarrow> nat \<Rightarrow> proc list \<Rightarrow> proc list \<Rightarrow> bool" where
  "reparented ini r k pt0 pt \<longleftrightarrow> length pt = NPROC
    \<and> (\<forall>i < NPROC. \<exists>st. roused (p_state (pt0 ! i)) st \<and> pt ! i = (pt0 ! i)\<lparr>p_state := st,
         p_parent := (if i < k \<and> p_parent (pt0 ! i) = r then ini else p_parent (pt0 ! i))\<rparr>)"

lemma reparented_skip:
  assumes "reparented ini r k pt0 pt" "p_parent (pt0 ! k) \<noteq> r"
  shows "reparented ini r (Suc k) pt0 pt"
proof -
  have "i < Suc k \<and> p_parent (pt0 ! i) = r \<longleftrightarrow> i < k \<and> p_parent (pt0 ! i) = r" for i
    using assms(2) by (auto simp: less_Suc_eq)
  then show ?thesis using assms(1) by (simp add: reparented_def)
qed

lemma reparented_wake:
  assumes "reparented ini r k pt0 pt" "p_parent (pt0 ! k) = r" "k < NPROC"
  shows "reparented ini r (Suc k) pt0 (woken c cur (pt[k := (pt ! k)\<lparr>p_parent := ini\<rparr>]))"
  unfolding reparented_def
proof (intro conjI allI impI)
  let ?pt = "pt[k := (pt ! k)\<lparr>p_parent := ini\<rparr>]"
  have len: "length pt = NPROC" using assms(1) by (simp add: reparented_def)
  then show "length (woken c cur ?pt) = NPROC" by simp
  fix i assume i: "i < NPROC"
  obtain st where st: "roused (p_state (pt0 ! i)) st" "pt ! i = (pt0 ! i)\<lparr>p_state := st,
      p_parent := (if i < k \<and> p_parent (pt0 ! i) = r then ini else p_parent (pt0 ! i))\<rparr>"
    using assms(1) i unfolding reparented_def by blast
  have e: "?pt ! i = (pt0 ! i)\<lparr>p_state := st,
      p_parent := (if i < Suc k \<and> p_parent (pt0 ! i) = r then ini else p_parent (pt0 ! i))\<rparr>"
    using st(2) i len assms(2) by (cases "i = k") (auto simp: less_Suc_eq)
  obtain st' where w: "wake c cur i (?pt ! i) = (?pt ! i)\<lparr>p_state := st'\<rparr>" "roused (p_state (?pt ! i)) st'"
    using wake_roused by blast
  have "roused (p_state (pt0 ! i)) st'" using st(1) w(2) roused_trans[of _ st st'] unfolding e by simp
  moreover have "woken c cur ?pt ! i = (?pt ! i)\<lparr>p_state := st'\<rparr>" using w(1) i len by (simp add: nth_woken)
  ultimately show "\<exists>st. roused (p_state (pt0 ! i)) st \<and> woken c cur ?pt ! i = (pt0 ! i)\<lparr>p_state := st,
      p_parent := (if i < Suc k \<and> p_parent (pt0 ! i) = r then ini else p_parent (pt0 ! i))\<rparr>"
    unfolding e by (intro exI[of _ st']) simp
qed

lemma reparent_held:
  assumes "kheld H s" "\<And>i. L_proc i \<notin> H" "length (ptable s) = NPROC"
  shows "\<exists>y pt. reparent r s = Ok (s\<lparr>sy := y, ptable := pt\<rparr>) \<and> held H y
    \<and> cpu_proc (this_cpu y) = curproc s \<and> mycpu y = mycpu (sy s)
    \<and> cpu_context (this_cpu y) = cpu_context (this_cpu (sy s))
    \<and> reparented (initproc s) r NPROC (ptable s) pt"
proof -
  let ?f = "\<lambda>pp s. if p_parent (the_proc pp s) = r
       then wakeup (map_option C_proc (initproc s)) (upd_proc pp (p_parent_update (\<lambda>_. initproc s)) s) else Ok s"
  define P where "P k t \<longleftrightarrow> (\<exists>y pt. t = s\<lparr>sy := y, ptable := pt\<rparr> \<and> held H y
    \<and> cpu_proc (this_cpu y) = curproc s \<and> mycpu y = mycpu (sy s)
    \<and> cpu_context (this_cpu y) = cpu_context (this_cpu (sy s))
    \<and> reparented (initproc s) r k (ptable s) pt)" for k t
  have P0: "P 0 s" unfolding P_def
    by (rule exI[of _ "sy s"], rule exI[of _ "ptable s"]) (use assms in \<open>auto simp: roused_def reparented_def\<close>)
  have step: "\<exists>t'. ?f k t = Ok t' \<and> P (Suc k) t'" if k: "k < NPROC" and t: "P k t" for k t
  proof -
    obtain y pt where y: "t = s\<lparr>sy := y, ptable := pt\<rparr>" "held H y" "cpu_proc (this_cpu y) = curproc s"
        "mycpu y = mycpu (sy s)" "cpu_context (this_cpu y) = cpu_context (this_cpu (sy s))"
        "reparented (initproc s) r k (ptable s) pt"
      using t unfolding P_def by blast
    have len: "length pt = NPROC" using y(6) by (simp add: reparented_def)
    have par: "p_parent (pt ! k) = p_parent (the_proc k s)" using y(6) k by (auto simp: reparented_def)
    show ?thesis
    proof (cases "p_parent (the_proc k s) = r")
      case False
      have "P (Suc k) t" using reparented_skip[OF y(6) False] y unfolding P_def by blast
      then show ?thesis using False par by (simp add: y(1))
    next
      case True
      let ?pt = "pt[k := (pt ! k)\<lparr>p_parent := initproc s\<rparr>]"
      let ?c = "map_option C_proc (initproc s)"
      obtain y' where y': "wakeup ?c (s\<lparr>sy := y, ptable := ?pt\<rparr>) = Ok (s\<lparr>sy := y', ptable := woken ?c (curproc s) ?pt\<rparr>)"
          "held H y'" "cpu_proc (this_cpu y') = curproc s" "mycpu y' = mycpu (sy s)"
          "cpu_context (this_cpu y') = cpu_context (this_cpu (sy s))"
        using wakeup_held[of H "s\<lparr>sy := y, ptable := ?pt\<rparr>" ?c] y len assms(2) by auto
      have "P (Suc k) (s\<lparr>sy := y', ptable := woken ?c (curproc s) ?pt\<rparr>)"
        using y'(2-5) reparented_wake[OF y(6) True k] unfolding P_def by blast
      then show ?thesis using True par y'(1) by (simp add: y(1) upd_proc_def)
    qed
  qed
  have "\<exists>t. reparent r s = Ok t \<and> P NPROC t"
    using fold_res_upt[of P s NPROC ?f, OF P0 step] by (simp add: reparent_def)
  then show ?thesis unfolding P_def by auto
qed

lemma tab_ok_reparented:
  assumes "tab_ok cur pt0" "reparented ini r k pt0 pt"
  shows "tab_ok cur pt"
proof -
  have "p_state (pt ! i) = RUNNING \<longleftrightarrow> p_state (pt0 ! i) = RUNNING" if "i < NPROC" for i
    using assms(2) that by (auto simp: reparented_def roused_def)
  then show ?thesis using assms by (simp add: tab_ok_def reparented_def)
qed

lemma exit_step:
  assumes "kheld {} s" "curproc s = Some p" "tab_ok (Some p) (ptable s)" "curproc s \<noteq> initproc s"
  shows "\<exists>y pt. kop_run (Exit st) (s, c) = Ok (s\<lparr>sy := y, ptable := pt, regs := cpu_context (this_cpu (sy s))\<rparr>, c)
    \<and> held {} y \<and> cpu_proc (this_cpu y) = None \<and> tab_ok None pt
    \<and> p_state (pt ! p) = ZOMBIE \<and> p_xstate (pt ! p) = st
    \<and> (\<forall>i < NPROC. p_parent (pt ! i) = (if p_parent (the_proc i s) = Some p then initproc s else p_parent (the_proc i s)))"
proof -
  have p: "p < NPROC" "length (ptable s) = NPROC" using assms(3) by (auto simp: tab_ok_def)
  obtain y1 where y1: "myproc s = Ok (Some p, s\<lparr>sy := y1\<rparr>)" "held {} y1" "cpu_proc (this_cpu y1) = Some p"
      "mycpu y1 = mycpu (sy s)" "cpu_context (this_cpu y1) = cpu_context (this_cpu (sy s))"
    using myproc_held[OF assms(1)] assms(2) by auto
  obtain y2 where y2: "kacquire L_wait (s\<lparr>sy := y1\<rparr>) = Ok (s\<lparr>sy := y2\<rparr>)" "held {L_wait} y2"
      "cpu_proc (this_cpu y2) = Some p" "mycpu y2 = mycpu (sy s)"
      "cpu_context (this_cpu y2) = cpu_context (this_cpu (sy s))"
    using kacquire_held[of "{}" "s\<lparr>sy := y1\<rparr>" L_wait] y1 by auto
  obtain y3 pt where y3: "reparent (Some p) (s\<lparr>sy := y2\<rparr>) = Ok (s\<lparr>sy := y3, ptable := pt\<rparr>)" "held {L_wait} y3"
      "cpu_proc (this_cpu y3) = Some p" "mycpu y3 = mycpu (sy s)"
      "cpu_context (this_cpu y3) = cpu_context (this_cpu (sy s))"
      and pt: "reparented (initproc s) (Some p) NPROC (ptable s) pt"
    using reparent_held[of "{L_wait}" "s\<lparr>sy := y2\<rparr>" "Some p"] y2 p by auto
  let ?c = "map_option C_proc (p_parent (pt ! p))"
  let ?pt = "woken ?c (Some p) pt"
  have len: "length pt = NPROC" using pt by (simp add: reparented_def)
  obtain y4 where y4: "wakeup ?c (s\<lparr>sy := y3, ptable := pt\<rparr>) = Ok (s\<lparr>sy := y4, ptable := ?pt\<rparr>)" "held {L_wait} y4"
      "cpu_proc (this_cpu y4) = Some p" "mycpu y4 = mycpu (sy s)"
      "cpu_context (this_cpu y4) = cpu_context (this_cpu (sy s))"
    using wakeup_held[of "{L_wait}" "s\<lparr>sy := y3, ptable := pt\<rparr>" ?c] y3 len by auto
  obtain y5 where y5: "kacquire (L_proc p) (s\<lparr>sy := y4, ptable := ?pt\<rparr>) = Ok (s\<lparr>sy := y5, ptable := ?pt\<rparr>)"
      "held {L_proc p, L_wait} y5" "cpu_proc (this_cpu y5) = Some p" "mycpu y5 = mycpu (sy s)"
      "cpu_context (this_cpu y5) = cpu_context (this_cpu (sy s))"
    using kacquire_held[of "{L_wait}" "s\<lparr>sy := y4, ptable := ?pt\<rparr>" "L_proc p"] y4 by (auto simp: sy_first)
  let ?pt5 = "?pt[p := (?pt ! p)\<lparr>p_xstate := st, p_state := ZOMBIE\<rparr>]"
  have "{L_proc p, L_wait} - {L_wait} = {L_proc p}" by auto
  then obtain y6 where y6: "krelease L_wait (s\<lparr>sy := y5, ptable := ?pt5\<rparr>) = Ok (s\<lparr>sy := y6, ptable := ?pt5\<rparr>)"
      "held {L_proc p} y6" "cpu_proc (this_cpu y6) = Some p" "mycpu y6 = mycpu (sy s)"
      "cpu_context (this_cpu y6) = cpu_context (this_cpu (sy s))"
    using krelease_held[of "{L_proc p, L_wait}" "s\<lparr>sy := y5, ptable := ?pt5\<rparr>" L_wait] y5 by (auto simp: sy_first)
  let ?s6 = "s\<lparr>sy := y6, ptable := ?pt5\<rparr>"
  obtain ie s1 y7 where y7: "sched_out ?s6 = Ok (ie, s1)"
      "scheduler_back p s1 = Ok (?s6\<lparr>sy := y7, ptable := (ptable ?s6)[p := (the_proc p ?s6)\<lparr>p_context := regs ?s6\<rparr>],
            regs := cpu_context (this_cpu (sy ?s6))\<rparr>)"
      "held {} y7" "cpu_proc (this_cpu y7) = None" "mycpu y7 = mycpu (sy ?s6)"
    using switch_out[of p ?s6] y6 p len by auto
  let ?fin = "?pt[p := (?pt ! p)\<lparr>p_xstate := st, p_state := ZOMBIE, p_context := regs s\<rparr>]"
  have run: "kop_run (Exit st) (s, c) = Ok (s\<lparr>sy := y7, ptable := ?fin, regs := cpu_context (this_cpu (sy s))\<rparr>, c)"
    using y1(1) y2(1) y3(1) y4(1) y5(1) y6(1) y7(1,2) y6(4,5) p len assms(2,4)
    by (simp add: exit_out_def deref_def upd_proc_def Let_def)
  have ok: "tab_ok None ?fin"
    by (rule tab_ok_update[OF tab_ok_woken[OF tab_ok_reparented[OF assms(3) pt]] p(1)]) auto
  have par: "p_parent (?fin ! i) = (if p_parent (the_proc i s) = Some p then initproc s else p_parent (the_proc i s))"
    if "i < NPROC" for i
  proof -
    have "p_parent (?fin ! i) = p_parent (pt ! i)"
      using that len by (cases "i = p") (simp_all add: nth_woken)
    then show ?thesis using pt that by (auto simp: reparented_def)
  qed
  show ?thesis using run ok par y7(3,4) p len
    by (intro exI[of _ y7] exI[of _ ?fin]) simp
qed

lemma kill_held:
  assumes "kheld {} s" "length (ptable s) = NPROC"
  shows "\<exists>y r pt. kill pid s = Ok (r, s\<lparr>sy := y, ptable := pt\<rparr>) \<and> held {} y
    \<and> cpu_proc (this_cpu y) = curproc s \<and> length pt = NPROC
    \<and> (\<forall>i < NPROC. roused (p_state (the_proc i s)) (p_state (pt ! i)))"
proof -
  have free: "\<forall>i \<in> set [0..<NPROC]. i < length (ptable s) \<and> lock_free (L_proc i) (sy s)"
    using assms by (auto intro: heldD(9))
  have y: "held {} (settled (sy s))" "cpu_proc (this_cpu (settled (sy s))) = curproc s"
    using held_settled[OF assms(1)] by simp_all
  note k = kill_scan_eq[OF held_wf_sync[OF assms(1)] free, of pid, folded kill_def]
  show ?thesis
  proof (cases "find (\<lambda>i. p_pid (the_proc i s) = pid) [0..<NPROC]")
    case None
    then have "kill pid s = Ok (- 1, s\<lparr>sy := settled (sy s), ptable := ptable s\<rparr>)"
      using k by (simp add: NPROC_def)
    then show ?thesis using y assms(2)
      by (intro exI[of _ "settled (sy s)"] exI[of _ "- 1"] exI[of _ "ptable s"]) (auto simp: roused_def)
  next
    case (Some i)
    let ?pt = "(ptable s)[i := (the_proc i s)\<lparr>p_killed := 1,
        p_state := (if p_state (the_proc i s) = SLEEPING then RUNNABLE else p_state (the_proc i s))\<rparr>]"
    have "kill pid s = Ok (0, s\<lparr>sy := settled (sy s), ptable := ?pt\<rparr>)"
      using k Some by (simp add: upd_proc_def)
    moreover have "roused (p_state (the_proc j s)) (p_state (?pt ! j))" if "j < NPROC" for j
      using that assms(2) by (cases "j = i") (auto simp: roused_def)
    ultimately show ?thesis using y assms(2)
      by (intro exI[of _ "settled (sy s)"] exI[of _ 0] exI[of _ ?pt]) auto
  qed
qed

lemma tab_ok_roused:
  assumes "tab_ok cur pt" "length pt' = NPROC" "\<forall>i < NPROC. roused (p_state (pt ! i)) (p_state (pt' ! i))"
  shows "tab_ok cur pt'"
proof -
  have "p_state (pt' ! i) = RUNNING \<longleftrightarrow> p_state (pt ! i) = RUNNING" if "i < NPROC" for i
    using assms(3) that by (auto simp: roused_def)
  then show ?thesis using assms(1,2) by (simp add: tab_ok_def)
qed

lemma kinvD:
  assumes "kinv (s, c)"
  shows "kheld {} s" "tab_ok (curproc s) (ptable s)" "length (ptable s) = NPROC"
    "\<And>p. curproc s = Some p \<Longrightarrow> p < NPROC" "\<And>i. resume_ok (c i)"
  using assms by (auto simp: kinv_def tab_ok_def)

declare kop_run.simps [simp del]

lemma kop_run_kinv:
  assumes "kinv (s, c)" "enabled op (s, c)"
  shows "\<exists>k'. kop_run op (s, c) = Ok k' \<and> kinv k'"
proof (cases op)
  case (Dispatch p)
  note i = kinvD[OF assms(1)]
  have p: "curproc s = None" "p < NPROC" using assms(2) Dispatch by auto
  show ?thesis
  proof (cases "p_state (the_proc p s) = RUNNABLE")
    case True
    let ?pt = "(ptable s)[p := (the_proc p s)\<lparr>p_state := RUNNING,
        p_chan := (case c p of In_sleep lk ie \<Rightarrow> None | _ \<Rightarrow> p_chan (the_proc p s))\<rparr>]"
    obtain y where y: "kop_run (Dispatch p) (s, c) = Ok (s\<lparr>sy := y, ptable := ?pt, regs := p_context (the_proc p s)\<rparr>, c)"
        "held {} y" "cpu_proc (this_cpu y) = Some p"
      using dispatch_step[OF i(1) _ True, of c] i(3) i(5)[of p] p by auto
    have "tab_ok (Some p) ?pt" using i(2) p by (intro tab_ok_update[OF i(2) p(2)]) auto
    then show ?thesis using y Dispatch i(5) by (auto simp: kinv_def)
  next
    case False
    obtain y1 where y1: "kacquire (L_proc p) s = Ok (s\<lparr>sy := y1\<rparr>)" "held {L_proc p} y1" "cpu_proc (this_cpu y1) = curproc s"
      using kacquire_held[OF i(1), of "L_proc p"] by auto
    obtain y2 where "krelease (L_proc p) (s\<lparr>sy := y1\<rparr>) = Ok (s\<lparr>sy := y2\<rparr>)" "held {} y2" "cpu_proc (this_cpu y2) = curproc s"
      using krelease_held[of "{L_proc p}" "s\<lparr>sy := y1\<rparr>" "L_proc p"] y1 by auto
    then show ?thesis using y1 Dispatch False i(2,5) by (auto simp: kinv_def scheduler_try_def kop_run.simps)
  qed
next
  case Yield
  note i = kinvD[OF assms(1)]
  obtain p where p: "curproc s = Some p" using assms(2) Yield by auto
  obtain ie y where y: "kop_run Yield (s, c) = Ok (s\<lparr>sy := y,
      ptable := (ptable s)[p := (the_proc p s)\<lparr>p_state := RUNNABLE, p_context := regs s\<rparr>],
      regs := cpu_context (this_cpu (sy s))\<rparr>, c(p := In_yield ie))" "held {} y" "cpu_proc (this_cpu y) = None"
    using yield_step[OF i(1) p, of c] i(3) i(4)[OF p] by metis
  have "tab_ok None ((ptable s)[p := (the_proc p s)\<lparr>p_state := RUNNABLE, p_context := regs s\<rparr>])"
    using p by (intro tab_ok_update[OF i(2) i(4)[OF p]]) auto
  then show ?thesis using y Yield i(5) by (simp add: kinv_def) (simp add: resume_ok_def)
next
  case (Sleep chan lk)
  note i = kinvD[OF assms(1)]
  obtain p where p: "curproc s = Some p" "lk \<notin> range L_proc" using assms(2) Sleep by auto
  let ?pt = "(ptable s)[p := (the_proc p s)\<lparr>p_chan := Some chan, p_state := SLEEPING, p_context := regs s\<rparr>]"
  obtain ie y where y: "kop_run (Sleep chan lk) (s, c) = Ok (s\<lparr>sy := y, ptable := ?pt,
      regs := cpu_context (this_cpu (sy s))\<rparr>, c(p := In_sleep lk ie))" "held {} y" "cpu_proc (this_cpu y) = None"
    using sleep_step[OF i(1) p(1) _ p(2), of chan c] i(3) i(4)[OF p(1)] by metis
  have "tab_ok None ?pt" using p(1) by (intro tab_ok_update[OF i(2) i(4)[OF p(1)]]) auto
  then show ?thesis using y Sleep i(5) p(2) by (simp add: kinv_def) (simp add: resume_ok_def)
next
  case (Wakeup chan)
  note i = kinvD[OF assms(1)]
  show ?thesis
    using wakeup_held[OF i(1) _ i(3), of "Some chan"] Wakeup tab_ok_woken[OF i(2)] i(5) by (auto simp: kinv_def kop_run.simps)
next
  case (Kill pid)
  note i = kinvD[OF assms(1)]
  show ?thesis
    using kill_held[OF i(1,3), of pid] Kill tab_ok_roused[OF i(2)] i(5) by (auto simp: kinv_def kop_run.simps)
next
  case (Exit st)
  note i = kinvD[OF assms(1)]
  obtain p where p: "curproc s = Some p" "curproc s \<noteq> initproc s" using assms(2) Exit by auto
  show ?thesis
    using exit_step[OF i(1) p(1) _ p(2), of st c] i(2,5) p(1) Exit by (auto simp: kinv_def)
qed

lemma kreach_kinv: "kreach k0 k \<Longrightarrow> kinv k0 \<Longrightarrow> kinv k"
proof (induction rule: kreach.induct)
  case (step k op k')
  then show ?case using kop_run_kinv[of "fst k" "snd k" op] by auto
qed

section \<open>Theorems about the state machine\<close>


text \<open>
  C5. No wakeup is lost and a switch keeps the registers. A process that sleeps on a
  channel, is woken by wakeup() on that channel and is dispatched runs again with the
  registers it had when it went to sleep, off the channel, and no lock is held.
\<close>

theorem sleep_wakeup_dispatch:
  assumes "kinv (s, c)" "curproc s = Some p" "lk \<notin> range L_proc"
  shows "\<exists>k1 k2 s3 c3. kop_run (Sleep chan lk) (s, c) = Ok k1
    \<and> p_state (the_proc p (fst k1)) = SLEEPING \<and> curproc (fst k1) = None
    \<and> kop_run (Wakeup chan) k1 = Ok k2 \<and> p_state (the_proc p (fst k2)) = RUNNABLE
    \<and> kop_run (Dispatch p) k2 = Ok (s3, c3) \<and> curproc s3 = Some p \<and> p_chan (the_proc p s3) = None
    \<and> regs s3 = regs s \<and> kheld {} s3"
proof -
  note i = kinvD[OF assms(1)]
  have p: "p < NPROC" by (rule i(4)[OF assms(2)])
  let ?pt1 = "(ptable s)[p := (the_proc p s)\<lparr>p_chan := Some chan, p_state := SLEEPING, p_context := regs s\<rparr>]"
  obtain ie y1 where y1: "kop_run (Sleep chan lk) (s, c) = Ok (s\<lparr>sy := y1, ptable := ?pt1,
      regs := cpu_context (this_cpu (sy s))\<rparr>, c(p := In_sleep lk ie))" "held {} y1" "cpu_proc (this_cpu y1) = None"
    using sleep_step[OF i(1) assms(2) _ assms(3), of chan c] i(3) p by metis
  define s1 where "s1 = s\<lparr>sy := y1, ptable := ?pt1, regs := cpu_context (this_cpu (sy s))\<rparr>"
  define c1 where "c1 = c(p := In_sleep lk ie)"
  let ?pt2 = "woken (Some chan) None ?pt1"
  define pr where "pr = (the_proc p s)\<lparr>p_chan := Some chan, p_state := RUNNABLE, p_context := regs s\<rparr>"
  obtain y2 where y2: "wakeup (Some chan) s1 = Ok (s1\<lparr>sy := y2, ptable := ?pt2\<rparr>)" "held {} y2"
    using wakeup_held[of "{}" s1 "Some chan"] y1(2,3) i(3) by (auto simp: s1_def)
  define s2 where "s2 = s1\<lparr>sy := y2, ptable := ?pt2\<rparr>"
  have p2: "the_proc p s2 = pr" "length (ptable s2) = NPROC"
    using i(3) p by (simp_all add: nth_woken wake_def pr_def s2_def)
  have "\<exists>y. kop_run (Dispatch p) (s2, c1) = Ok (s2\<lparr>sy := y,
      ptable := (ptable s2)[p := (the_proc p s2)\<lparr>p_state := RUNNING,
        p_chan := (case c1 p of In_sleep lk ie \<Rightarrow> None | _ \<Rightarrow> p_chan (the_proc p s2))\<rparr>],
      regs := p_context (the_proc p s2)\<rparr>, c1)
    \<and> held {} y \<and> cpu_proc (this_cpu y) = Some p \<and> mycpu y = mycpu (sy s2)"
    by (rule dispatch_step) (use y2(2) p p2 assms(3) in \<open>simp_all add: resume_ok_def c1_def pr_def s2_def\<close>)
  then obtain y3 where y3: "kop_run (Dispatch p) (s2, c1) = Ok (s2\<lparr>sy := y3,
      ptable := (ptable s2)[p := pr\<lparr>p_state := RUNNING, p_chan := None\<rparr>], regs := regs s\<rparr>, c1)"
      "held {} y3" "cpu_proc (this_cpu y3) = Some p"
    by (auto simp: c1_def p2) (auto simp: pr_def)
  have k1: "kop_run (Sleep chan lk) (s, c) = Ok (s1, c1)" using y1(1) by (simp add: s1_def c1_def)
  moreover have "p_state (the_proc p s1) = SLEEPING" "curproc s1 = None" using p i(3) y1(3) by (simp_all add: s1_def)
  moreover have "kop_run (Wakeup chan) (s1, c1) = Ok (s2, c1)" using y2(1) by (simp add: kop_run.simps s2_def)
  moreover have "p_state (the_proc p s2) = RUNNABLE" using p2 by (simp add: pr_def)
  ultimately show ?thesis using y3 p p2(2)
    by (intro exI[of _ "(s1, c1)"] exI[of _ "(s2, c1)"] exI[of _ c1] conjI
        exI[of _ "s2\<lparr>sy := y3, ptable := (ptable s2)[p := pr\<lparr>p_state := RUNNING, p_chan := None\<rparr>], regs := regs s\<rparr>"])
      simp_all
qed

section \<open>A table with a running and a runnable process\<close>

definition unused_proc :: proc where
  "unused_proc = \<lparr>p_priority = 0, p_timeslice = 0, p_timetotal = 0, p_state = UNUSED, p_chan = None, p_killed = 0,
     p_xstate = 0, p_pid = 0, p_parent = None, p_kstack = 0, p_sz = 0, p_pagetable = 0, p_trapframe = 0,
     p_context = zero_context, p_ofile = replicate NOFILE None, p_cwd = None, p_name = replicate 16 0\<rparr>"

definition two_procs :: proc_state where
  "two_procs = \<lparr>sy = boot_sync\<lparr>cpus := [boot_cpu\<lparr>cpu_proc := Some 0\<rparr>]\<rparr>, mem = (\<lambda>_. 0), ld_end = 0x80022000,
     ld_etext = 0x8000a000, ld_trampoline = 0x80009000, freelist = 0, pool_buf = replicate 16 0, pool_n = 0,
     initialized = True, ptable = [unused_proc\<lparr>p_state := RUNNING, p_pid := 1\<rparr>,
       unused_proc\<lparr>p_state := RUNNABLE, p_pid := 2, p_priority := 5\<rparr>] @ replicate 14 unused_proc,
     initproc = None, nextpid = 3, sched_ctx = zero_context, rr_idx = 0, regs = zero_context,
     ld_proc = 0x80020000, ld_initcode = 0x80021000, ld_forkret = 0x80001000, ld_kthread_entry = 0x80001100\<rparr>"

lemma two_procs_held: "kheld {} two_procs"
  by (simp add: held_def two_procs_def boot_sync_def boot_cpu_def NCPU_def mycpu_def cpuid_def lock_free_def)

lemma two_procs_kinv: "kinv (two_procs, \<lambda>_. Fresh)"
proof -
  have cur: "curproc two_procs = Some 0"
    by (simp add: two_procs_def boot_sync_def boot_cpu_def mycpu_def cpuid_def)
  have "p_state (the_proc i two_procs) = RUNNING \<longleftrightarrow> i = 0" if "i < NPROC" for i
  proof -
    consider "i = 0" | "i = 1" | j where "i = Suc (Suc j)" by (metis One_nat_def not0_implies_Suc)
    then show ?thesis using that
      by cases (simp_all add: two_procs_def unused_proc_def NPROC_def)
  qed
  then show ?thesis using two_procs_held cur
    by (auto simp: kinv_def tab_ok_def resume_ok_def two_procs_def NPROC_def)
qed


theorem sleep_wakeup_dispatch_witness:
  "\<exists>k1 k2 s3 c3. kop_run (Sleep C_ticks L_ticks) (two_procs, \<lambda>_. Fresh) = Ok k1
    \<and> kop_run (Wakeup C_ticks) k1 = Ok k2 \<and> kop_run (Dispatch 0) k2 = Ok (s3, c3)
    \<and> curproc s3 = Some 0 \<and> regs s3 = zero_context"
proof -
  have "curproc two_procs = Some 0" "regs two_procs = zero_context"
    by (simp_all add: two_procs_def boot_sync_def boot_cpu_def mycpu_def cpuid_def)
  then show ?thesis using sleep_wakeup_dispatch[OF two_procs_kinv, of 0 L_ticks C_ticks] by fastforce
qed

theorem wakeup_wakes_sleepers_witness:
  "\<exists>s'. wakeup (Some C_ticks) two_procs = Ok s' \<and> p_state (the_proc 1 s') = RUNNABLE
    \<and> p_state (the_proc 0 s') = RUNNING"
  using wakeup_wakes_sleepers[OF held_wf_sync[OF two_procs_held] others_free_held[OF two_procs_held], of "Some C_ticks"]
  by (fastforce simp: two_procs_def unused_proc_def NPROC_def)

end
