(* ===== verification/Schedulers.thy ===== *)
theory Schedulers
  imports Sched
begin

text \<open>
  The two alternative schedulers of kernel/proc/proc.c: which process \<open>scheduler_rotate\<close>
  and \<open>scheduler_priority\<close> choose, and that the round-robin scheduler is fair.
\<close>

section \<open>Round robin\<close>

abbreviation runnable :: "'z proc_state_scheme \<Rightarrow> nat \<Rightarrow> bool" where
  "runnable s i \<equiv> p_state (the_proc i s) = RUNNABLE"

abbreviation rr_pos :: "'z proc_state_scheme \<Rightarrow> nat" where
  "rr_pos s \<equiv> unat (rr_idx s)"

lemma rr_last:
  "sy_update f (rr_idx_update r s) = rr_idx_update r (sy_update f s)"
  "ptable_update g (rr_idx_update r s) = rr_idx_update r (ptable_update g s)"
  by simp_all

lemma select_rotate_eq:
  assumes "kheld {} s"
  shows "select_rotate is s = (case find (\<lambda>i. runnable s ((rr_pos s + i) mod NPROC)) is of
      None \<Rightarrow> Ok (None, if is = [] then s else s\<lparr>sy := settled (sy s)\<rparr>)
    | Some i \<Rightarrow> Ok (Some ((rr_pos s + i) mod NPROC),
        s\<lparr>sy := settled (sy s), rr_idx := of_nat (((rr_pos s + i) mod NPROC + 1) mod NPROC)\<rparr>))"
  using assms
proof (induction "is" arbitrary: s)
  case (Cons i "is")
  let ?q = "(rr_pos s + i) mod NPROC"
  have lf: "wf_sync (Suc 0) (sy s)" "lock_free (L_proc ?q) (sy s)"
    using held_wf_sync[OF Cons.prems] heldD(9)[OF Cons.prems] by auto
  have idem: "settled (settled (sy s)) = settled (sy s)" using settled_settled wf_syncD(1)[OF lf(1)] .
  show ?case
  proof (cases "runnable s ?q")
    case True
    then show ?thesis by (simp add: Let_def proc_section[OF lf])
  next
    case False
    then show ?thesis
      using Cons.IH[of "s\<lparr>sy := settled (sy s)\<rparr>"] held_settled[OF Cons.prems] idem
      by (simp add: Let_def proc_section[OF lf] split: option.split)
  qed
qed simp

text \<open>One round of the scheduler, when some process is runnable and when none is.\<close>

lemma rotate_round:
  assumes "kheld {} s" "length (ptable s) = NPROC"
    "find (\<lambda>i. runnable s ((rr_pos s + i) mod NPROC)) [0..<NPROC] = Some i"
  defines "q \<equiv> (rr_pos s + i) mod NPROC"
  shows "\<exists>y. scheduler_rotate_round s = Ok (Some (q, True), s\<lparr>sy := y,
      ptable := (ptable s)[q := (the_proc q s)\<lparr>p_state := RUNNING\<rparr>], sched_ctx := regs s,
      rr_idx := of_nat ((q + 1) mod NPROC), regs := p_context (the_proc q s)\<rparr>)
    \<and> held {} y \<and> cpu_proc (this_cpu y) = Some q"
proof -
  let ?s0 = "s\<lparr>sy := intr_on (sy s)\<rparr>"
  have h0: "kheld {} ?s0" using held_intr_on[OF assms(1)] by simp
  let ?y1 = "settled (intr_on (sy s))"
  have sel: "select_rotate [0..<NPROC] ?s0 = Ok (Some q, s\<lparr>sy := ?y1, rr_idx := of_nat ((q + 1) mod NPROC)\<rparr>)"
    using select_rotate_eq[OF h0, of "[0..<NPROC]"] assms(3) by (simp add: q_def)
  have q: "q < NPROC" by (simp add: q_def NPROC_def)
  have run: "runnable s q" using assms(3) by (auto simp: find_Some_iff q_def)
  have h1: "held {} ?y1" using held_settled[OF held_intr_on[OF assms(1)]] .
  let ?s1 = "s\<lparr>sy := ?y1, rr_idx := of_nat ((q + 1) mod NPROC)\<rparr>"
  obtain y2 where y2: "kacquire (L_proc q) ?s1 = Ok (?s1\<lparr>sy := y2\<rparr>)" "held {L_proc q} y2"
    using kacquire_held[of "{}" ?s1 "L_proc q"] h1 by auto
  let ?y3 = "upd_mycpu (cpu_proc_update (\<lambda>_. Some q)) y2"
  let ?s3 = "s\<lparr>ptable := (ptable s)[q := (the_proc q s)\<lparr>p_state := RUNNING\<rparr>], rr_idx := of_nat ((q + 1) mod NPROC)\<rparr>"
  have "held {L_proc q} ?y3" by (rule held_upd_mycpu[OF y2(2)]) simp
  then obtain y4 where y4: "krelease (L_proc q) (?s3\<lparr>sy := ?y3\<rparr>) = Ok (?s3\<lparr>sy := y4\<rparr>)" "held {} y4"
      "cpu_proc (this_cpu y4) = cpu_proc (this_cpu ?y3)"
    using krelease_held[of "{L_proc q}" "?s3\<lparr>sy := ?y3\<rparr>" "L_proc q"] by auto
  have "cpu_proc (this_cpu ?y3) = Some q" using heldD(1)[OF y2(2)] by simp
  then show ?thesis
    using sel y2(1) y4 run q assms(2)
    by (intro exI[of _ y4]) (simp add: scheduler_rotate_round_def upd_proc_def Let_def sy_first rr_last)
qed

lemma rotate_none:
  assumes "kheld {} s" "\<And>i. i < NPROC \<Longrightarrow> \<not> runnable s i"
  shows "\<exists>y. scheduler_rotate_round s = Ok (None, s\<lparr>sy := y\<rparr>) \<and> held {} y"
proof -
  have "find (\<lambda>i. runnable s ((rr_pos s + i) mod NPROC)) [0..<NPROC] = None"
    using assms(2) by (simp add: find_None_iff NPROC_def)
  then show ?thesis
    using select_rotate_eq[of "s\<lparr>sy := intr_on (sy s)\<rparr>" "[0..<NPROC]"] held_intr_on[OF assms(1)]
      held_settled[OF held_intr_on[OF assms(1)]]
    by (intro exI[of _ "settled (intr_on (sy s))"]) (simp add: scheduler_rotate_round_def NPROC_def)
qed

text \<open>How far \<open>p\<close> is from the position where the search starts.\<close>

definition rr_dist :: "'z proc_state_scheme \<Rightarrow> nat \<Rightarrow> nat" where
  "rr_dist s p = (p + NPROC - rr_pos s) mod NPROC"

lemma mod_dist_unique:
  fixes a x p n :: nat
  assumes "a < n" "x < n" "(a + x) mod n = p"
  shows "(p + n - a) mod n = x"
proof (cases "a + x < n")
  case True
  then have "p + n - a = x + n" using assms by simp
  then show ?thesis using assms(2) by simp
next
  case False
  then have "(a + x) mod n = a + x - n" using assms(1,2) by (simp add: mod_if)
  then have "p + n - a = x" using assms False by simp
  then show ?thesis using assms(2) by simp
qed

lemma mod_dist_add:
  fixes a p n :: nat
  assumes "a < n" "p < n"
  shows "(a + (p + n - a) mod n) mod n = p"
proof -
  have "(a + (p + n - a) mod n) mod n = (a + (p + n - a)) mod n" by (rule mod_add_right_eq)
  also have "\<dots> = p" using assms by simp
  finally show ?thesis .
qed

lemma mod_dist_step:
  fixes a p n i :: nat
  assumes "a < n" "p < n" "i < (p + n - a) mod n"
  shows "(p + n - ((a + i) mod n + 1) mod n) mod n < (p + n - a) mod n"
proof -
  let ?d = "(p + n - a) mod n"
  have d: "?d < n" "(a + ?d) mod n = p" using assms(1,2) mod_dist_add by auto
  have "(((a + i) mod n + 1) mod n + (?d - (i + 1))) mod n = (a + i + 1 + (?d - (i + 1))) mod n"
    by (simp add: mod_simps)
  also have "a + i + 1 + (?d - (i + 1)) = a + ?d" using assms(3) by simp
  finally have "(((a + i) mod n + 1) mod n + (?d - (i + 1))) mod n = p" using d(2) by simp
  then have "(p + n - ((a + i) mod n + 1) mod n) mod n = ?d - (i + 1)"
    using d(1) assms(1) by (intro mod_dist_unique) (auto intro: le_less_trans[OF diff_le_self])
  then show ?thesis using assms(3) by simp
qed

lemma rotate_progress:
  assumes "kheld {} s" "length (ptable s) = NPROC" "rr_pos s < NPROC" "p < NPROC" "runnable s p"
  shows "\<exists>q s'. scheduler_rotate_round s = Ok (Some (q, True), s') \<and> q < NPROC \<and> runnable s q
    \<and> p_state (the_proc q s') = RUNNING \<and> curproc s' = Some q \<and> rr_pos s' < NPROC \<and> rr_pos s' = (q + 1) mod NPROC
    \<and> (q = p \<or> rr_dist s' p < rr_dist s p)"
proof -
  let ?d = "rr_dist s p"
  have d: "?d < NPROC" "(rr_pos s + ?d) mod NPROC = p"
    using mod_dist_add[OF assms(3,4)] by (simp_all add: rr_dist_def NPROC_def)
  obtain i where i: "find (\<lambda>i. runnable s ((rr_pos s + i) mod NPROC)) [0..<NPROC] = Some i"
    using d assms(5) by (cases "find (\<lambda>i. runnable s ((rr_pos s + i) mod NPROC)) [0..<NPROC]") (auto simp: find_None_iff)
  then have i': "i < NPROC" "runnable s ((rr_pos s + i) mod NPROC)"
      "\<And>j. j < i \<Longrightarrow> \<not> runnable s ((rr_pos s + j) mod NPROC)"
    by (auto simp: find_Some_iff)
  have le: "i \<le> ?d" using i'(3)[of ?d] d(2) assms(5) by (metis not_le)
  let ?q = "(rr_pos s + i) mod NPROC"
  obtain y where y: "scheduler_rotate_round s = Ok (Some (?q, True), s\<lparr>sy := y,
      ptable := (ptable s)[?q := (the_proc ?q s)\<lparr>p_state := RUNNING\<rparr>], sched_ctx := regs s,
      rr_idx := of_nat ((?q + 1) mod NPROC), regs := p_context (the_proc ?q s)\<rparr>)"
      "held {} y" "cpu_proc (this_cpu y) = Some ?q"
    using rotate_round[OF assms(1,2) i] by blast
  let ?s' = "s\<lparr>sy := y, ptable := (ptable s)[?q := (the_proc ?q s)\<lparr>p_state := RUNNING\<rparr>], sched_ctx := regs s,
      rr_idx := of_nat ((?q + 1) mod NPROC), regs := p_context (the_proc ?q s)\<rparr>"
  have q: "?q < NPROC" by (simp add: NPROC_def)
  have pos: "rr_pos ?s' = (?q + 1) mod NPROC"
    by (simp add: unat_of_nat take_bit_nat_eq_self NPROC_def)
  have "?q = p \<or> rr_dist ?s' p < ?d"
  proof (cases "i = ?d")
    case True
    then show ?thesis using d(2) by simp
  next
    case False
    then have "i < ?d" using le by simp
    then have "rr_dist ?s' p < ?d"
      using mod_dist_step[OF assms(3,4)] unfolding rr_dist_def pos by blast
    then show ?thesis ..
  qed
  then show ?thesis using y i'(2) q pos assms(2)
    by (intro exI[of _ ?q] exI[of _ ?s']) simp
qed


section \<open>Priorities\<close>

abbreviation prio :: "'z proc_state_scheme \<Rightarrow> nat \<Rightarrow> int" where
  "prio s i \<equiv> sint (p_priority (the_proc i s))"

text \<open>The choice of \<open>scheduler_priority\<close>, without the locks.\<close>

primrec best :: "'z proc_state_scheme \<Rightarrow> nat list \<Rightarrow> nat option \<Rightarrow> int \<Rightarrow> nat option" where
  "best s [] c h = c"
| "best s (p # ps) c h =
     (if runnable s p \<and> h < prio s p then best s ps (Some p) (prio s p) else best s ps c h)"

lemma select_priority_eq:
  assumes "kheld {} s"
  shows "select_priority ps c h s =
    Ok (best s ps c (sint h), if ps = [] then s else s\<lparr>sy := settled (sy s)\<rparr>)"
  using assms
proof (induction ps arbitrary: s c h)
  case (Cons p ps)
  have lf: "wf_sync (Suc 0) (sy s)" "lock_free (L_proc p) (sy s)"
    using held_wf_sync[OF Cons.prems] heldD(9)[OF Cons.prems] by auto
  have idem: "settled (settled (sy s)) = settled (sy s)" using settled_settled wf_syncD(1)[OF lf(1)] .
  have upd: "best (s\<lparr>sy := y\<rparr>) ps c h = best s ps c h" for y c h
    by (induction ps arbitrary: c h) simp_all
  show ?case
    using Cons.IH[of "s\<lparr>sy := settled (sy s)\<rparr>"] held_settled[OF Cons.prems] idem
    by (simp add: Let_def proc_section[OF lf] upd)
qed simp

text \<open>What is chosen: the first of the runnable processes of highest priority, if that is above \<open>h\<close>.\<close>

lemma best_None: "best s ps None h = None \<longleftrightarrow> (\<forall>p \<in> set ps. runnable s p \<longrightarrow> prio s p \<le> h)"
proof -
  have some: "\<exists>q. best s qs (Some c) h = Some q" for qs c h by (induction qs arbitrary: c h) auto
  show ?thesis by (induction ps arbitrary: h) (auto simp: some)
qed

lemma best_Some:
  assumes "best s ps c h = Some p" "\<forall>q. c = Some q \<longrightarrow> prio s q = h"
  shows "c = Some p \<and> (\<forall>q \<in> set ps. runnable s q \<longrightarrow> prio s q \<le> h)
    \<or> p \<in> set ps \<and> runnable s p \<and> h < prio s p \<and> (\<forall>q \<in> set ps. runnable s q \<longrightarrow> prio s q \<le> prio s p)"
  using assms
proof (induction ps arbitrary: c h)
  case (Cons x ps)
  show ?case
  proof (cases "runnable s x \<and> h < prio s x")
    case True
    then have "best s ps (Some x) (prio s x) = Some p" using Cons.prems(1) by simp
    from Cons.IH[OF this] True show ?thesis by auto
  next
    case False
    then have "best s ps c h = Some p" using Cons.prems(1) by (simp split: if_splits)
    from Cons.IH[OF this Cons.prems(2)] False show ?thesis by auto
  qed
qed auto

lemma priority_round:
  assumes "kheld {} s" "length (ptable s) = NPROC" "best s [0..<NPROC] None (- 1) = Some q"
  shows "\<exists>y. scheduler_priority_round s = Ok (Some (q, True), s\<lparr>sy := y,
      ptable := (ptable s)[q := (the_proc q s)\<lparr>p_state := RUNNING, p_priority := p_priority (the_proc q s) - 3\<rparr>],
      sched_ctx := regs s, regs := p_context (the_proc q s)\<rparr>)
    \<and> held {} y \<and> cpu_proc (this_cpu y) = Some q"
proof -
  have upd: "best (s\<lparr>sy := y\<rparr>) ps c h = best s ps c h" for y ps c h
    by (induction ps arbitrary: c h) simp_all
  have q: "q < NPROC" "runnable s q" using best_Some[OF assms(3)] by auto
  let ?y1 = "settled (intr_on (sy s))"
  have h1: "held {} ?y1" using held_settled[OF held_intr_on[OF assms(1)]] .
  have sel: "select_priority [0..<NPROC] None (- 1) (s\<lparr>sy := intr_on (sy s)\<rparr>) = Ok (Some q, s\<lparr>sy := ?y1\<rparr>)"
    using select_priority_eq[of "s\<lparr>sy := intr_on (sy s)\<rparr>" "[0..<NPROC]" None "- 1"] held_intr_on[OF assms(1)] assms(3)
    by (simp add: upd) (simp add: NPROC_def)
  obtain y2 where y2: "kacquire (L_proc q) (s\<lparr>sy := ?y1\<rparr>) = Ok (s\<lparr>sy := y2\<rparr>)" "held {L_proc q} y2"
    using kacquire_held[of "{}" "s\<lparr>sy := ?y1\<rparr>" "L_proc q"] h1 by auto
  let ?y3 = "upd_mycpu (cpu_proc_update (\<lambda>_. Some q)) y2"
  let ?pt = "(ptable s)[q := (the_proc q s)\<lparr>p_state := RUNNING, p_priority := p_priority (the_proc q s) - 3\<rparr>]"
  have "held {L_proc q} ?y3" by (rule held_upd_mycpu[OF y2(2)]) simp
  then obtain y4 where y4: "krelease (L_proc q) (s\<lparr>sy := ?y3, ptable := ?pt\<rparr>) = Ok (s\<lparr>sy := y4, ptable := ?pt\<rparr>)"
      "held {} y4" "cpu_proc (this_cpu y4) = cpu_proc (this_cpu ?y3)"
    using krelease_held[of "{L_proc q}" "s\<lparr>sy := ?y3, ptable := ?pt\<rparr>" "L_proc q"] by (auto simp: sy_first)
  have "cpu_proc (this_cpu ?y3) = Some q" using heldD(1)[OF y2(2)] by simp
  then show ?thesis
    using sel y2(1) y4 q assms(2)
    by (intro exI[of _ y4]) (simp add: scheduler_priority_round_def upd_proc_def Let_def sy_first)
qed


lemma two_procs_runnable:
  assumes "i < NPROC"
  shows "runnable two_procs i \<longleftrightarrow> i = 1"
proof -
  consider "i = 0" | "i = 1" | j where "i = Suc (Suc j)" by (metis One_nat_def not0_implies_Suc)
  then show ?thesis using assms by cases (simp_all add: two_procs_def unused_proc_def NPROC_def)
qed

lemma two_procs_length: "length (ptable two_procs) = NPROC"
  by (simp add: two_procs_def NPROC_def)



end
