(* ===== verification/Sleeplock.thy ===== *)
theory Sleeplock
  imports Sched
begin

text \<open>
  kernel/sync/sleeplock.c: locks a process holds across disk operations. Each has a spinlock
  that protects it; waiting processes sleep on its address. \<open>acquiresleep\<close> is given in
  two forms: in steps that end where the process sleeps, and as one call for code whose
  model runs a single process at a time, where waiting for a held lock never ends.
\<close>

section \<open>State and operations\<close>

datatype slockaddr = SL_buf nat | SL_inode nat

record sleeplock =
  sl_locked :: u32
  sl_name :: string
  sl_pid :: i32

record sleep_state = proc_state +
  slocks :: "slockaddr \<Rightarrow> sleeplock"

text \<open>The spinlock \<open>lk->lk\<close>, and the sleeplock's address as a sleep channel.\<close>

primrec sl_lk :: "slockaddr \<Rightarrow> lockaddr" where
  "sl_lk (SL_buf b) = L_bufsleep b"
| "sl_lk (SL_inode i) = L_inodesleep i"

primrec sl_chan :: "slockaddr \<Rightarrow> channel" where
  "sl_chan (SL_buf b) = C_bufsleep b"
| "sl_chan (SL_inode i) = C_inodesleep i"

definition upd_slock :: "slockaddr \<Rightarrow> (sleeplock \<Rightarrow> sleeplock) \<Rightarrow> 'z sleep_state_scheme \<Rightarrow> 'z sleep_state_scheme" where
  "upd_slock lk f s = s\<lparr>slocks := (slocks s)(lk := f (slocks s lk))\<rparr>"

definition initsleeplock :: "slockaddr \<Rightarrow> string \<Rightarrow> 'z sleep_state_scheme \<Rightarrow> 'z sleep_state_scheme" where
  "initsleeplock lk nm s =
     upd_slock lk (\<lambda>l. l\<lparr>sl_name := nm, sl_locked := 0, sl_pid := 0\<rparr>)
       (s\<lparr>sy := initlock (sl_lk lk) ''sleep lock'' (sy s)\<rparr>)"

text \<open>The loop of \<open>acquiresleep\<close> and what follows it, entered with \<open>lk->lk\<close> held.\<close>

definition acquiresleep_loop ::
    "slockaddr \<Rightarrow> 'z sleep_state_scheme \<Rightarrow> (unit wait_result \<times> 'z sleep_state_scheme) res" where
  "acquiresleep_loop lk s =
     (if sl_locked (slocks s lk) \<noteq> 0
      then bind_res (sleep_out (Some (sl_chan lk)) (sl_lk lk) s) (\<lambda>(ie, s). Ok (Wait_sleeps ie, s))
      else
        let s = upd_slock lk (sl_locked_update (\<lambda>_. 1)) s in
        bind_res (myproc s) (\<lambda>(r, s).
        deref r (\<lambda>p.
        bind_res (krelease (sl_lk lk) (upd_slock lk (sl_pid_update (\<lambda>_. p_pid (the_proc p s))) s)) (\<lambda>s.
        Ok (Wait_returns (), s)))))"

definition acquiresleep_start ::
    "slockaddr \<Rightarrow> 'z sleep_state_scheme \<Rightarrow> (unit wait_result \<times> 'z sleep_state_scheme) res" where
  "acquiresleep_start lk s = bind_res (kacquire (sl_lk lk) s) (acquiresleep_loop lk)"

definition acquiresleep_resume ::
    "nat \<Rightarrow> slockaddr \<Rightarrow> u32 \<Rightarrow> 'z sleep_state_scheme \<Rightarrow> (unit wait_result \<times> 'z sleep_state_scheme) res" where
  "acquiresleep_resume p lk ie s = bind_res (sleep_in p (sl_lk lk) ie s) (acquiresleep_loop lk)"

definition acquiresleep :: "slockaddr \<Rightarrow> 'z sleep_state_scheme \<Rightarrow> 'z sleep_state_scheme res" where
  "acquiresleep lk s =
     bind_res (acquiresleep_start lk s) (\<lambda>(r, s).
     case r of Wait_returns u \<Rightarrow> Ok s | Wait_sleeps ie \<Rightarrow> Hang)"

definition releasesleep :: "slockaddr \<Rightarrow> 'z sleep_state_scheme \<Rightarrow> 'z sleep_state_scheme res" where
  "releasesleep lk s =
     bind_res (kacquire (sl_lk lk) s) (\<lambda>s.
     let s = upd_slock lk (\<lambda>l. l\<lparr>sl_locked := 0, sl_pid := 0\<rparr>) s in
     bind_res (wakeup (Some (sl_chan lk)) s) (\<lambda>s.
     krelease (sl_lk lk) s))"

definition holdingsleep :: "slockaddr \<Rightarrow> 'z sleep_state_scheme \<Rightarrow> (bool \<times> 'z sleep_state_scheme) res" where
  "holdingsleep lk s =
     bind_res (kacquire (sl_lk lk) s) (\<lambda>s.
     bind_res
       (if sl_locked (slocks s lk) \<noteq> 0
        then bind_res (myproc s) (\<lambda>(r, s). deref r (\<lambda>p. Ok (sl_pid (slocks s lk) = p_pid (the_proc p s), s)))
        else Ok (False, s)) (\<lambda>(r, s).
     bind_res (krelease (sl_lk lk) s) (\<lambda>s. Ok (r, s))))"

section \<open>Lemmas\<close>

lemma sl_lk_not_proc [simp]: "sl_lk lk \<noteq> L_proc i" "L_proc i \<noteq> sl_lk lk" "sl_lk lk \<notin> range L_proc"
  by (cases lk; simp; blast)+

text \<open>
  What the callers of the sleep locks keep unchanged: the CPU's process and its depth. The
  locks held stay the same, wakeups may have happened.
\<close>

definition same_cpu :: "lockaddr set \<Rightarrow> sync \<Rightarrow> sync \<Rightarrow> bool" where
  "same_cpu H y y' \<longleftrightarrow> held H y' \<and> cpu_proc (this_cpu y') = cpu_proc (this_cpu y) \<and> mycpu y' = mycpu y
     \<and> cpu_context (this_cpu y') = cpu_context (this_cpu y)"

lemma slock_last:
  "sy_update f (slocks_update g s) = slocks_update g (sy_update f s)"
  "ptable_update h (slocks_update g s) = slocks_update g (ptable_update h s)"
  by simp_all

lemma kacquire_same:
  assumes "kheld H s" "l \<notin> H" "card H < 99"
  shows "\<exists>y. kacquire l s = Ok (s\<lparr>sy := y\<rparr>) \<and> same_cpu (insert l H) (sy s) y"
  using kacquire_held[OF assms] by (auto simp: same_cpu_def)

lemma krelease_same:
  assumes "kheld H s" "l \<in> H"
  shows "\<exists>y. krelease l s = Ok (s\<lparr>sy := y\<rparr>) \<and> same_cpu (H - {l}) (sy s) y"
  using krelease_held[OF assms] by (auto simp: same_cpu_def)

lemma same_cpuD:
  assumes "same_cpu H y y'"
  shows "held H y'" "cpu_proc (this_cpu y') = cpu_proc (this_cpu y)" "mycpu y' = mycpu y"
    "cpu_context (this_cpu y') = cpu_context (this_cpu y)"
  using assms by (auto simp: same_cpu_def)

lemma same_cpu_trans: "same_cpu H y y' \<Longrightarrow> same_cpu H' y' y'' \<Longrightarrow> same_cpu H' y y''"
  by (auto simp: same_cpu_def)

lemma acquiresleep_free:
  assumes "kheld H s" "sl_lk lk \<notin> H" "card H < 98" "curproc s = Some p" "sl_locked (slocks s lk) = 0"
  shows "\<exists>y. acquiresleep lk s = Ok (s\<lparr>sy := y,
      slocks := (slocks s)(lk := (slocks s lk)\<lparr>sl_locked := 1, sl_pid := p_pid (the_proc p s)\<rparr>)\<rparr>)
    \<and> same_cpu H (sy s) y"
proof -
  obtain y1 where y1: "kacquire (sl_lk lk) s = Ok (s\<lparr>sy := y1\<rparr>)" "same_cpu (insert (sl_lk lk) H) (sy s) y1"
    using kacquire_same[OF assms(1,2)] assms(3) by auto
  note c1 = same_cpuD[OF y1(2)]
  let ?s1 = "s\<lparr>sy := y1, slocks := (slocks s)(lk := (slocks s lk)\<lparr>sl_locked := 1\<rparr>)\<rparr>"
  obtain y2 where y2: "myproc ?s1 = Ok (Some p, ?s1\<lparr>sy := y2\<rparr>)" "same_cpu (insert (sl_lk lk) H) y1 y2"
    using myproc_held[of "insert (sl_lk lk) H" ?s1] c1 assms(4) by (auto simp: same_cpu_def)
  note c2 = same_cpuD[OF y2(2)]
  let ?s2 = "s\<lparr>sy := y2, slocks := (slocks s)(lk := (slocks s lk)\<lparr>sl_locked := 1, sl_pid := p_pid (the_proc p s)\<rparr>)\<rparr>"
  obtain y3 where y3: "krelease (sl_lk lk) ?s2 = Ok (?s2\<lparr>sy := y3\<rparr>)" "same_cpu (insert (sl_lk lk) H - {sl_lk lk}) y2 y3"
    using krelease_same[of "insert (sl_lk lk) H" ?s2 "sl_lk lk"] c2 by auto
  have "insert (sl_lk lk) H - {sl_lk lk} = H" using assms(2) by simp
  then have same: "same_cpu H (sy s) y3"
    using same_cpu_trans[OF same_cpu_trans[OF y1(2) y2(2)]] y3(2) by simp
  then show ?thesis using y1(1) y2(1) y3(1) assms(5)
    by (intro exI[of _ y3])
      (simp add: acquiresleep_def acquiresleep_start_def acquiresleep_loop_def upd_slock_def deref_def Let_def slock_last)
qed

lemma releasesleep_eq:
  assumes "kheld H s" "sl_lk lk \<notin> H" "card H < 98" "\<And>i. L_proc i \<notin> H" "length (ptable s) = NPROC"
  shows "\<exists>y. releasesleep lk s = Ok (s\<lparr>sy := y, ptable := woken (Some (sl_chan lk)) (curproc s) (ptable s),
      slocks := (slocks s)(lk := (slocks s lk)\<lparr>sl_locked := 0, sl_pid := 0\<rparr>)\<rparr>)
    \<and> same_cpu H (sy s) y"
proof -
  obtain y1 where y1: "kacquire (sl_lk lk) s = Ok (s\<lparr>sy := y1\<rparr>)" "same_cpu (insert (sl_lk lk) H) (sy s) y1"
    using kacquire_same[OF assms(1,2)] assms(3) by auto
  note c1 = same_cpuD[OF y1(2)]
  let ?l = "(slocks s)(lk := (slocks s lk)\<lparr>sl_locked := 0, sl_pid := 0\<rparr>)"
  let ?pt = "woken (Some (sl_chan lk)) (curproc s) (ptable s)"
  obtain y2 where y2: "wakeup (Some (sl_chan lk)) (s\<lparr>sy := y1, slocks := ?l\<rparr>) = Ok (s\<lparr>sy := y2, ptable := ?pt, slocks := ?l\<rparr>)"
      "same_cpu (insert (sl_lk lk) H) y1 y2"
    using wakeup_held[of "insert (sl_lk lk) H" "s\<lparr>sy := y1, slocks := ?l\<rparr>" "Some (sl_chan lk)"] c1 assms(4,5)
    by (auto simp: same_cpu_def slock_last)
  note c2 = same_cpuD[OF y2(2)]
  let ?s2 = "s\<lparr>sy := y2, ptable := ?pt, slocks := ?l\<rparr>"
  obtain y3 where y3: "krelease (sl_lk lk) ?s2 = Ok (?s2\<lparr>sy := y3\<rparr>)" "same_cpu (insert (sl_lk lk) H - {sl_lk lk}) y2 y3"
    using krelease_same[of "insert (sl_lk lk) H" ?s2 "sl_lk lk"] c2 by auto
  have "insert (sl_lk lk) H - {sl_lk lk} = H" using assms(2) by simp
  then have "same_cpu H (sy s) y3"
    using same_cpu_trans[OF same_cpu_trans[OF y1(2) y2(2)]] y3(2) by simp
  then show ?thesis using y1(1) y2(1) y3(1)
    by (intro exI[of _ y3]) (simp add: releasesleep_def upd_slock_def Let_def slock_last sy_first)
qed

lemma holdingsleep_eq:
  assumes "kheld H s" "sl_lk lk \<notin> H" "card H < 98" "curproc s = Some p"
  shows "\<exists>y. holdingsleep lk s =
      Ok (sl_locked (slocks s lk) \<noteq> 0 \<and> sl_pid (slocks s lk) = p_pid (the_proc p s), s\<lparr>sy := y\<rparr>)
    \<and> same_cpu H (sy s) y"
proof -
  obtain y1 where y1: "kacquire (sl_lk lk) s = Ok (s\<lparr>sy := y1\<rparr>)" "same_cpu (insert (sl_lk lk) H) (sy s) y1"
    using kacquire_same[OF assms(1,2)] assms(3) by auto
  note c1 = same_cpuD[OF y1(2)]
  have ins: "insert (sl_lk lk) H - {sl_lk lk} = H" using assms(2) by simp
  have rel: "\<exists>y3. krelease (sl_lk lk) (s\<lparr>sy := y2\<rparr>) = Ok (s\<lparr>sy := y3\<rparr>) \<and> same_cpu H (sy s) y3"
    if "same_cpu (insert (sl_lk lk) H) (sy s) y2" for y2
    using krelease_same[of "insert (sl_lk lk) H" "s\<lparr>sy := y2\<rparr>" "sl_lk lk"] same_cpuD(1)[OF that]
      same_cpu_trans[OF that] ins by auto
  show ?thesis
  proof (cases "sl_locked (slocks s lk) \<noteq> 0")
    case True
    obtain y2 where y2: "myproc (s\<lparr>sy := y1\<rparr>) = Ok (Some p, s\<lparr>sy := y2\<rparr>)" "same_cpu (insert (sl_lk lk) H) y1 y2"
      using myproc_held[of "insert (sl_lk lk) H" "s\<lparr>sy := y1\<rparr>"] c1 assms(4) by (auto simp: same_cpu_def)
    obtain y3 where "krelease (sl_lk lk) (s\<lparr>sy := y2\<rparr>) = Ok (s\<lparr>sy := y3\<rparr>)" "same_cpu H (sy s) y3"
      using rel[OF same_cpu_trans[OF y1(2) y2(2)]] by blast
    then show ?thesis using y1(1) y2(1) True
      by (intro exI[of _ y3]) (simp add: holdingsleep_def deref_def)
  next
    case False
    obtain y3 where "krelease (sl_lk lk) (s\<lparr>sy := y1\<rparr>) = Ok (s\<lparr>sy := y3\<rparr>)" "same_cpu H (sy s) y3"
      using rel[OF y1(2)] by blast
    then show ?thesis using y1(1) False
      by (intro exI[of _ y3]) (simp add: holdingsleep_def)
  qed
qed

text \<open>A process that finds the lock held goes to sleep on it, and the scheduler takes over.\<close>

lemma acquiresleep_blocks:
  assumes "kheld {} s" "curproc s = Some p" "p < length (ptable s)" "sl_locked (slocks s lk) \<noteq> 0"
  shows "\<exists>ie s1 y. acquiresleep_start lk s = Ok (Wait_sleeps ie, s1) \<and> scheduler_back p s1 = Ok (s\<lparr>sy := y,
      ptable := (ptable s)[p := (the_proc p s)\<lparr>p_chan := Some (sl_chan lk), p_state := SLEEPING, p_context := regs s\<rparr>],
      regs := cpu_context (this_cpu (sy s))\<rparr>)
    \<and> held {} y \<and> cpu_proc (this_cpu y) = None"
proof -
  obtain ie y where "kop_run (Sleep (sl_chan lk) (sl_lk lk)) (s, \<lambda>_. Fresh) = Ok (s\<lparr>sy := y,
      ptable := (ptable s)[p := (the_proc p s)\<lparr>p_chan := Some (sl_chan lk), p_state := SLEEPING, p_context := regs s\<rparr>],
      regs := cpu_context (this_cpu (sy s))\<rparr>, (\<lambda>_. Fresh)(p := In_sleep (sl_lk lk) ie))" "held {} y" "cpu_proc (this_cpu y) = None"
    using sleep_step[OF assms(1-3) sl_lk_not_proc(3), of "sl_chan lk" lk "\<lambda>_. Fresh"] by metis
  then show ?thesis
    using assms(2,4) kacquire_same[OF assms(1), of "sl_lk lk"]
    by (fastforce simp: kop_run.simps deref_def acquiresleep_start_def acquiresleep_loop_def bind_res_eq_Ok)
qed


definition two_procs_sl :: sleep_state where
  "two_procs_sl = proc_state.extend two_procs (sleep_state.fields (\<lambda>_. \<lparr>sl_locked = 0, sl_name = [], sl_pid = 0\<rparr>))"


end
