(* ===== verification/Bio.thy ===== *)
theory Bio
  imports Sleeplock
begin

text \<open>
  kernel/fs/bio.c: the buffer cache. The buffers form a circular doubly linked list through
  \<open>prev\<close> and \<open>next\<close> with the sentinel \<open>bcache.head\<close>; a pointer to a buffer is an index
  into \<open>bufs\<close>, the sentinel is at index \<open>NBUF\<close>. The disk is a store of blocks; \<open>dhist\<close>
  records the blocks written to it in order, which is what a crash can cut short.
\<close>

section \<open>State\<close>

definition BSIZE :: nat where "BSIZE = 1024"
definition MAXOPBLOCKS :: nat where "MAXOPBLOCKS = 10"
definition LOGBLOCKS :: nat where "LOGBLOCKS = MAXOPBLOCKS * 3"
definition NBUF :: nat where "NBUF = MAXOPBLOCKS * 3"

type_synonym block = "u8 list"

record buf =
  b_valid :: u32
  b_disk :: u32
  b_dev :: u32
  b_blockno :: u32
  b_refcnt :: u32
  b_prev :: nat
  b_next :: nat
  b_data :: block

record bio_state = sleep_state +
  bufs :: "buf list"
  disk :: "u32 \<Rightarrow> block"
  dhist :: "(u32 \<times> block) list"

abbreviation the_buf :: "nat \<Rightarrow> 'z bio_state_scheme \<Rightarrow> buf" where
  "the_buf b s \<equiv> bufs s ! b"

definition upd_buf :: "nat \<Rightarrow> (buf \<Rightarrow> buf) \<Rightarrow> 'z bio_state_scheme \<Rightarrow> 'z bio_state_scheme" where
  "upd_buf b f s = s\<lparr>bufs := (bufs s)[b := f (bufs s ! b)]\<rparr>"

section \<open>Operations\<close>

text \<open>
  What a call of \<open>virtio_disk_rw\<close> has done when it returns: the block has been transferred
  and the device no longer owns the buffer. The driver that does it is in the theory of
  the virtio disk.
\<close>

definition disk_rw :: "nat \<Rightarrow> bool \<Rightarrow> 'z bio_state_scheme \<Rightarrow> 'z bio_state_scheme res" where
  "disk_rw b write s =
     bind_res (kacquire L_vdisk s) (\<lambda>s.
     let n = b_blockno (the_buf b s);
         s = (if write
              then s\<lparr>disk := (disk s)(n := b_data (the_buf b s)), dhist := dhist s @ [(n, b_data (the_buf b s))]\<rparr>
              else upd_buf b (b_data_update (\<lambda>_. disk s n)) s)
     in krelease L_vdisk (upd_buf b (b_disk_update (\<lambda>_. 0)) s))"

text \<open>One iteration of the loop of \<open>binit\<close>; the sentinel is at \<open>NBUF\<close>.\<close>

definition binit_one :: "nat \<Rightarrow> 'z bio_state_scheme \<Rightarrow> 'z bio_state_scheme" where
  "binit_one b s =
     (let s = upd_buf b (\<lambda>x. x\<lparr>b_next := b_next (the_buf NBUF s), b_prev := NBUF\<rparr>) s;
          s = initsleeplock (SL_buf b) ''buffer'' s;
          s = upd_buf (b_next (the_buf NBUF s)) (b_prev_update (\<lambda>_. b)) s
      in upd_buf NBUF (b_next_update (\<lambda>_. b)) s)"

definition binit :: "'z bio_state_scheme \<Rightarrow> 'z bio_state_scheme" where
  "binit s =
     (let s = s\<lparr>sy := initlock L_bcache ''bcache'' (sy s)\<rparr>;
          s = upd_buf NBUF (\<lambda>x. x\<lparr>b_prev := NBUF, b_next := NBUF\<rparr>) s
      in fold binit_one [0..<NBUF] s)"

text \<open>The two searches of \<open>bget\<close>: \<open>Some None\<close> when the loop ends at the sentinel.\<close>

partial_function (option) find_cached :: "buf list \<Rightarrow> u32 \<Rightarrow> u32 \<Rightarrow> nat \<Rightarrow> nat option option" where
  "find_cached bs dev blockno b =
     (if b = NBUF then Some None
      else if b_dev (bs ! b) = dev \<and> b_blockno (bs ! b) = blockno then Some (Some b)
      else find_cached bs dev blockno (b_next (bs ! b)))"

partial_function (option) find_free :: "buf list \<Rightarrow> nat \<Rightarrow> nat option option" where
  "find_free bs b =
     (if b = NBUF then Some None
      else if b_refcnt (bs ! b) = 0 then Some (Some b)
      else find_free bs (b_prev (bs ! b)))"

definition bget :: "u32 \<Rightarrow> u32 \<Rightarrow> 'z bio_state_scheme \<Rightarrow> (nat \<times> 'z bio_state_scheme) res" where
  "bget dev blockno s =
     bind_res (kacquire L_bcache s) (\<lambda>s.
     case find_cached (bufs s) dev blockno (b_next (the_buf NBUF s)) of
       None \<Rightarrow> Hang
     | Some (Some b) \<Rightarrow>
         let s = upd_buf b (b_refcnt_update (\<lambda>n. n + 1)) s in
         bind_res (krelease L_bcache s) (\<lambda>s.
         bind_res (acquiresleep (SL_buf b) s) (\<lambda>s. Ok (b, s)))
     | Some None \<Rightarrow>
         (case find_free (bufs s) (b_prev (the_buf NBUF s)) of
            None \<Rightarrow> Hang
          | Some None \<Rightarrow> Panic ''bget: no buffers''
          | Some (Some b) \<Rightarrow>
              let s = upd_buf b (\<lambda>x. x\<lparr>b_dev := dev, b_blockno := blockno, b_valid := 0, b_disk := 0, b_refcnt := 1\<rparr>) s in
              bind_res (krelease L_bcache s) (\<lambda>s.
              bind_res (acquiresleep (SL_buf b) s) (\<lambda>s. Ok (b, s)))))"

definition bread :: "u32 \<Rightarrow> u32 \<Rightarrow> 'z bio_state_scheme \<Rightarrow> (nat \<times> 'z bio_state_scheme) res" where
  "bread dev blockno s =
     bind_res (bget dev blockno s) (\<lambda>(b, s).
     if b_valid (the_buf b s) = 0
     then bind_res (disk_rw b False s) (\<lambda>s. Ok (b, upd_buf b (b_valid_update (\<lambda>_. 1)) s))
     else Ok (b, s))"

definition bwrite :: "nat \<Rightarrow> 'z bio_state_scheme \<Rightarrow> 'z bio_state_scheme res" where
  "bwrite b s =
     bind_res (holdingsleep (SL_buf b) s) (\<lambda>(h, s).
     if \<not> h then Panic ''bwrite''
     else disk_rw b True (upd_buf b (b_disk_update (\<lambda>_. 1)) s))"

text \<open>The six assignments that move a buffer to the front of the list.\<close>

definition move_to_front :: "nat \<Rightarrow> buf list \<Rightarrow> buf list" where
  "move_to_front b bs =
     (let nx = b_next (bs ! b);
          bs = bs[nx := (bs ! nx)\<lparr>b_prev := b_prev (bs ! b)\<rparr>];
          pv = b_prev (bs ! b);
          bs = bs[pv := (bs ! pv)\<lparr>b_next := b_next (bs ! b)\<rparr>];
          bs = bs[b := (bs ! b)\<lparr>b_next := b_next (bs ! NBUF)\<rparr>];
          bs = bs[b := (bs ! b)\<lparr>b_prev := NBUF\<rparr>];
          h = b_next (bs ! NBUF);
          bs = bs[h := (bs ! h)\<lparr>b_prev := b\<rparr>]
      in bs[NBUF := (bs ! NBUF)\<lparr>b_next := b\<rparr>])"

definition brelse :: "nat \<Rightarrow> 'z bio_state_scheme \<Rightarrow> 'z bio_state_scheme res" where
  "brelse b s =
     bind_res (holdingsleep (SL_buf b) s) (\<lambda>(h, s).
     if \<not> h then Panic ''brelse''
     else
       bind_res (releasesleep (SL_buf b) s) (\<lambda>s.
       bind_res (kacquire L_bcache s) (\<lambda>s.
       let s = upd_buf b (b_refcnt_update (\<lambda>n. n - 1)) s;
           s = (if b_refcnt (the_buf b s) = 0 then s\<lparr>bufs := move_to_front b (bufs s)\<rparr> else s)
       in krelease L_bcache s)))"

definition bpin :: "nat \<Rightarrow> 'z bio_state_scheme \<Rightarrow> 'z bio_state_scheme res" where
  "bpin b s =
     bind_res (kacquire L_bcache s) (\<lambda>s.
     krelease L_bcache (upd_buf b (b_refcnt_update (\<lambda>n. n + 1)) s))"

definition bunpin :: "nat \<Rightarrow> 'z bio_state_scheme \<Rightarrow> 'z bio_state_scheme res" where
  "bunpin b s =
     bind_res (kacquire L_bcache s) (\<lambda>s.
     krelease L_bcache (upd_buf b (b_refcnt_update (\<lambda>n. n - 1)) s))"

text \<open>The loop of \<open>flush_all_blocks\<close>, entered with \<open>bcache.lock\<close> held.\<close>

definition flush_one :: "u32 \<Rightarrow> nat \<Rightarrow> 'z bio_state_scheme \<Rightarrow> 'z bio_state_scheme res" where
  "flush_one dev b s =
     (if b_dev (the_buf b s) = dev \<and> b_valid (the_buf b s) \<noteq> 0
      then
        let s = upd_buf b (b_refcnt_update (\<lambda>n. n + 1)) s in
        bind_res (krelease L_bcache s) (\<lambda>s.
        bind_res (acquiresleep (SL_buf b) s) (\<lambda>s.
        bind_res (disk_rw b True s) (\<lambda>s.
        bind_res (releasesleep (SL_buf b) s) (\<lambda>s.
        bind_res (kacquire L_bcache s) (\<lambda>s.
        let s = upd_buf b (b_refcnt_update (\<lambda>n. n - 1)) s in
        if b_refcnt (the_buf b s) = 0 then wakeup (Some (C_buf b)) s else Ok s)))))
      else Ok s)"

partial_function (option) flush_loop :: "u32 \<Rightarrow> nat \<Rightarrow> 'z bio_state_scheme \<Rightarrow> 'z bio_state_scheme res option" where
  "flush_loop dev b s =
     (if b = NBUF then Some (Ok s)
      else case flush_one dev b s of
             Ok s \<Rightarrow> flush_loop dev (b_next (the_buf b s)) s
           | Panic e \<Rightarrow> Some (Panic e)
           | Hang \<Rightarrow> Some Hang)"

definition flush_all_blocks :: "u32 \<Rightarrow> 'z bio_state_scheme \<Rightarrow> 'z bio_state_scheme res" where
  "flush_all_blocks dev s =
     bind_res (kacquire L_bcache s) (\<lambda>s.
     bind_res (run_loop (flush_loop dev (b_next (the_buf NBUF s)) s)) (\<lambda>s.
     krelease L_bcache s))"

end
