(* ===== verification/Bio_Lru.thy ===== *)
theory Bio_Lru
  imports Bio
begin

text \<open>
  The circular list of the buffer cache: \<open>dlist bs xs\<close> says that the links of \<open>bs\<close> go
  through the buffers \<open>xs\<close> in order, forwards and backwards, from the sentinel and back to
  it. The searches of \<open>bget\<close> are searches in \<open>xs\<close>, and the six assignments of
  \<open>brelse\<close> move a buffer to the front.
\<close>

section \<open>Doubly linked segments\<close>

primrec dseg :: "buf list \<Rightarrow> nat \<Rightarrow> nat list \<Rightarrow> nat \<Rightarrow> bool" where
  "dseg bs u [] w \<longleftrightarrow> b_next (bs ! u) = w \<and> b_prev (bs ! w) = u"
| "dseg bs u (x # xs) w \<longleftrightarrow> b_next (bs ! u) = x \<and> b_prev (bs ! x) = u \<and> dseg bs x xs w"

abbreviation dlist :: "buf list \<Rightarrow> nat list \<Rightarrow> bool" where
  "dlist bs xs \<equiv> dseg bs NBUF xs NBUF"

lemma dseg_append: "dseg bs u (as @ b # zs) w \<longleftrightarrow> dseg bs u as b \<and> dseg bs b zs w"
  by (induction as arbitrary: u) auto

lemma dseg_cong:
  assumes "dseg bs u xs w" "\<And>x. x \<in> insert u (set xs) \<Longrightarrow> b_next (bs' ! x) = b_next (bs ! x)"
    "\<And>x. x \<in> insert w (set xs) \<Longrightarrow> b_prev (bs' ! x) = b_prev (bs ! x)"
  shows "dseg bs' u xs w"
  using assms by (induction xs arbitrary: u) auto

lemma dseg_next: "dseg bs u xs w \<Longrightarrow> b_next (bs ! u) = hd (xs @ [w])"
  by (cases xs) auto

lemma dseg_prev: "dseg bs u xs w \<Longrightarrow> b_prev (bs ! w) = last (u # xs)"
  by (induction xs arbitrary: u) auto

section \<open>The searches\<close>

lemma find_cached_seg:
  assumes "dseg bs u xs NBUF" "NBUF \<notin> set xs"
  shows "find_cached bs dev n (b_next (bs ! u)) = Some (find (\<lambda>b. b_dev (bs ! b) = dev \<and> b_blockno (bs ! b) = n) xs)"
  using assms
proof (induction xs arbitrary: u)
  case Nil
  then show ?case by (simp add: find_cached.simps)
next
  case (Cons x xs)
  then show ?case by (subst find_cached.simps) auto
qed

lemma find_free_seg:
  assumes "dseg bs NBUF xs w" "NBUF \<notin> set xs"
  shows "find_free bs (b_prev (bs ! w)) = Some (find (\<lambda>b. b_refcnt (bs ! b) = 0) (rev xs))"
  using assms
proof (induction xs arbitrary: w rule: rev_induct)
  case Nil
  then show ?case by (simp add: find_free.simps)
next
  case (snoc x xs)
  then have "dseg bs NBUF xs x" "b_prev (bs ! w) = x" by (auto simp: dseg_append)
  then show ?case using snoc by (subst find_free.simps) auto
qed

section \<open>Moving to the front\<close>

text \<open>Taking a buffer out: the first two assignments.\<close>

definition unlinked :: "nat \<Rightarrow> buf list \<Rightarrow> buf list" where
  "unlinked b bs =
     (let nx = b_next (bs ! b);
          bs = bs[nx := (bs ! nx)\<lparr>b_prev := b_prev (bs ! b)\<rparr>];
          pv = b_prev (bs ! b)
      in bs[pv := (bs ! pv)\<lparr>b_next := b_next (bs ! b)\<rparr>])"

text \<open>Putting it in after the sentinel: the other four.\<close>

definition linked_first :: "nat \<Rightarrow> buf list \<Rightarrow> buf list" where
  "linked_first b bs =
     (let bs = bs[b := (bs ! b)\<lparr>b_next := b_next (bs ! NBUF)\<rparr>];
          bs = bs[b := (bs ! b)\<lparr>b_prev := NBUF\<rparr>];
          h = b_next (bs ! NBUF);
          bs = bs[h := (bs ! h)\<lparr>b_prev := b\<rparr>]
      in bs[NBUF := (bs ! NBUF)\<lparr>b_next := b\<rparr>])"

lemma move_to_front_eq: "move_to_front b bs = linked_first b (unlinked b bs)"
  by (simp add: move_to_front_def linked_first_def unlinked_def Let_def)

lemma dlist_unlinked:
  assumes "dlist bs (as @ b # zs)" "distinct (as @ b # zs)" "NBUF \<notin> set (as @ b # zs)"
    "length bs = Suc NBUF" "set (as @ b # zs) \<subseteq> {..<NBUF}"
  shows "dlist (unlinked b bs) (as @ zs)"
proof -
  define u where "u = last (NBUF # as)"
  define v where "v = hd (zs @ [NBUF])"
  have seg: "dseg bs NBUF as b" "dseg bs b zs NBUF" using assms(1) by (auto simp: dseg_append)
  have nv: "b_next (bs ! b) = v" using dseg_next[OF seg(2)] by (simp add: v_def)
  have pu: "b_prev (bs ! b) = u" using dseg_prev[OF seg(1)] by (simp add: u_def)
  have uin: "u \<in> insert NBUF (set as)" unfolding u_def by (cases as rule: rev_cases) auto
  have vin: "v \<in> insert NBUF (set zs)" unfolding v_def by (cases zs) auto
  note uin = uin vin
  have bne: "u \<noteq> b" "v \<noteq> b" using uin assms(2,3) by auto
  have len: "u < length bs" "v < length bs" using uin assms(4,5) by auto
  have next': "b_next (unlinked b bs ! x) = (if x = u then v else b_next (bs ! x))"
    and prev': "b_prev (unlinked b bs ! x) = (if x = v then u else b_prev (bs ! x))" for x
    using nv pu bne len by (auto simp: unlinked_def Let_def nth_list_update)
  have left: "as = [] \<or> (\<exists>as'. as = as' @ [u] \<and> dseg bs NBUF as' u)"
    using seg(1) by (cases as rule: rev_cases) (auto simp: u_def dseg_append)
  have right: "zs = [] \<or> (\<exists>zs'. zs = v # zs' \<and> dseg bs v zs' NBUF)"
    using seg(2) by (cases zs) (auto simp: v_def)
  have joinr: "dseg (unlinked b bs) u zs NBUF"
    using right
  proof
    assume "zs = []" then show ?thesis using next'[of u] prev'[of v] by (simp add: v_def)
  next
    assume "\<exists>zs'. zs = v # zs' \<and> dseg bs v zs' NBUF"
    then obtain zs' where zs: "zs = v # zs'" "dseg bs v zs' NBUF" by blast
    have "dseg (unlinked b bs) v zs' NBUF"
      by (rule dseg_cong[OF zs(2)]) (use next' prev' zs(1) uin assms(2,3) in \<open>auto split: if_splits\<close>)
    then show ?thesis using zs(1) next'[of u] prev'[of v] by simp
  qed
  show ?thesis
    using left
  proof
    assume "as = []" then show ?thesis using joinr by (simp add: u_def)
  next
    assume "\<exists>as'. as = as' @ [u] \<and> dseg bs NBUF as' u"
    then obtain as' where as: "as = as' @ [u]" "dseg bs NBUF as' u" by blast
    have "dseg (unlinked b bs) NBUF as' u"
      by (rule dseg_cong[OF as(2)]) (use next' prev' as(1) uin assms(2,3) in \<open>auto split: if_splits\<close>)
    then show ?thesis using joinr as(1) by (simp add: dseg_append)
  qed
qed

lemma dlist_linked_first:
  assumes "dlist bs xs" "b \<notin> set xs" "b < NBUF" "NBUF \<notin> set xs" "distinct xs" "length bs = Suc NBUF" "set xs \<subseteq> {..<NBUF}"
  shows "dlist (linked_first b bs) (b # xs)"
proof -
  define h where "h = hd (xs @ [NBUF])"
  have nh: "b_next (bs ! NBUF) = h" using dseg_next[OF assms(1)] by (simp add: h_def)
  have hin: "h \<in> insert NBUF (set xs)" unfolding h_def by (cases xs) auto
  have hb: "h \<noteq> b" "b \<noteq> NBUF" using hin assms(2,3) by auto
  have len: "h < length bs" "b < length bs" "NBUF < length bs" using hin assms(3,6,7) by auto
  have next': "b_next (linked_first b bs ! x) = (if x = NBUF then b else if x = b then h else b_next (bs ! x))"
    and prev': "b_prev (linked_first b bs ! x) = (if x = h then b else if x = b then NBUF else b_prev (bs ! x))" for x
    using nh hb len by (auto simp: linked_first_def Let_def nth_list_update)
  show ?thesis
  proof (cases xs)
    case Nil
    then show ?thesis using next' prev' hb by (simp add: h_def)
  next
    case (Cons x zs)
    then have hx: "h = x" "x \<noteq> NBUF" "dseg bs x zs NBUF" using assms(1,4) by (auto simp: h_def)
    have "x \<notin> set zs" using assms(5) Cons by simp
    then have "dseg (linked_first b bs) x zs NBUF"
      by (intro dseg_cong[OF hx(3)]) (use next' prev' Cons hx assms(2,4) hb in \<open>auto split: if_splits\<close>)
    then show ?thesis using Cons hx next' prev' hb by simp
  qed
qed

end
