(* ===== verification/Bio_Cache.thy ===== *)
theory Bio_Cache
  imports Bio_Lru
begin

text \<open>
  What the buffer cache promises to its clients. \<open>cache dv s V R K\<close> relates a state to
  the contents \<open>V\<close> the blocks of device \<open>dv\<close> have as the kernel sees them, the number \<open>R\<close>
  of references to each block and the set \<open>K\<close> of blocks the current process has locked. A
  block nobody refers to has on disk the contents the kernel sees, so its buffer may be
  recycled. The lemmas give the effect of each operation on \<open>V\<close>, \<open>R\<close>, \<open>K\<close> and the disk.
\<close>

section \<open>The list of buffers\<close>

definition lru_ok :: "buf list \<Rightarrow> bool" where
  "lru_ok bs \<longleftrightarrow> (\<exists>xs. dlist bs xs \<and> distinct xs \<and> set xs = {..<NBUF}) \<and> length bs = Suc NBUF"

lemma lru_ok_length: "lru_ok bs \<Longrightarrow> length bs = Suc NBUF"
  by (simp add: lru_ok_def)

lemma lru_find_cached:
  assumes "lru_ok bs"
  shows "\<exists>r. find_cached bs dev n (b_next (bs ! NBUF)) = Some r
    \<and> (case r of None \<Rightarrow> \<forall>i < NBUF. \<not> (b_dev (bs ! i) = dev \<and> b_blockno (bs ! i) = n)
       | Some i \<Rightarrow> i < NBUF \<and> b_dev (bs ! i) = dev \<and> b_blockno (bs ! i) = n)"
proof -
  obtain xs where xs: "dlist bs xs" "set xs = {..<NBUF}" using assms by (auto simp: lru_ok_def)
  have "find_cached bs dev n (b_next (bs ! NBUF)) =
      Some (find (\<lambda>b. b_dev (bs ! b) = dev \<and> b_blockno (bs ! b) = n) xs)"
    using xs by (intro find_cached_seg) auto
  moreover have "case find (\<lambda>b. b_dev (bs ! b) = dev \<and> b_blockno (bs ! b) = n) xs of
      None \<Rightarrow> \<forall>i < NBUF. \<not> (b_dev (bs ! i) = dev \<and> b_blockno (bs ! i) = n)
    | Some i \<Rightarrow> i < NBUF \<and> b_dev (bs ! i) = dev \<and> b_blockno (bs ! i) = n"
  proof (cases "find (\<lambda>b. b_dev (bs ! b) = dev \<and> b_blockno (bs ! b) = n) xs")
    case None
    then have "\<forall>i < NBUF. \<not> (b_dev (bs ! i) = dev \<and> b_blockno (bs ! i) = n)" using xs(2) by (auto simp: find_None_iff)
    then show ?thesis using None by simp
  next
    case (Some i)
    then have "i \<in> set xs" "b_dev (bs ! i) = dev \<and> b_blockno (bs ! i) = n" by (auto simp: find_Some_iff)
    then show ?thesis using Some xs(2) by simp
  qed
  ultimately show ?thesis by blast
qed

lemma lru_find_free:
  assumes "lru_ok bs"
  shows "\<exists>r. find_free bs (b_prev (bs ! NBUF)) = Some r
    \<and> (case r of None \<Rightarrow> \<forall>i < NBUF. b_refcnt (bs ! i) \<noteq> 0 | Some i \<Rightarrow> i < NBUF \<and> b_refcnt (bs ! i) = 0)"
proof -
  obtain xs where xs: "dlist bs xs" "set xs = {..<NBUF}" using assms by (auto simp: lru_ok_def)
  have "find_free bs (b_prev (bs ! NBUF)) = Some (find (\<lambda>b. b_refcnt (bs ! b) = 0) (rev xs))"
    using xs by (intro find_free_seg) auto
  moreover have "case find (\<lambda>b. b_refcnt (bs ! b) = 0) (rev xs) of
      None \<Rightarrow> \<forall>i < NBUF. b_refcnt (bs ! i) \<noteq> 0 | Some i \<Rightarrow> i < NBUF \<and> b_refcnt (bs ! i) = 0"
  proof (cases "find (\<lambda>b. b_refcnt (bs ! b) = 0) (rev xs)")
    case None
    then have "\<forall>i < NBUF. b_refcnt (bs ! i) \<noteq> 0" using xs(2) by (auto simp: find_None_iff)
    then show ?thesis using None by simp
  next
    case (Some i)
    then have "i \<in> set (rev xs)" "b_refcnt (bs ! i) = 0" by (auto simp: find_Some_iff simp del: set_rev)
    then show ?thesis using Some xs(2) by simp
  qed
  ultimately show ?thesis by blast
qed

lemma list_update_field: "g y = g (xs ! i) \<Longrightarrow> g (xs[i := y] ! x) = g (xs ! x)"
  by (cases "i < length xs"; cases "x = i") (simp_all add: list_update_beyond)

lemmas buf_fields = list_update_field[where g = b_data] list_update_field[where g = b_valid]
  list_update_field[where g = b_dev] list_update_field[where g = b_blockno]
  list_update_field[where g = b_refcnt] list_update_field[where g = b_disk]

lemma lru_ok_update:
  assumes "lru_ok bs" "b_next (f (bs ! b)) = b_next (bs ! b)" "b_prev (f (bs ! b)) = b_prev (bs ! b)"
  shows "lru_ok (bs[b := f (bs ! b)])"
proof -
  have same: "b_next (bs[b := f (bs ! b)] ! x) = b_next (bs ! x)" "b_prev (bs[b := f (bs ! b)] ! x) = b_prev (bs ! x)" for x
    using list_update_field[where g = b_next, OF assms(2)] list_update_field[where g = b_prev, OF assms(3)] by simp_all
  obtain xs where "dlist bs xs" "distinct xs" "set xs = {..<NBUF}" "length bs = Suc NBUF"
    using assms(1) by (auto simp: lru_ok_def)
  moreover from this have "dlist (bs[b := f (bs ! b)]) xs" by (intro dseg_cong[OF _ same]) auto
  ultimately show ?thesis by (auto simp: lru_ok_def)
qed

lemma linked_first_fields:
  "b_data (linked_first b bs ! x) = b_data (bs ! x)" "b_valid (linked_first b bs ! x) = b_valid (bs ! x)"
  "b_dev (linked_first b bs ! x) = b_dev (bs ! x)" "b_blockno (linked_first b bs ! x) = b_blockno (bs ! x)"
  "b_refcnt (linked_first b bs ! x) = b_refcnt (bs ! x)" "b_disk (linked_first b bs ! x) = b_disk (bs ! x)"
  "length (linked_first b bs) = length bs"
  by (simp_all add: linked_first_def Let_def buf_fields)

lemma unlinked_fields:
  "b_data (unlinked b bs ! x) = b_data (bs ! x)" "b_valid (unlinked b bs ! x) = b_valid (bs ! x)"
  "b_dev (unlinked b bs ! x) = b_dev (bs ! x)" "b_blockno (unlinked b bs ! x) = b_blockno (bs ! x)"
  "b_refcnt (unlinked b bs ! x) = b_refcnt (bs ! x)" "b_disk (unlinked b bs ! x) = b_disk (bs ! x)"
  "length (unlinked b bs) = length bs"
  by (simp_all add: unlinked_def Let_def buf_fields)

lemmas move_to_front_fields [simp] =
  linked_first_fields[of b "unlinked b bs" for b bs, unfolded unlinked_fields, folded move_to_front_eq]

lemma lru_ok_move_to_front:
  assumes "lru_ok bs" "b < NBUF"
  shows "lru_ok (move_to_front b bs)"
proof -
  obtain xs where xs: "dlist bs xs" "distinct xs" "set xs = {..<NBUF}" "length bs = Suc NBUF"
    using assms(1) by (auto simp: lru_ok_def)
  obtain as zs where sp: "xs = as @ b # zs" using assms(2) xs(3) by (metis lessThan_iff split_list)
  have "NBUF \<notin> set (as @ b # zs)" using xs(3) sp by auto
  then have "dlist (unlinked b bs) (as @ zs)"
    using xs sp by (intro dlist_unlinked) auto
  then have "dlist (move_to_front b bs) (b # as @ zs)"
    using xs sp assms(2) \<open>NBUF \<notin> set (as @ b # zs)\<close> unfolding move_to_front_eq
    by (intro dlist_linked_first) (auto simp: unlinked_fields)
  moreover have "distinct (b # as @ zs)" "set (b # as @ zs) = {..<NBUF}" using xs(2,3) sp by auto
  ultimately show ?thesis using xs(4) unfolding lru_ok_def by (intro conjI exI[of _ "b # as @ zs"]) simp_all
qed

section \<open>The view of the clients\<close>

text \<open>A process runs and the kernel holds no spinlock.\<close>

definition ready :: "nat \<Rightarrow> 'z proc_state_scheme \<Rightarrow> bool" where
  "ready p s \<longleftrightarrow> kheld {} s \<and> curproc s = Some p \<and> p < NPROC \<and> length (ptable s) = NPROC"

abbreviation mypid :: "'z proc_state_scheme \<Rightarrow> i32" where
  "mypid s \<equiv> p_pid (the_proc (the (curproc s)) s)"

definition buf_ok :: "u32 \<Rightarrow> 'z bio_state_scheme \<Rightarrow> (u32 \<Rightarrow> block) \<Rightarrow> (u32 \<Rightarrow> nat) \<Rightarrow> u32 set \<Rightarrow> nat \<Rightarrow> bool" where
  "buf_ok dv s V R K i \<longleftrightarrow>
     (if b_dev (the_buf i s) = dv
      then unat (b_refcnt (the_buf i s)) = R (b_blockno (the_buf i s))
        \<and> V (b_blockno (the_buf i s)) =
            (if b_valid (the_buf i s) \<noteq> 0 then b_data (the_buf i s) else disk s (b_blockno (the_buf i s)))
        \<and> (sl_locked (slocks s (SL_buf i)) \<noteq> 0 \<longleftrightarrow> b_blockno (the_buf i s) \<in> K)
        \<and> (b_blockno (the_buf i s) \<in> K \<longrightarrow> b_valid (the_buf i s) \<noteq> 0 \<and> sl_pid (slocks s (SL_buf i)) = mypid s)
      else b_refcnt (the_buf i s) = 0 \<and> sl_locked (slocks s (SL_buf i)) = 0)"

definition has_block :: "u32 \<Rightarrow> 'z bio_state_scheme \<Rightarrow> u32 \<Rightarrow> nat \<Rightarrow> bool" where
  "has_block dv s n i \<longleftrightarrow> i < NBUF \<and> b_dev (the_buf i s) = dv \<and> b_blockno (the_buf i s) = n"

definition cache :: "u32 \<Rightarrow> 'z bio_state_scheme \<Rightarrow> (u32 \<Rightarrow> block) \<Rightarrow> (u32 \<Rightarrow> nat) \<Rightarrow> u32 set \<Rightarrow> bool" where
  "cache dv s V R K \<longleftrightarrow> lru_ok (bufs s) \<and> (\<forall>i < NBUF. buf_ok dv s V R K i)
     \<and> (\<forall>n i j. has_block dv s n i \<longrightarrow> has_block dv s n j \<longrightarrow> i = j)
     \<and> (\<forall>n. (\<forall>i. \<not> has_block dv s n i) \<longrightarrow> R n = 0)
     \<and> (\<forall>n. R n = 0 \<longrightarrow> V n = disk s n \<and> n \<notin> K)"

lemma cacheD:
  assumes "cache dv s V R K"
  shows "lru_ok (bufs s)" "\<And>i. i < NBUF \<Longrightarrow> buf_ok dv s V R K i"
    "\<And>n i j. has_block dv s n i \<Longrightarrow> has_block dv s n j \<Longrightarrow> i = j"
    "\<And>n. (\<And>i. \<not> has_block dv s n i) \<Longrightarrow> R n = 0" "\<And>n. R n = 0 \<Longrightarrow> V n = disk s n \<and> n \<notin> K"
  using assms unfolding cache_def by blast+

lemma has_block_buf_ok:
  assumes "cache dv s V R K" "has_block dv s n b"
  shows "b < NBUF" "b < length (bufs s)" "b_dev (the_buf b s) = dv" "b_blockno (the_buf b s) = n"
    "unat (b_refcnt (the_buf b s)) = R n"
    "V n = (if b_valid (the_buf b s) \<noteq> 0 then b_data (the_buf b s) else disk s n)"
    "sl_locked (slocks s (SL_buf b)) \<noteq> 0 \<longleftrightarrow> n \<in> K"
    "n \<in> K \<Longrightarrow> b_valid (the_buf b s) \<noteq> 0 \<and> sl_pid (slocks s (SL_buf b)) = mypid s"
  using cacheD(2)[OF assms(1), of b] lru_ok_length[OF cacheD(1)[OF assms(1)]] assms(2)
  unfolding has_block_def buf_ok_def by auto

text \<open>A change of one cached block.\<close>

lemma cache_update:
  assumes c: "cache dv s V R K" and l: "lru_ok (bufs s')" and h: "has_block dv s n b" and pid: "mypid s' = mypid s"
    and same: "\<And>i. i < NBUF \<Longrightarrow> i \<noteq> b \<Longrightarrow> b_dev (the_buf i s') = b_dev (the_buf i s)
        \<and> b_blockno (the_buf i s') = b_blockno (the_buf i s) \<and> b_valid (the_buf i s') = b_valid (the_buf i s)
        \<and> b_refcnt (the_buf i s') = b_refcnt (the_buf i s) \<and> b_data (the_buf i s') = b_data (the_buf i s)
        \<and> slocks s' (SL_buf i) = slocks s (SL_buf i)"
    and key: "b_dev (the_buf b s') = dv" "b_blockno (the_buf b s') = n"
    and other: "\<And>m. m \<noteq> n \<Longrightarrow> V' m = V m \<and> R' m = R m \<and> (m \<in> K' \<longleftrightarrow> m \<in> K) \<and> disk s' m = disk s m"
    and here: "buf_ok dv s' V' R' K' b" "R' n = 0 \<Longrightarrow> V' n = disk s' n \<and> n \<notin> K'"
  shows "cache dv s' V' R' K'"
proof -
  have hb: "has_block dv s' m i \<longleftrightarrow> has_block dv s m i" for m i
    using same[of i] key h by (cases "i = b") (auto simp: has_block_def)
  have ok: "buf_ok dv s' V' R' K' i" if i: "i < NBUF" for i
  proof (cases "i = b")
    case False
    have ne: "b_dev (the_buf i s) = dv \<Longrightarrow> b_blockno (the_buf i s) \<noteq> n"
      using cacheD(3)[OF c h, of i] i False by (auto simp: has_block_def)
    show ?thesis
      using cacheD(2)[OF c i] same[OF i False] other[of "b_blockno (the_buf i s)"] ne pid
      by (simp add: buf_ok_def split: if_splits)
  qed (use here in simp)
  have zero: "R' m = 0" if "\<And>i. \<not> has_block dv s' m i" for m
    using that cacheD(4)[OF c, of m] h other[of m] by (cases "m = n") (auto simp: hb)
  have clean: "V' m = disk s' m \<and> m \<notin> K'" if "R' m = 0" for m
    using that cacheD(5)[OF c, of m] other[of m] here(2) by (cases "m = n") auto
  show ?thesis unfolding cache_def
    using l ok cacheD(3)[OF c] zero clean by (auto simp: hb)
qed

section \<open>What the operations leave alone\<close>

definition bio_step :: "nat \<Rightarrow> 'z bio_state_scheme \<Rightarrow> 'z bio_state_scheme \<Rightarrow> bool" where
  "bio_step p s s' \<longleftrightarrow> ready p s'
     \<and> s' = s\<lparr>sy := sy s', ptable := ptable s', slocks := slocks s', bufs := bufs s', disk := disk s', dhist := dhist s'\<rparr>
     \<and> (\<forall>i < NPROC. \<exists>st. the_proc i s' = (the_proc i s)\<lparr>p_state := st\<rparr>)
     \<and> (\<forall>i. slocks s' (SL_inode i) = slocks s (SL_inode i))"

lemma bio_step_refl: "ready p s \<Longrightarrow> bio_step p s s"
proof -
  have "\<exists>st. pr = pr\<lparr>p_state := st\<rparr>" for pr :: proc by (rule exI[of _ "p_state pr"]) simp
  then show "ready p s \<Longrightarrow> bio_step p s s" by (simp add: bio_step_def)
qed

lemma bio_step_trans:
  assumes "bio_step p s s1" "bio_step p s1 s2"
  shows "bio_step p s s2"
proof -
  have "\<exists>st. the_proc i s2 = (the_proc i s)\<lparr>p_state := st\<rparr>" if i: "i < NPROC" for i
  proof -
    obtain a b where "the_proc i s1 = (the_proc i s)\<lparr>p_state := a\<rparr>" "the_proc i s2 = (the_proc i s1)\<lparr>p_state := b\<rparr>"
      using assms i unfolding bio_step_def by blast
    then show ?thesis by (intro exI[of _ b]) simp
  qed
  moreover have "s2 = s\<lparr>sy := sy s2, ptable := ptable s2, slocks := slocks s2, bufs := bufs s2, disk := disk s2, dhist := dhist s2\<rparr>"
  proof -
    have e1: "s1 = s\<lparr>sy := sy s1, ptable := ptable s1, slocks := slocks s1, bufs := bufs s1, disk := disk s1, dhist := dhist s1\<rparr>"
      and e2: "s2 = s1\<lparr>sy := sy s2, ptable := ptable s2, slocks := slocks s2, bufs := bufs s2, disk := disk s2, dhist := dhist s2\<rparr>"
      using assms unfolding bio_step_def by blast+
    show ?thesis by (subst e2, subst e1) simp
  qed
  ultimately show ?thesis using assms unfolding bio_step_def by auto
qed

lemma bio_step_mypid:
  assumes "ready p s" "bio_step p s s'"
  shows "mypid s' = mypid s"
proof -
  have p: "curproc s = Some p" "curproc s' = Some p" "p < NPROC" using assms by (auto simp: ready_def bio_step_def)
  obtain st where "the_proc p s' = (the_proc p s)\<lparr>p_state := st\<rparr>"
    using assms(2) p(3) unfolding bio_step_def by blast
  then show ?thesis using p by simp
qed

lemma ready_acquire:
  assumes "ready p s"
  shows "\<exists>y. kacquire l s = Ok (s\<lparr>sy := y\<rparr>) \<and> held {l} y \<and> cpu_proc (this_cpu y) = Some p"
  using kacquire_held[of "{}" s l] assms by (auto simp: ready_def)

lemma ready_release:
  assumes "held {l} y" "cpu_proc (this_cpu y) = Some p" "p < NPROC" "length (ptable s) = NPROC"
  shows "\<exists>z. krelease l (s\<lparr>sy := y\<rparr>) = Ok (s\<lparr>sy := z\<rparr>) \<and> ready p (s\<lparr>sy := z\<rparr>)"
  using krelease_held[of "{l}" "s\<lparr>sy := y\<rparr>" l] assms by (auto simp: ready_def)

lemma bio_last:
  "sy_update f (bufs_update g s) = bufs_update g (sy_update f s)"
  "sy_update f (disk_update h s) = disk_update h (sy_update f s)"
  "sy_update f (dhist_update k s) = dhist_update k (sy_update f s)"
  "bufs_update g (disk_update h s) = disk_update h (bufs_update g s)"
  "bufs_update g (dhist_update k s) = dhist_update k (bufs_update g s)"
  "slocks_update q (bufs_update g s) = bufs_update g (slocks_update q s)"
  "ptable_update r (bufs_update g s) = bufs_update g (ptable_update r s)"
  by simp_all

text \<open>An update of one buffer under a lock.\<close>

lemma buf_section:
  assumes "ready p s"
  shows "\<exists>y. kacquire l s = Ok (s\<lparr>sy := y\<rparr>)
    \<and> (\<forall>bs. \<exists>z. krelease l (s\<lparr>sy := y, bufs := bs\<rparr>) = Ok (s\<lparr>sy := z, bufs := bs\<rparr>) \<and> ready p (s\<lparr>sy := z, bufs := bs\<rparr>))"
proof -
  obtain y where y: "kacquire l s = Ok (s\<lparr>sy := y\<rparr>)" "held {l} y" "cpu_proc (this_cpu y) = Some p"
    using ready_acquire[OF assms] by blast
  have "\<exists>z. krelease l (s\<lparr>sy := y, bufs := bs\<rparr>) = Ok (s\<lparr>sy := z, bufs := bs\<rparr>) \<and> ready p (s\<lparr>sy := z, bufs := bs\<rparr>)" for bs
    using ready_release[OF y(2,3), of "s\<lparr>bufs := bs\<rparr>"] assms by (auto simp: ready_def bio_last)
  then show ?thesis using y(1) by blast
qed

lemma disk_rw_read:
  assumes "ready p s"
  shows "\<exists>z. disk_rw b False s = Ok (s\<lparr>sy := z,
      bufs := (bufs s)[b := (the_buf b s)\<lparr>b_data := disk s (b_blockno (the_buf b s)), b_disk := 0\<rparr>]\<rparr>)
    \<and> ready p (s\<lparr>sy := z\<rparr>)"
proof -
  obtain y where y: "kacquire L_vdisk s = Ok (s\<lparr>sy := y\<rparr>)"
      "\<And>bs. \<exists>z. krelease L_vdisk (s\<lparr>sy := y, bufs := bs\<rparr>) = Ok (s\<lparr>sy := z, bufs := bs\<rparr>) \<and> ready p (s\<lparr>sy := z, bufs := bs\<rparr>)"
    using buf_section[OF assms, of L_vdisk] by blast
  let ?bs = "(bufs s)[b := (the_buf b s)\<lparr>b_data := disk s (b_blockno (the_buf b s)), b_disk := 0\<rparr>]"
  have bs: "(bufs s)[b := (the_buf b s)\<lparr>b_data := disk s (b_blockno (the_buf b s))\<rparr>,
      b := ((bufs s)[b := (the_buf b s)\<lparr>b_data := disk s (b_blockno (the_buf b s))\<rparr>] ! b)\<lparr>b_disk := 0\<rparr>] = ?bs"
    by (cases "b < length (bufs s)") (simp_all add: list_update_beyond)
  obtain z where "krelease L_vdisk (s\<lparr>sy := y, bufs := ?bs\<rparr>) = Ok (s\<lparr>sy := z, bufs := ?bs\<rparr>)" "ready p (s\<lparr>sy := z, bufs := ?bs\<rparr>)"
    using y(2) by blast
  then show ?thesis using y(1) bs
    by (intro exI[of _ z]) (simp add: disk_rw_def upd_buf_def Let_def ready_def)
qed

lemma disk_rw_write:
  assumes "ready p s"
  shows "\<exists>z. disk_rw b True s = Ok (s\<lparr>sy := z, bufs := (bufs s)[b := (the_buf b s)\<lparr>b_disk := 0\<rparr>],
      disk := (disk s)(b_blockno (the_buf b s) := b_data (the_buf b s)),
      dhist := dhist s @ [(b_blockno (the_buf b s), b_data (the_buf b s))]\<rparr>)
    \<and> ready p (s\<lparr>sy := z\<rparr>)"
proof -
  obtain y where y: "kacquire L_vdisk s = Ok (s\<lparr>sy := y\<rparr>)" "held {L_vdisk} y" "cpu_proc (this_cpu y) = Some p"
    using ready_acquire[OF assms] by blast
  let ?t = "s\<lparr>bufs := (bufs s)[b := (the_buf b s)\<lparr>b_disk := 0\<rparr>],
      disk := (disk s)(b_blockno (the_buf b s) := b_data (the_buf b s)),
      dhist := dhist s @ [(b_blockno (the_buf b s), b_data (the_buf b s))]\<rparr>"
  obtain z where z: "krelease L_vdisk (?t\<lparr>sy := y\<rparr>) = Ok (?t\<lparr>sy := z\<rparr>)" "ready p (?t\<lparr>sy := z\<rparr>)"
    using ready_release[OF y(2,3), of ?t] assms by (auto simp: ready_def)
  then show ?thesis using y(1)
    by (intro exI[of _ z]) (simp add: disk_rw_def upd_buf_def Let_def ready_def bio_last)
qed

section \<open>bget\<close>

text \<open>Locking a free buffer.\<close>

lemma acquire_buf:
  assumes "ready p s" "sl_locked (slocks s (SL_buf b)) = 0"
  shows "\<exists>z. acquiresleep (SL_buf b) s = Ok (s\<lparr>sy := z,
      slocks := (slocks s)(SL_buf b := (slocks s (SL_buf b))\<lparr>sl_locked := 1, sl_pid := mypid s\<rparr>)\<rparr>)
    \<and> ready p (s\<lparr>sy := z\<rparr>)"
  using acquiresleep_free[of "{}" s "SL_buf b" p] assms by (auto simp: ready_def same_cpu_def)

lemma bio_stepI:
  assumes "ready p s" "s' = s\<lparr>sy := y, slocks := l, bufs := bs, disk := d, dhist := h\<rparr>" "ready p s'"
    "\<And>i. l (SL_inode i) = slocks s (SL_inode i)"
  shows "bio_step p s s'"
proof -
  have "\<exists>st. pr = pr\<lparr>p_state := st\<rparr>" for pr :: proc by (rule exI[of _ "p_state pr"]) simp
  then show ?thesis using assms by (simp add: bio_step_def)
qed

lemma bget_tail:
  assumes "ready p s" "sl_locked (slocks s (SL_buf b)) = 0" "kacquire L_bcache s = Ok (s\<lparr>sy := y\<rparr>)"
    "\<And>bs. \<exists>z. krelease L_bcache (s\<lparr>sy := y, bufs := bs\<rparr>) = Ok (s\<lparr>sy := z, bufs := bs\<rparr>) \<and> ready p (s\<lparr>sy := z, bufs := bs\<rparr>)"
  shows "\<exists>s'. bind_res (krelease L_bcache (s\<lparr>sy := y, bufs := bs\<rparr>)) (\<lambda>s.
        bind_res (acquiresleep (SL_buf b) s) (\<lambda>s. Ok (b, s))) = Ok (b, s')
    \<and> bio_step p s s' \<and> disk s' = disk s \<and> dhist s' = dhist s \<and> bufs s' = bs
    \<and> slocks s' = (slocks s)(SL_buf b := (slocks s (SL_buf b))\<lparr>sl_locked := 1, sl_pid := mypid s\<rparr>)"
proof -
  obtain z where z: "krelease L_bcache (s\<lparr>sy := y, bufs := bs\<rparr>) = Ok (s\<lparr>sy := z, bufs := bs\<rparr>)"
      "ready p (s\<lparr>sy := z, bufs := bs\<rparr>)" using assms(4) by blast
  let ?l = "(slocks s)(SL_buf b := (slocks s (SL_buf b))\<lparr>sl_locked := 1, sl_pid := mypid s\<rparr>)"
  have "mypid (s\<lparr>sy := z, bufs := bs\<rparr>) = mypid s" using z(2) assms(1) by (simp add: ready_def)
  then obtain z' where z': "acquiresleep (SL_buf b) (s\<lparr>sy := z, bufs := bs\<rparr>) = Ok (s\<lparr>sy := z', slocks := ?l, bufs := bs\<rparr>)"
      "ready p (s\<lparr>sy := z', bufs := bs\<rparr>)"
    using acquire_buf[OF z(2), of b] assms(2) by (auto simp: bio_last)
  let ?s' = "s\<lparr>sy := z', slocks := ?l, bufs := bs\<rparr>"
  have "bio_step p s ?s'"
    using assms(1) z'(2)
    by (intro bio_stepI[where y = z' and l = ?l and bs = bs and d = "disk s" and h = "dhist s"]) (auto simp: ready_def)
  then show ?thesis using z(1) z'(1) by (intro exI[of _ ?s']) simp
qed

lemma refcnt_inc: "b_refcnt_update (\<lambda>n. n + 1) x = x\<lparr>b_refcnt := b_refcnt x + 1\<rparr>"
  by simp

lemma bget_hit:
  assumes "ready p s" "cache dv s V R K" "has_block dv s n b" "n \<notin> K"
  shows "\<exists>s'. bget dv n s = Ok (b, s') \<and> bio_step p s s' \<and> disk s' = disk s \<and> dhist s' = dhist s
    \<and> bufs s' = (bufs s)[b := (the_buf b s)\<lparr>b_refcnt := b_refcnt (the_buf b s) + 1\<rparr>]
    \<and> slocks s' = (slocks s)(SL_buf b := (slocks s (SL_buf b))\<lparr>sl_locked := 1, sl_pid := mypid s\<rparr>)"
proof -
  obtain y where y: "kacquire L_bcache s = Ok (s\<lparr>sy := y\<rparr>)"
      "\<And>bs. \<exists>z. krelease L_bcache (s\<lparr>sy := y, bufs := bs\<rparr>) = Ok (s\<lparr>sy := z, bufs := bs\<rparr>) \<and> ready p (s\<lparr>sy := z, bufs := bs\<rparr>)"
    using buf_section[OF assms(1), of L_bcache] by blast
  obtain r where r: "find_cached (bufs s) dv n (b_next (the_buf NBUF s)) = Some r"
      "case r of None \<Rightarrow> \<forall>i < NBUF. \<not> (b_dev (the_buf i s) = dv \<and> b_blockno (the_buf i s) = n)
       | Some i \<Rightarrow> i < NBUF \<and> b_dev (the_buf i s) = dv \<and> b_blockno (the_buf i s) = n"
    using lru_find_cached[OF cacheD(1)[OF assms(2)]] by blast
  have "r = Some b"
  proof (cases r)
    case None
    then show ?thesis using r(2) assms(3) by (auto simp: has_block_def)
  next
    case (Some i)
    then have "has_block dv s n i" using r(2) by (simp add: has_block_def)
    then show ?thesis using Some cacheD(3)[OF assms(2,3)] by blast
  qed
  moreover have l: "sl_locked (slocks s (SL_buf b)) = 0" using has_block_buf_ok(7)[OF assms(2,3)] assms(4) by simp
  ultimately show ?thesis
    using bget_tail[OF assms(1) l y, where bs = "(bufs s)[b := (the_buf b s)\<lparr>b_refcnt := b_refcnt (the_buf b s) + 1\<rparr>]"] y(1) r(1)
    by (simp add: bget_def upd_buf_def Let_def refcnt_inc)
qed

lemma bget_miss:
  assumes "ready p s" "cache dv s V R K" "\<And>i. \<not> has_block dv s n i" "\<exists>i < NBUF. b_refcnt (the_buf i s) = 0"
  shows "\<exists>b s'. bget dv n s = Ok (b, s') \<and> b < NBUF \<and> b_refcnt (the_buf b s) = 0 \<and> bio_step p s s'
    \<and> disk s' = disk s \<and> dhist s' = dhist s
    \<and> bufs s' = (bufs s)[b := (the_buf b s)\<lparr>b_dev := dv, b_blockno := n, b_valid := 0, b_disk := 0, b_refcnt := 1\<rparr>]
    \<and> slocks s' = (slocks s)(SL_buf b := (slocks s (SL_buf b))\<lparr>sl_locked := 1, sl_pid := mypid s\<rparr>)"
proof -
  obtain y where y: "kacquire L_bcache s = Ok (s\<lparr>sy := y\<rparr>)"
      "\<And>bs. \<exists>z. krelease L_bcache (s\<lparr>sy := y, bufs := bs\<rparr>) = Ok (s\<lparr>sy := z, bufs := bs\<rparr>) \<and> ready p (s\<lparr>sy := z, bufs := bs\<rparr>)"
    using buf_section[OF assms(1), of L_bcache] by blast
  have "find_cached (bufs s) dv n (b_next (the_buf NBUF s)) = Some None"
    using lru_find_cached[OF cacheD(1)[OF assms(2)], of dv n] assms(3) by (auto simp: has_block_def split: option.splits)
  moreover obtain b where b: "find_free (bufs s) (b_prev (the_buf NBUF s)) = Some (Some b)" "b < NBUF" "b_refcnt (the_buf b s) = 0"
    using lru_find_free[OF cacheD(1)[OF assms(2)]] assms(4) by (auto split: option.splits)
  moreover have l: "sl_locked (slocks s (SL_buf b)) = 0"
    using cacheD(2)[OF assms(2) b(2)] cacheD(5)[OF assms(2), of "b_blockno (the_buf b s)"] b(3)
    by (auto simp: buf_ok_def split: if_splits)
  ultimately show ?thesis
    using bget_tail[OF assms(1) l y, where bs = "(bufs s)[b := (the_buf b s)\<lparr>b_dev := dv, b_blockno := n,
        b_valid := 0, b_disk := 0, b_refcnt := 1\<rparr>]"] y(1)
    by (intro exI[of _ b]) (simp add: bget_def upd_buf_def Let_def)
qed

lemma free_buffer:
  assumes "cache dv s V R K" "finite A" "card A < NBUF" "\<And>n. 0 < R n \<Longrightarrow> n \<in> A"
  shows "\<exists>i < NBUF. b_refcnt (the_buf i s) = 0"
proof (rule ccontr)
  assume "\<not> ?thesis"
  then have nz: "b_refcnt (the_buf i s) \<noteq> 0" if "i < NBUF" for i using that by blast
  have dev: "b_dev (the_buf i s) = dv" "0 < R (b_blockno (the_buf i s))" if "i < NBUF" for i
    using cacheD(2)[OF assms(1) that] nz[OF that] unat_gt_0[of "b_refcnt (the_buf i s)"]
    unfolding buf_ok_def by (cases "b_dev (the_buf i s) = dv"; simp)+
  have "inj_on (\<lambda>i. b_blockno (the_buf i s)) {..<NBUF}"
    using cacheD(3)[OF assms(1)] dev(1) by (intro inj_onI) (auto simp: has_block_def)
  then have "card ((\<lambda>i. b_blockno (the_buf i s)) ` {..<NBUF}) = NBUF" by (simp add: card_image)
  moreover have "(\<lambda>i. b_blockno (the_buf i s)) ` {..<NBUF} \<subseteq> A" using dev(2) assms(4) by auto
  ultimately show False using card_mono[OF assms(2)] assms(3) by (metis not_le)
qed

section \<open>bread, bwrite, brelse\<close>

text \<open>Blocks with references stay in their buffers.\<close>

definition keeps :: "u32 \<Rightarrow> (u32 \<Rightarrow> nat) \<Rightarrow> 'z bio_state_scheme \<Rightarrow> 'z bio_state_scheme \<Rightarrow> bool" where
  "keeps dv R s s' \<longleftrightarrow> (\<forall>m i. 0 < R m \<longrightarrow> has_block dv s m i \<longrightarrow> has_block dv s' m i)"

lemma keeps_update:
  assumes "bufs s' = (bufs s)[b := x]" "b_dev x = b_dev (the_buf b s)" "b_blockno x = b_blockno (the_buf b s)"
  shows "keeps dv R s s'"
  using list_update_field[of b_dev x "bufs s" b] list_update_field[of b_blockno x "bufs s" b] assms
  by (simp add: keeps_def has_block_def)

lemma bread_tail:
  assumes "ready p s" "bget dv n s = Ok (b, s1)" "bio_step p s s1" "b < length (bufs s1)" "b_blockno (the_buf b s1) = n"
  shows "\<exists>s'. bread dv n s = Ok (b, s') \<and> bio_step p s s' \<and> disk s' = disk s1 \<and> dhist s' = dhist s1 \<and> slocks s' = slocks s1
    \<and> bufs s' = (bufs s1)[b := if b_valid (the_buf b s1) = 0
        then (the_buf b s1)\<lparr>b_data := disk s1 n, b_disk := 0, b_valid := 1\<rparr> else the_buf b s1]"
proof (cases "b_valid (the_buf b s1) = 0")
  case False
  then show ?thesis using assms by (intro exI[of _ s1]) (simp add: bread_def)
next
  case True
  have r1: "ready p s1" using assms(3) by (simp add: bio_step_def)
  obtain z where z: "disk_rw b False s1 = Ok (s1\<lparr>sy := z, bufs := (bufs s1)[b := (the_buf b s1)\<lparr>b_data := disk s1 n, b_disk := 0\<rparr>]\<rparr>)"
      "ready p (s1\<lparr>sy := z\<rparr>)" using disk_rw_read[OF r1, of b] assms(5) by auto
  let ?bs = "(bufs s1)[b := (the_buf b s1)\<lparr>b_data := disk s1 n, b_disk := 0, b_valid := 1\<rparr>]"
  have "bio_step p s1 (s1\<lparr>sy := z, bufs := ?bs\<rparr>)"
    using r1 z(2) by (intro bio_stepI[where y = z and bs = ?bs and d = "disk s1" and h = "dhist s1" and l = "slocks s1"])
      (auto simp: ready_def)
  then have "bio_step p s (s1\<lparr>sy := z, bufs := ?bs\<rparr>)" using bio_step_trans[OF assms(3)] by blast
  then show ?thesis using assms(2,4) True z(1)
    by (intro exI[of _ "s1\<lparr>sy := z, bufs := ?bs\<rparr>"]) (simp add: bread_def upd_buf_def)
qed

lemma bread_hit:
  assumes "ready p s" "cache dv s V R K" "has_block dv s n b" "n \<notin> K" "R n + 1 < 2 ^ 32"
  shows "\<exists>s'. bread dv n s = Ok (b, s') \<and> bio_step p s s' \<and> has_block dv s' n b
    \<and> cache dv s' V (R(n := R n + 1)) (insert n K) \<and> disk s' = disk s \<and> dhist s' = dhist s \<and> keeps dv R s s'"
proof -
  note h = has_block_buf_ok[OF assms(2,3)]
  obtain s1 where s1: "bget dv n s = Ok (b, s1)" "bio_step p s s1" "disk s1 = disk s" "dhist s1 = dhist s"
      "bufs s1 = (bufs s)[b := (the_buf b s)\<lparr>b_refcnt := b_refcnt (the_buf b s) + 1\<rparr>]"
      "slocks s1 = (slocks s)(SL_buf b := (slocks s (SL_buf b))\<lparr>sl_locked := 1, sl_pid := mypid s\<rparr>)"
    using bget_hit[OF assms(1-4)] by blast
  have rc: "unat (b_refcnt (the_buf b s) + 1) = R n + 1" using h(5) assms(5) by (simp add: unat_plus_if')
  have b1: "the_buf b s1 = (the_buf b s)\<lparr>b_refcnt := b_refcnt (the_buf b s) + 1\<rparr>" using s1(5) h(2) by simp
  define x where "x = (if b_valid (the_buf b s) = 0
    then (the_buf b s)\<lparr>b_refcnt := b_refcnt (the_buf b s) + 1, b_data := disk s n, b_disk := 0, b_valid := 1\<rparr>
    else (the_buf b s)\<lparr>b_refcnt := b_refcnt (the_buf b s) + 1\<rparr>)"
  obtain s' where s': "bread dv n s = Ok (b, s')" "bio_step p s s'" "disk s' = disk s" "dhist s' = dhist s"
      "slocks s' = slocks s1" "bufs s' = (bufs s)[b := x]"
    using bread_tail[OF assms(1) s1(1,2)] h(2,4) b1 s1(3,4,5) by (auto simp: x_def)
  have bb: "the_buf b s' = x" using s'(6) h(2) by simp
  have xf: "b_dev x = dv" "b_blockno x = n" "unat (b_refcnt x) = R n + 1" "b_valid x \<noteq> 0" "b_data x = V n"
      "b_next x = b_next (the_buf b s)" "b_prev x = b_prev (the_buf b s)"
    using h(3,4,6) rc by (auto simp: x_def)
  have "cache dv s' V (R(n := R n + 1)) (insert n K)"
  proof (rule cache_update[OF assms(2) _ assms(3) bio_step_mypid[OF assms(1) s'(2)]])
    show "lru_ok (bufs s')" using lru_ok_update[OF cacheD(1)[OF assms(2)], of "\<lambda>_. x" b] xf s'(6) by simp
    show "buf_ok dv s' V (R(n := R n + 1)) (insert n K) b"
      using bb xf bio_step_mypid[OF assms(1) s'(2)] by (simp add: buf_ok_def s'(5) s1(6))
  qed (use bb xf s'(3,5,6) s1(6) in auto)
  moreover have "keeps dv R s s'" using keeps_update[OF s'(6)] xf h(3,4) by simp
  ultimately show ?thesis using s' bb xf h(1) by (intro exI[of _ s']) (simp add: has_block_def)
qed

text \<open>A buffer without references takes another block.\<close>

lemma cache_recycle:
  assumes c: "cache dv s V R K" and l: "lru_ok (bufs s')" and pid: "mypid s' = mypid s" and b: "b < NBUF" "b_refcnt (the_buf b s) = 0"
    and new: "\<And>i. \<not> has_block dv s n i" and d: "disk s' = disk s"
    and same: "\<And>i. i < NBUF \<Longrightarrow> i \<noteq> b \<Longrightarrow> the_buf i s' = the_buf i s \<and> slocks s' (SL_buf i) = slocks s (SL_buf i)"
    and key: "b_dev (the_buf b s') = dv" "b_blockno (the_buf b s') = n" "b_refcnt (the_buf b s') = 1"
      "b_valid (the_buf b s') \<noteq> 0" "b_data (the_buf b s') = disk s n"
      "sl_locked (slocks s' (SL_buf b)) \<noteq> 0" "sl_pid (slocks s' (SL_buf b)) = mypid s"
  shows "cache dv s' V (R(n := R n + 1)) (insert n K)"
proof -
  have R0: "R n = 0" using cacheD(4)[OF c new] .
  have gone: "R m = 0" if "has_block dv s m b" for m
    using cacheD(2)[OF c b(1)] that b(2) by (simp add: buf_ok_def has_block_def)
  have hb: "has_block dv s' m i \<longleftrightarrow> (if i = b then m = n else has_block dv s m i)" for m i
    using same[of i] key b(1) by (auto simp: has_block_def)
  have ok: "buf_ok dv s' V (R(n := R n + 1)) (insert n K) i" if i: "i < NBUF" for i
  proof (cases "i = b")
    case True
    then show ?thesis using key R0 cacheD(5)[OF c R0] pid by (simp add: buf_ok_def)
  next
    case False
    have "b_dev (the_buf i s) = dv \<Longrightarrow> b_blockno (the_buf i s) \<noteq> n" using new[of i] i by (simp add: has_block_def)
    then show ?thesis using cacheD(2)[OF c i] same[OF i False] pid d by (simp add: buf_ok_def split: if_splits)
  qed
  have uniq: "i = j" if "has_block dv s' m i" "has_block dv s' m j" for m i j
    using that new cacheD(3)[OF c, of m i j] by (simp add: hb split: if_splits)
  have zero: "(R(n := R n + 1)) m = 0" if none: "\<And>i. \<not> has_block dv s' m i" for m
  proof -
    have "m \<noteq> n" using none[of b] by (simp add: hb)
    moreover have "R m = 0"
    proof (cases "has_block dv s m b")
      case False
      have "\<not> has_block dv s m i" for i using none[of i] False by (cases "i = b") (simp_all add: hb)
      then show ?thesis using cacheD(4)[OF c] by blast
    qed (use gone in simp)
    ultimately show ?thesis by simp
  qed
  have clean: "V m = disk s' m \<and> m \<notin> insert n K" if "(R(n := R n + 1)) m = 0" for m
    using that cacheD(5)[OF c, of m] d by (cases "m = n") simp_all
  show ?thesis unfolding cache_def using l ok uniq zero clean by blast
qed

lemma bread_miss:
  assumes "ready p s" "cache dv s V R K" "\<And>i. \<not> has_block dv s n i" "\<exists>i < NBUF. b_refcnt (the_buf i s) = 0"
  shows "\<exists>b s'. bread dv n s = Ok (b, s') \<and> bio_step p s s' \<and> has_block dv s' n b
    \<and> cache dv s' V (R(n := R n + 1)) (insert n K) \<and> disk s' = disk s \<and> dhist s' = dhist s \<and> keeps dv R s s'"
proof -
  define x0 where "x0 b = (the_buf b s)\<lparr>b_dev := dv, b_blockno := n, b_valid := 0, b_disk := 0, b_refcnt := 1\<rparr>" for b
  obtain b s1 where s1: "bget dv n s = Ok (b, s1)" "b < NBUF" "b_refcnt (the_buf b s) = 0" "bio_step p s s1"
      "disk s1 = disk s" "dhist s1 = dhist s" "bufs s1 = (bufs s)[b := x0 b]"
      "slocks s1 = (slocks s)(SL_buf b := (slocks s (SL_buf b))\<lparr>sl_locked := 1, sl_pid := mypid s\<rparr>)"
    unfolding x0_def using bget_miss[OF assms] by blast
  have len: "b < length (bufs s)" using s1(2) lru_ok_length[OF cacheD(1)[OF assms(2)]] by simp
  have b1: "the_buf b s1 = x0 b" using s1(7) len by simp
  define x where "x = (x0 b)\<lparr>b_data := disk s n, b_disk := 0, b_valid := 1\<rparr>"
  obtain s' where s': "bread dv n s = Ok (b, s')" "bio_step p s s'" "disk s' = disk s" "dhist s' = dhist s"
      "slocks s' = slocks s1" "bufs s' = (bufs s)[b := x]"
    using bread_tail[OF assms(1) s1(1,4)] len b1 s1(5,6,7) by (auto simp: x0_def x_def)
  have bb: "the_buf b s' = x" using s'(6) len by simp
  have xf: "b_dev x = dv" "b_blockno x = n" "b_refcnt x = 1" "b_valid x \<noteq> 0" "b_data x = disk s n"
      "b_next x = b_next (the_buf b s)" "b_prev x = b_prev (the_buf b s)"
    by (auto simp: x_def x0_def)
  have lru: "lru_ok (bufs s')" using lru_ok_update[OF cacheD(1)[OF assms(2)], of "\<lambda>_. x" b] xf s'(6) by simp
  have "cache dv s' V (R(n := R n + 1)) (insert n K)"
    by (rule cache_recycle[OF assms(2) lru bio_step_mypid[OF assms(1) s'(2)] s1(2,3) assms(3) s'(3)])
      (use bb xf s'(5,6) s1(8) in auto)
  moreover have "keeps dv R s s'"
    unfolding keeps_def
  proof (intro allI impI)
    fix m i assume m: "0 < R m" "has_block dv s m i"
    then have "i \<noteq> b" using has_block_buf_ok(5)[OF assms(2) m(2)] s1(3) by auto
    then show "has_block dv s' m i" using m(2) s'(6) by (simp add: has_block_def)
  qed
  ultimately show ?thesis using s' bb xf s1(2) by (intro exI[of _ b] exI[of _ s']) (simp add: has_block_def)
qed

lemma bread_spec:
  assumes "ready p s" "cache dv s V R K" "n \<notin> K" "R n + 1 < 2 ^ 32"
    "0 < R n \<or> (\<exists>i < NBUF. b_refcnt (the_buf i s) = 0)"
  shows "\<exists>b s'. bread dv n s = Ok (b, s') \<and> bio_step p s s' \<and> has_block dv s' n b
    \<and> cache dv s' V (R(n := R n + 1)) (insert n K) \<and> disk s' = disk s \<and> dhist s' = dhist s \<and> keeps dv R s s'"
proof (cases "\<exists>b. has_block dv s n b")
  case True
  then show ?thesis using bread_hit[OF assms(1,2) _ assms(3,4)] by blast
next
  case False
  then have none: "\<And>i. \<not> has_block dv s n i" by blast
  then have "R n = 0" using cacheD(4)[OF assms(2)] by blast
  then have "\<exists>i < NBUF. b_refcnt (the_buf i s) = 0" using assms(5) by simp
  then show ?thesis by (rule bread_miss[OF assms(1,2) none])
qed

text \<open>A client changes the data of a buffer it has locked.\<close>

lemma upd_data_spec:
  assumes "ready p s" "cache dv s V R K" "has_block dv s n b" "n \<in> K" "s' = upd_buf b (b_data_update (\<lambda>_. d)) s"
  shows "bio_step p s s'" "has_block dv s' n b" "cache dv s' (V(n := d)) R K" "disk s' = disk s" "dhist s' = dhist s" "keeps dv R s s'"
proof -
  note h = has_block_buf_ok[OF assms(2,3)]
  let ?bs = "(bufs s)[b := (the_buf b s)\<lparr>b_data := d\<rparr>]"
  have s': "s' = s\<lparr>bufs := ?bs\<rparr>" using assms(5) by (simp add: upd_buf_def)
  show "bio_step p s s'"
    using assms(1) by (intro bio_stepI[where y = "sy s" and l = "slocks s" and bs = ?bs and d = "disk s" and h = "dhist s"])
      (auto simp: s' ready_def)
  show "has_block dv s' n b" using h(1-4) by (simp add: s' has_block_def)
  have R: "R n \<noteq> 0" using cacheD(5)[OF assms(2)] assms(4) by blast
  show "keeps dv R s s'" by (rule keeps_update[where b = b and x = "(the_buf b s)\<lparr>b_data := d\<rparr>"]) (simp_all add: s')
  show "cache dv s' (V(n := d)) R K"
    using h R assms(4) lru_ok_update[OF cacheD(1)[OF assms(2)], of "\<lambda>_. (the_buf b s)\<lparr>b_data := d\<rparr>" b]
    by (intro cache_update[OF assms(2) _ assms(3)]) (auto simp: s' buf_ok_def)
qed (use assms(5) in \<open>simp_all add: upd_buf_def\<close>)

lemma bwrite_spec:
  assumes "ready p s" "cache dv s V R K" "has_block dv s n b" "n \<in> K"
  shows "\<exists>s'. bwrite b s = Ok s' \<and> bio_step p s s' \<and> has_block dv s' n b \<and> cache dv s' V R K
    \<and> disk s' = (disk s)(n := V n) \<and> dhist s' = dhist s @ [(n, V n)] \<and> keeps dv R s s'"
proof -
  note h = has_block_buf_ok[OF assms(2,3)]
  have cp: "curproc s = Some p" "length (ptable s) = NPROC" "p < NPROC" using assms(1) by (auto simp: ready_def)
  obtain y where y: "holdingsleep (SL_buf b) s = Ok (True, s\<lparr>sy := y\<rparr>)" "same_cpu {} (sy s) y"
    using holdingsleep_eq[of "{}" s "SL_buf b" p] assms(1,4) h(7,8) cp by (auto simp: ready_def)
  define t where "t = s\<lparr>sy := y, bufs := (bufs s)[b := (the_buf b s)\<lparr>b_disk := 1\<rparr>]\<rparr>"
  have rt: "ready p t" using cp same_cpuD[OF y(2)] by (simp add: t_def ready_def)
  have tb: "b_blockno (the_buf b t) = n" "b_data (the_buf b t) = V n" "the_buf b t = (the_buf b s)\<lparr>b_disk := 1\<rparr>"
    using h assms(4) by (simp_all add: t_def)
  obtain z where z: "disk_rw b True t = Ok (t\<lparr>sy := z, bufs := (bufs t)[b := (the_buf b t)\<lparr>b_disk := 0\<rparr>],
      disk := (disk t)(n := V n), dhist := dhist t @ [(n, V n)]\<rparr>)" "ready p (t\<lparr>sy := z\<rparr>)"
    using disk_rw_write[OF rt, of b] tb by auto
  let ?bs = "(bufs s)[b := (the_buf b s)\<lparr>b_disk := 0\<rparr>]"
  let ?s' = "s\<lparr>sy := z, bufs := ?bs, disk := (disk s)(n := V n), dhist := dhist s @ [(n, V n)]\<rparr>"
  have e: "bwrite b s = Ok ?s'"
    using y(1) z(1) tb h(2) by (simp add: bwrite_def upd_buf_def t_def bio_last)
  have st: "bio_step p s ?s'"
    using assms(1) z(2) by (intro bio_stepI[where y = z and l = "slocks s" and bs = ?bs and d = "(disk s)(n := V n)"
        and h = "dhist s @ [(n, V n)]"]) (auto simp: ready_def t_def)
  have hb: "has_block dv ?s' n b" using h(1-4) by (simp add: has_block_def)
  have "R n \<noteq> 0" using cacheD(5)[OF assms(2)] assms(4) by blast
  then have "cache dv ?s' V R K"
    using h assms(4) lru_ok_update[OF cacheD(1)[OF assms(2)], of "\<lambda>_. (the_buf b s)\<lparr>b_disk := 0\<rparr>" b] bio_step_mypid[OF assms(1) st]
    by (intro cache_update[OF assms(2) _ assms(3)]) (auto simp: buf_ok_def)
  moreover have "keeps dv R s ?s'" by (rule keeps_update[where b = b and x = "(the_buf b s)\<lparr>b_disk := 0\<rparr>"]) simp_all
  ultimately show ?thesis using e st hb by (intro exI[of _ ?s']) simp
qed

lemma bpin_spec:
  assumes "ready p s" "cache dv s V R K" "has_block dv s n b" "0 < R n" "R n + 1 < 2 ^ 32"
  shows "\<exists>s'. bpin b s = Ok s' \<and> bio_step p s s' \<and> has_block dv s' n b \<and> cache dv s' V (R(n := R n + 1)) K
    \<and> disk s' = disk s \<and> dhist s' = dhist s \<and> keeps dv R s s'"
proof -
  note h = has_block_buf_ok[OF assms(2,3)]
  let ?x = "(the_buf b s)\<lparr>b_refcnt := b_refcnt (the_buf b s) + 1\<rparr>"
  let ?bs = "(bufs s)[b := ?x]"
  obtain y where y: "kacquire L_bcache s = Ok (s\<lparr>sy := y\<rparr>)"
      "\<And>bs. \<exists>z. krelease L_bcache (s\<lparr>sy := y, bufs := bs\<rparr>) = Ok (s\<lparr>sy := z, bufs := bs\<rparr>) \<and> ready p (s\<lparr>sy := z, bufs := bs\<rparr>)"
    using buf_section[OF assms(1), of L_bcache] by blast
  obtain z where z: "krelease L_bcache (s\<lparr>sy := y, bufs := ?bs\<rparr>) = Ok (s\<lparr>sy := z, bufs := ?bs\<rparr>)" "ready p (s\<lparr>sy := z, bufs := ?bs\<rparr>)"
    using y(2) by blast
  let ?s' = "s\<lparr>sy := z, bufs := ?bs\<rparr>"
  have e: "bpin b s = Ok ?s'" using y(1) z(1) by (simp add: bpin_def upd_buf_def refcnt_inc)
  have st: "bio_step p s ?s'"
    using assms(1) z(2) by (intro bio_stepI[where y = z and l = "slocks s" and bs = ?bs and d = "disk s" and h = "dhist s"]) auto
  have rc: "unat (b_refcnt (the_buf b s) + 1) = R n + 1" using h(5) assms(5) by (simp add: unat_plus_if')
  have "cache dv ?s' V (R(n := R n + 1)) K"
    using h rc lru_ok_update[OF cacheD(1)[OF assms(2)], of "\<lambda>_. ?x" b] bio_step_mypid[OF assms(1) st]
    by (intro cache_update[OF assms(2) _ assms(3)]) (auto simp: buf_ok_def)
  moreover have "keeps dv R s ?s'" by (rule keeps_update[where b = b and x = ?x]) simp_all
  ultimately show ?thesis using e st h(1-4) by (intro exI[of _ ?s']) (simp add: has_block_def)
qed

lemma refcnt_dec: "b_refcnt_update (\<lambda>n. n - 1) x = x\<lparr>b_refcnt := b_refcnt x - 1\<rparr>"
  by simp

lemma unat_dec: "0 < unat (w :: u32) \<Longrightarrow> unat (w - 1) = unat w - 1"
  by (metis gr_implies_not_zero unat_0 unat_minus_one)

lemma bunpin_spec:
  assumes "ready p s" "cache dv s V R K" "has_block dv s n b" "0 < R n" "R n = 1 \<Longrightarrow> V n = disk s n \<and> n \<notin> K"
  shows "\<exists>s'. bunpin b s = Ok s' \<and> bio_step p s s' \<and> has_block dv s' n b \<and> cache dv s' V (R(n := R n - 1)) K
    \<and> disk s' = disk s \<and> dhist s' = dhist s \<and> keeps dv R s s'"
proof -
  note h = has_block_buf_ok[OF assms(2,3)]
  let ?x = "(the_buf b s)\<lparr>b_refcnt := b_refcnt (the_buf b s) - 1\<rparr>"
  let ?bs = "(bufs s)[b := ?x]"
  obtain y where y: "kacquire L_bcache s = Ok (s\<lparr>sy := y\<rparr>)"
      "\<And>bs. \<exists>z. krelease L_bcache (s\<lparr>sy := y, bufs := bs\<rparr>) = Ok (s\<lparr>sy := z, bufs := bs\<rparr>) \<and> ready p (s\<lparr>sy := z, bufs := bs\<rparr>)"
    using buf_section[OF assms(1), of L_bcache] by blast
  obtain z where z: "krelease L_bcache (s\<lparr>sy := y, bufs := ?bs\<rparr>) = Ok (s\<lparr>sy := z, bufs := ?bs\<rparr>)" "ready p (s\<lparr>sy := z, bufs := ?bs\<rparr>)"
    using y(2) by blast
  let ?s' = "s\<lparr>sy := z, bufs := ?bs\<rparr>"
  have e: "bunpin b s = Ok ?s'" using y(1) z(1) by (simp add: bunpin_def upd_buf_def refcnt_dec)
  have st: "bio_step p s ?s'"
    using assms(1) z(2) by (intro bio_stepI[where y = z and l = "slocks s" and bs = ?bs and d = "disk s" and h = "dhist s"]) auto
  have rc: "unat (b_refcnt (the_buf b s) - 1) = R n - 1" using h(5) assms(4) unat_dec[of "b_refcnt (the_buf b s)"] by simp
  have "cache dv ?s' V (R(n := R n - 1)) K"
    using h rc lru_ok_update[OF cacheD(1)[OF assms(2)], of "\<lambda>_. ?x" b] bio_step_mypid[OF assms(1) st] assms(4,5)
    by (intro cache_update[OF assms(2) _ assms(3)]) (auto simp: buf_ok_def)
  moreover have "keeps dv R s ?s'" by (rule keeps_update[where b = b and x = ?x]) simp_all
  ultimately show ?thesis using e st h(1-4) by (intro exI[of _ ?s']) (simp add: has_block_def)
qed

lemma wake_state: "\<exists>st. wake chan cur i pr = pr\<lparr>p_state := st\<rparr>"
proof -
  have "\<exists>st. pr = pr\<lparr>p_state := st\<rparr>" by (rule exI[of _ "p_state pr"]) simp
  then show ?thesis by (auto simp: wake_def)
qed

lemma brelse_spec:
  assumes "ready p s" "cache dv s V R K" "has_block dv s n b" "n \<in> K" "R n = 1 \<Longrightarrow> V n = disk s n"
  shows "\<exists>s'. brelse b s = Ok s' \<and> bio_step p s s' \<and> has_block dv s' n b \<and> cache dv s' V (R(n := R n - 1)) (K - {n})
    \<and> disk s' = disk s \<and> dhist s' = dhist s \<and> keeps dv R s s'
    \<and> bufs s' = (let bs = (bufs s)[b := (the_buf b s)\<lparr>b_refcnt := b_refcnt (the_buf b s) - 1\<rparr>]
        in if R n = 1 then move_to_front b bs else bs)"
proof -
  note h = has_block_buf_ok[OF assms(2,3)]
  have cp: "curproc s = Some p" "length (ptable s) = NPROC" "p < NPROC" using assms(1) by (auto simp: ready_def)
  have R: "0 < R n" using cacheD(5)[OF assms(2), of n] assms(4) by blast
  obtain y1 where y1: "holdingsleep (SL_buf b) s = Ok (True, s\<lparr>sy := y1\<rparr>)" "same_cpu {} (sy s) y1"
    using holdingsleep_eq[of "{}" s "SL_buf b" p] assms(1,4) h(7,8) cp by (auto simp: ready_def)
  let ?pt = "woken (Some (sl_chan (SL_buf b))) (Some p) (ptable s)"
  let ?l = "(slocks s)(SL_buf b := (slocks s (SL_buf b))\<lparr>sl_locked := 0, sl_pid := 0\<rparr>)"
  obtain y2 where y2: "releasesleep (SL_buf b) (s\<lparr>sy := y1\<rparr>) = Ok (s\<lparr>sy := y2, ptable := ?pt, slocks := ?l\<rparr>)" "same_cpu {} y1 y2"
    using releasesleep_eq[of "{}" "s\<lparr>sy := y1\<rparr>" "SL_buf b"] same_cpuD[OF y1(2)] cp by auto
  let ?t = "s\<lparr>sy := y2, ptable := ?pt, slocks := ?l\<rparr>"
  have rt: "ready p ?t" using cp same_cpuD[OF y2(2)] same_cpuD[OF y1(2)] by (simp add: ready_def length_woken)
  obtain y where y: "kacquire L_bcache ?t = Ok (?t\<lparr>sy := y\<rparr>)"
      "\<And>bs. \<exists>z. krelease L_bcache (?t\<lparr>sy := y, bufs := bs\<rparr>) = Ok (?t\<lparr>sy := z, bufs := bs\<rparr>) \<and> ready p (?t\<lparr>sy := z, bufs := bs\<rparr>)"
    using buf_section[OF rt, of L_bcache] by blast
  let ?x = "(the_buf b s)\<lparr>b_refcnt := b_refcnt (the_buf b s) - 1\<rparr>"
  define bs where "bs = (if b_refcnt ?x = 0 then move_to_front b ((bufs s)[b := ?x]) else (bufs s)[b := ?x])"
  obtain z where z: "krelease L_bcache (?t\<lparr>sy := y, bufs := bs\<rparr>) = Ok (?t\<lparr>sy := z, bufs := bs\<rparr>)" "ready p (?t\<lparr>sy := z, bufs := bs\<rparr>)"
    using y(2) by blast
  let ?s' = "?t\<lparr>sy := z, bufs := bs\<rparr>"
  have e: "brelse b s = Ok ?s'"
    using y1(1) y2(1) y(1) z(1) h(2)
    by (cases "b_refcnt (the_buf b s) = 1") (simp_all add: brelse_def upd_buf_def refcnt_dec Let_def bs_def)
  have "\<exists>st. the_proc i ?s' = (the_proc i s)\<lparr>p_state := st\<rparr>" if "i < NPROC" for i
    using that cp wake_state by (simp add: nth_woken)
  then have st: "bio_step p s ?s'" using z(2) by (simp add: bio_step_def)
  have rc: "unat (b_refcnt (the_buf b s) - 1) = R n - 1" using h(5) R unat_dec[of "b_refcnt (the_buf b s)"] by simp
  have l1: "lru_ok ((bufs s)[b := ?x])" using lru_ok_update[OF cacheD(1)[OF assms(2)], of "\<lambda>_. ?x" b] by simp
  have lru: "lru_ok bs" unfolding bs_def using l1 lru_ok_move_to_front[OF l1 h(1)] by presburger
  have fields: "b_data (bs ! i) = b_data (the_buf i s)" "b_valid (bs ! i) = b_valid (the_buf i s)"
      "b_dev (bs ! i) = b_dev (the_buf i s)" "b_blockno (bs ! i) = b_blockno (the_buf i s)"
      "b_refcnt (bs ! i) = (if i = b then b_refcnt (the_buf b s) - 1 else b_refcnt (the_buf i s))" for i
    using h(2) by (auto simp: bs_def buf_fields nth_list_update)
  have "cache dv ?s' V (R(n := R n - 1)) (K - {n})"
    using h rc R lru assms(4,5) bio_step_mypid[OF assms(1) st]
    by (intro cache_update[OF assms(2) _ assms(3)]) (auto simp: buf_ok_def fields)
  moreover have "has_block dv ?s' n b" using h(1-4) by (simp add: has_block_def fields)
  moreover have "keeps dv R s ?s'" by (simp add: keeps_def has_block_def fields)
  moreover have "b_refcnt ?x = 0 \<longleftrightarrow> R n = 1" using rc R unat_eq_zero[of "b_refcnt (the_buf b s) - 1"] by auto
  then have "bs = (let bs = (bufs s)[b := ?x] in if R n = 1 then move_to_front b bs else bs)"
    unfolding bs_def Let_def by presburger
  ultimately show ?thesis using e st by (intro exI[of _ ?s']) simp
qed

text \<open>Every buffer in use.\<close>

lemma bread_no_buffers:
  assumes "ready p s" "cache dv s V R K" "\<And>i. \<not> has_block dv s n i" "\<And>i. i < NBUF \<Longrightarrow> b_refcnt (the_buf i s) \<noteq> 0"
  shows "bread dv n s = Panic ''bget: no buffers''"
proof -
  obtain y where y: "kacquire L_bcache s = Ok (s\<lparr>sy := y\<rparr>)" using ready_acquire[OF assms(1)] by blast
  have "find_cached (bufs s) dv n (b_next (the_buf NBUF s)) = Some None"
    using lru_find_cached[OF cacheD(1)[OF assms(2)], of dv n] assms(3) by (auto simp: has_block_def split: option.splits)
  moreover have "find_free (bufs s) (b_prev (the_buf NBUF s)) = Some None"
    using lru_find_free[OF cacheD(1)[OF assms(2)]] assms(4) by (auto split: option.splits)
  ultimately show ?thesis using y by (simp add: bread_def bget_def)
qed

end
