(* ===== verification/Block_Cache.thy ===== *)
theory Block_Cache
  imports Bio_Cache
begin

text \<open>
  The interface of the buffer cache for its clients, as a locale, with the compound
  operations that the log uses (copying one block to another) proved once over its laws;
  the interpretation on bio.c; the state after \<open>binit\<close>; and the properties of the cache.
\<close>

section \<open>The interface\<close>

text \<open>
  \<open>ok s V R K\<close> is the relation of the theory \<open>Bio_Cache\<close>, \<open>has s n b\<close> says that block \<open>n\<close> is in
  buffer \<open>b\<close>, \<open>media\<close> is the disk and \<open>hist\<close> the writes to it; \<open>step\<close> is the frame.
\<close>

locale block_cache =
  fixes ok :: "'s \<Rightarrow> (u32 \<Rightarrow> block) \<Rightarrow> (u32 \<Rightarrow> nat) \<Rightarrow> u32 set \<Rightarrow> bool"
    and has :: "'s \<Rightarrow> u32 \<Rightarrow> nat \<Rightarrow> bool"
    and content :: "'s \<Rightarrow> nat \<Rightarrow> block"
    and media :: "'s \<Rightarrow> u32 \<Rightarrow> block"
    and hist :: "'s \<Rightarrow> (u32 \<times> block) list"
    and step :: "'s \<Rightarrow> 's \<Rightarrow> bool"
    and capacity :: nat
    and rd :: "u32 \<Rightarrow> 's \<Rightarrow> (nat \<times> 's) res"
    and put :: "nat \<Rightarrow> block \<Rightarrow> 's \<Rightarrow> 's"
    and wr :: "nat \<Rightarrow> 's \<Rightarrow> 's res"
    and rel :: "nat \<Rightarrow> 's \<Rightarrow> 's res"
    and unpin :: "nat \<Rightarrow> 's \<Rightarrow> 's res"
  assumes finite_refs: "ok s V R K \<Longrightarrow> finite {m. 0 < R m}"
    and locked_refs: "ok s V R K \<Longrightarrow> n \<in> K \<Longrightarrow> 0 < R n"
    and clean: "ok s V R K \<Longrightarrow> R n = 0 \<Longrightarrow> V n = media s n"
    and content_has: "ok s V R K \<Longrightarrow> has s n b \<Longrightarrow> n \<in> K \<Longrightarrow> content s b = V n"
    and step_trans: "step s t \<Longrightarrow> step t u \<Longrightarrow> step s u"
    and rd_law: "ok s V R K \<Longrightarrow> n \<notin> K \<Longrightarrow> R n + 1 < 2 ^ 32 \<Longrightarrow> 0 < R n \<or> card {m. 0 < R m} < capacity
      \<Longrightarrow> \<exists>b s'. rd n s = Ok (b, s') \<and> step s s' \<and> has s' n b \<and> ok s' V (R(n := R n + 1)) (insert n K)
        \<and> media s' = media s \<and> hist s' = hist s \<and> (\<forall>m i. 0 < R m \<longrightarrow> has s m i \<longrightarrow> has s' m i)"
    and put_law: "ok s V R K \<Longrightarrow> has s n b \<Longrightarrow> n \<in> K
      \<Longrightarrow> step s (put b d s) \<and> ok (put b d s) (V(n := d)) R K \<and> media (put b d s) = media s \<and> hist (put b d s) = hist s
        \<and> (\<forall>m i. 0 < R m \<longrightarrow> has s m i \<longrightarrow> has (put b d s) m i)"
    and wr_law: "ok s V R K \<Longrightarrow> has s n b \<Longrightarrow> n \<in> K
      \<Longrightarrow> \<exists>s'. wr b s = Ok s' \<and> step s s' \<and> ok s' V R K \<and> media s' = (media s)(n := V n) \<and> hist s' = hist s @ [(n, V n)]
        \<and> (\<forall>m i. 0 < R m \<longrightarrow> has s m i \<longrightarrow> has s' m i)"
    and rel_law: "ok s V R K \<Longrightarrow> has s n b \<Longrightarrow> n \<in> K \<Longrightarrow> (R n = 1 \<longrightarrow> V n = media s n)
      \<Longrightarrow> \<exists>s'. rel b s = Ok s' \<and> step s s' \<and> ok s' V (R(n := R n - 1)) (K - {n}) \<and> media s' = media s \<and> hist s' = hist s
        \<and> (\<forall>m i. 0 < R m \<longrightarrow> has s m i \<longrightarrow> has s' m i)"
    and unpin_law: "ok s V R K \<Longrightarrow> has s n b \<Longrightarrow> n \<in> K \<Longrightarrow> 1 < R n
      \<Longrightarrow> \<exists>s'. unpin b s = Ok s' \<and> step s s' \<and> ok s' V (R(n := R n - 1)) K \<and> media s' = media s \<and> hist s' = hist s
        \<and> (\<forall>m i. 0 < R m \<longrightarrow> has s m i \<longrightarrow> has s' m i)"
begin

text \<open>Reading a block and letting it go.\<close>

lemma peek:
  assumes "ok s V R K" "n \<notin> K" "R n + 1 < 2 ^ 32" "0 < R n \<or> card {m. 0 < R m} < capacity"
  shows "\<exists>b s1 s2. rd n s = Ok (b, s1) \<and> content s1 b = V n \<and> rel b s1 = Ok s2 \<and> step s s1 \<and> step s s2 \<and> ok s2 V R K
    \<and> media s2 = media s \<and> hist s2 = hist s"
proof -
  obtain b s1 where s1: "rd n s = Ok (b, s1)" "step s s1" "has s1 n b" "ok s1 V (R(n := R n + 1)) (insert n K)"
      "media s1 = media s" "hist s1 = hist s"
    using rd_law[OF assms] by blast
  have c: "content s1 b = V n" using content_has[OF s1(4,3)] by simp
  have "(R(n := R n + 1)) n = 1 \<longrightarrow> V n = media s1 n" using clean[OF assms(1)] s1(5) by simp
  then obtain s2 where s2: "rel b s1 = Ok s2" "step s1 s2" "ok s2 V ((R(n := R n + 1))(n := (R(n := R n + 1)) n - 1)) (insert n K - {n})"
      "media s2 = media s1" "hist s2 = hist s1"
    using rel_law[OF s1(4,3)] by blast
  have "(R(n := R n + 1))(n := (R(n := R n + 1)) n - 1) = R" by auto
  moreover have "insert n K - {n} = K" using assms(2) by blast
  ultimately show ?thesis using s1 s2 c step_trans[OF s1(2) s2(2)]
    by (intro exI[of _ b] exI[of _ s1] exI[of _ s2]) simp
qed

text \<open>Replacing a block on disk: read, change, write, release.\<close>

lemma store:
  assumes "ok s V R K" "n \<notin> K" "R n + 1 < 2 ^ 32" "0 < R n \<or> card {m. 0 < R m} < capacity"
  shows "\<exists>b s1 s2 s3. rd n s = Ok (b, s1) \<and> content s1 b = V n \<and> wr b (put b d s1) = Ok s2 \<and> rel b s2 = Ok s3 \<and> step s s1 \<and> step s s2 \<and> step s s3
    \<and> ok s3 (V(n := d)) R K \<and> media s3 = (media s)(n := d) \<and> hist s3 = hist s @ [(n, d)]"
proof -
  let ?R = "R(n := R n + 1)"
  obtain b s1 where s1: "rd n s = Ok (b, s1)" "step s s1" "has s1 n b" "ok s1 V ?R (insert n K)" "media s1 = media s" "hist s1 = hist s"
    using rd_law[OF assms] by blast
  have c: "content s1 b = V n" using content_has[OF s1(4,3)] by simp
  have p: "step s1 (put b d s1)" "ok (put b d s1) (V(n := d)) ?R (insert n K)" "media (put b d s1) = media s1"
      "hist (put b d s1) = hist s1" "has (put b d s1) n b"
    using put_law[OF s1(4,3), of d] s1(3) by auto
  obtain s2 where s2: "wr b (put b d s1) = Ok s2" "step (put b d s1) s2" "ok s2 (V(n := d)) ?R (insert n K)"
      "media s2 = (media s)(n := d)" "hist s2 = hist s @ [(n, d)]" "has s2 n b"
    using wr_law[OF p(2,5)] p(3,4,5) s1(5,6) by fastforce
  have "?R n = 1 \<longrightarrow> (V(n := d)) n = media s2 n" using s2(4) by simp
  then obtain s3 where s3: "rel b s2 = Ok s3" "step s2 s3" "ok s3 (V(n := d)) (?R(n := ?R n - 1)) (insert n K - {n})"
      "media s3 = media s2" "hist s3 = hist s2"
    using rel_law[OF s2(3,6)] by blast
  have "?R(n := ?R n - 1) = R" by auto
  moreover have "insert n K - {n} = K" using assms(2) by blast
  moreover have "step s s2" "step s s3" using step_trans[OF s1(2) step_trans[OF p(1) s2(2)]] step_trans s3(2) by blast+
  ultimately show ?thesis using s1 s2 s3 c
    by (intro exI[of _ b] exI[of _ s1] exI[of _ s2] exI[of _ s3]) simp
qed

text \<open>Two blocks held at once.\<close>

lemma rd_two:
  assumes "ok s V R K" "a \<notin> K" "b \<notin> K" "a \<noteq> b" "R a + 1 < 2 ^ 32" "R b + 1 < 2 ^ 32"
    "0 < R a \<or> card {m. 0 < R m} < capacity" "0 < R b \<or> card {m. 0 < R m} + 1 < capacity"
  shows "\<exists>x s1 y s2. rd a s = Ok (x, s1) \<and> step s s1 \<and> rd b s1 = Ok (y, s2) \<and> step s s2 \<and> has s2 a x \<and> has s2 b y
    \<and> ok s2 V (R(a := R a + 1, b := R b + 1)) (insert b (insert a K)) \<and> media s2 = media s \<and> hist s2 = hist s"
proof -
  let ?R = "R(a := R a + 1)"
  obtain x s1 where s1: "rd a s = Ok (x, s1)" "step s s1" "has s1 a x" "ok s1 V ?R (insert a K)" "media s1 = media s" "hist s1 = hist s"
    using rd_law[OF assms(1,2,5,7)] by blast
  have "{m. 0 < ?R m} = insert a {m. 0 < R m}" by auto
  then have "card {m. 0 < ?R m} \<le> card {m. 0 < R m} + 1" using finite_refs[OF assms(1)] by (simp add: card_insert_if)
  moreover have "?R b = R b" using assms(4) by simp
  ultimately have "0 < ?R b \<or> card {m. 0 < ?R m} < capacity" using assms(8) by linarith
  moreover have "b \<notin> insert a K" "?R b + 1 < 2 ^ 32" using assms(3,4,6) by auto
  ultimately obtain y s2 where s2: "rd b s1 = Ok (y, s2)" "step s1 s2" "has s2 b y" "ok s2 V (?R(b := ?R b + 1)) (insert b (insert a K))"
      "media s2 = media s1" "hist s2 = hist s1" "\<forall>m i. 0 < ?R m \<longrightarrow> has s1 m i \<longrightarrow> has s2 m i"
    using rd_law[OF s1(4)] by blast
  moreover have "has s2 a x" using s2(7) s1(3) by simp
  moreover have "?R b = R b" using assms(4) by simp
  ultimately show ?thesis using s1 step_trans[OF s1(2) s2(2)]
    by (intro exI[of _ x] exI[of _ s1] exI[of _ y] exI[of _ s2]) simp
qed

lemma rel_two:
  assumes "ok s V (R(a := Suc i, b := Suc j)) (insert b (insert a K))" "has s a x" "has s b y" "a \<noteq> b" "a \<notin> K" "b \<notin> K"
    "i = 0 \<Longrightarrow> V a = media s a" "j = 0 \<Longrightarrow> V b = media s b"
  shows "\<exists>s1 s2. rel x s = Ok s1 \<and> rel y s1 = Ok s2 \<and> step s s2 \<and> ok s2 V (R(a := i, b := j)) K \<and> media s2 = media s \<and> hist s2 = hist s"
proof -
  let ?R = "R(a := Suc i, b := Suc j)"
  have "?R a = 1 \<longrightarrow> V a = media s a" using assms(4,7) by simp
  then obtain s1 where s1: "rel x s = Ok s1" "step s s1" "ok s1 V (?R(a := ?R a - 1)) (insert b (insert a K) - {a})"
      "media s1 = media s" "hist s1 = hist s" "\<forall>m i. 0 < ?R m \<longrightarrow> has s m i \<longrightarrow> has s1 m i"
    using rel_law[OF assms(1,2)] by blast
  let ?R' = "?R(a := ?R a - 1)"
  have h: "has s1 b y" using s1(6) assms(3) by simp
  have "?R' b = 1 \<longrightarrow> V b = media s1 b" using assms(4,8) s1(4) by simp
  moreover have "b \<in> insert b (insert a K) - {a}" using assms(4) by simp
  ultimately obtain s2 where s2: "rel y s1 = Ok s2" "step s1 s2" "ok s2 V (?R'(b := ?R' b - 1)) (insert b (insert a K) - {a} - {b})"
      "media s2 = media s1" "hist s2 = hist s1"
    using rel_law[OF s1(3) h] by blast
  have "?R'(b := ?R' b - 1) = R(a := i, b := j)" using assms(4) by auto
  moreover have "insert b (insert a K) - {a} - {b} = K" using assms(5,6) by blast
  ultimately show ?thesis using s1 s2 step_trans[OF s1(2) s2(2)]
    by (intro exI[of _ s1] exI[of _ s2]) simp
qed

text \<open>A change of one of the two blocks, written through.\<close>

lemma put_wr:
  assumes "ok s V R K" "has s n b" "n \<in> K"
  shows "\<exists>s'. wr b (put b d s) = Ok s' \<and> step s s' \<and> ok s' (V(n := d)) R K \<and> media s' = (media s)(n := d)
    \<and> hist s' = hist s @ [(n, d)] \<and> (\<forall>m i. 0 < R m \<longrightarrow> has s m i \<longrightarrow> has s' m i)"
proof -
  have R: "0 < R n" using locked_refs[OF assms(1,3)] .
  have p: "step s (put b d s)" "ok (put b d s) (V(n := d)) R K" "media (put b d s) = media s" "hist (put b d s) = hist s"
      "\<And>m i. 0 < R m \<Longrightarrow> has s m i \<Longrightarrow> has (put b d s) m i"
    using put_law[OF assms, of d] by blast+
  obtain s' where s': "wr b (put b d s) = Ok s'" "step (put b d s) s'" "ok s' (V(n := d)) R K"
      "media s' = (media (put b d s))(n := (V(n := d)) n)" "hist s' = hist (put b d s) @ [(n, (V(n := d)) n)]"
      "\<forall>m i. 0 < R m \<longrightarrow> has (put b d s) m i \<longrightarrow> has s' m i"
    using wr_law[OF p(2) p(5)[OF R assms(2)] assms(3)] by blast
  then show ?thesis using p step_trans[OF p(1) s'(2)] by (intro exI[of _ s']) simp
qed

text \<open>Copying block \<open>b\<close> to block \<open>a\<close>, read first.\<close>

lemma copy_to_first:
  assumes "ok s V R K" "a \<notin> K" "b \<notin> K" "a \<noteq> b" "R a + 1 < 2 ^ 32" "R b + 1 < 2 ^ 32"
    "0 < R a \<or> card {m. 0 < R m} < capacity" "0 < R b \<or> card {m. 0 < R m} + 1 < capacity"
  shows "\<exists>x s1 y s2 s3 s4 s5. rd a s = Ok (x, s1) \<and> step s s1 \<and> rd b s1 = Ok (y, s2) \<and> content s2 y = V b \<and> wr x (put x (V b) s2) = Ok s3
    \<and> rel y s3 = Ok s4 \<and> rel x s4 = Ok s5 \<and> step s s5 \<and> ok s5 (V(a := V b)) R K
    \<and> media s5 = (media s)(a := V b) \<and> hist s5 = hist s @ [(a, V b)]"
proof -
  let ?R = "R(a := R a + 1, b := R b + 1)" and ?K = "insert b (insert a K)" and ?V = "V(a := V b)"
  obtain x s1 y s2 where s2: "rd a s = Ok (x, s1)" "rd b s1 = Ok (y, s2)" "step s s2" "has s2 a x" "has s2 b y" "ok s2 V ?R ?K"
      "media s2 = media s" "hist s2 = hist s" "step s s1"
    using rd_two[OF assms] by blast
  have c: "content s2 y = V b" using content_has[OF s2(6,5)] by simp
  obtain s3 where s3: "wr x (put x (V b) s2) = Ok s3" "step s2 s3" "ok s3 ?V ?R ?K" "media s3 = (media s)(a := V b)"
      "hist s3 = hist s @ [(a, V b)]" "\<forall>m i. 0 < ?R m \<longrightarrow> has s2 m i \<longrightarrow> has s3 m i"
    using put_wr[OF s2(6,4), of "V b"] s2(7,8) by auto
  have h: "has s3 a x" "has s3 b y" using s3(6) s2(4,5) by simp_all
  have sw: "ok s3 ?V (R(b := Suc (R b), a := Suc (R a))) (insert a (insert b K))"
    using s3(3) fun_upd_twist[OF assms(4), of R "Suc (R a)" "Suc (R b)"] by (simp add: insert_commute)
  obtain s4 s5 where s5: "rel y s3 = Ok s4" "rel x s4 = Ok s5" "step s3 s5" "ok s5 ?V (R(b := R b, a := R a)) K"
      "media s5 = media s3" "hist s5 = hist s3"
    using rel_two[OF sw h(2,1) assms(4)[symmetric] assms(3,2)] clean[OF assms(1), of b] s3(4) assms(4) by auto
  show ?thesis using s2 c s3 s5 step_trans[OF s2(3) step_trans[OF s3(2) s5(3)]]
    by (intro exI[of _ x] exI[of _ s1] exI[of _ y] exI[of _ s2] exI[of _ s3] exI[of _ s4] exI[of _ s5]) simp
qed

text \<open>Copying block \<open>a\<close>, read first, to block \<open>b\<close>, which may be unpinned once written.\<close>

lemma copy_to_second:
  assumes "ok s V R K" "a \<notin> K" "b \<notin> K" "a \<noteq> b" "R a + 1 < 2 ^ 32" "R b + 1 < 2 ^ 32"
    "0 < R a \<or> card {m. 0 < R m} < capacity" "0 < R b \<or> card {m. 0 < R m} + 1 < capacity" "u \<Longrightarrow> 0 < R b"
  shows "\<exists>x s1 y s2 s3 s4 s5 s6. rd a s = Ok (x, s1) \<and> step s s1 \<and> rd b s1 = Ok (y, s2) \<and> content s2 x = V a \<and> wr y (put y (V a) s2) = Ok s3
    \<and> (if u then unpin y s3 else Ok s3) = Ok s4 \<and> rel x s4 = Ok s5 \<and> rel y s5 = Ok s6 \<and> step s s6
    \<and> ok s6 (V(b := V a)) (R(b := if u then R b - 1 else R b)) K
    \<and> media s6 = (media s)(b := V a) \<and> hist s6 = hist s @ [(b, V a)]"
proof -
  let ?R = "R(a := R a + 1, b := R b + 1)" and ?K = "insert b (insert a K)" and ?V = "V(b := V a)"
  let ?j = "if u then R b - 1 else R b"
  let ?R' = "R(a := Suc (R a), b := Suc ?j)"
  obtain x s1 y s2 where s2: "rd a s = Ok (x, s1)" "rd b s1 = Ok (y, s2)" "step s s2" "has s2 a x" "has s2 b y" "ok s2 V ?R ?K"
      "media s2 = media s" "hist s2 = hist s" "step s s1"
    using rd_two[OF assms(1-8)] by blast
  have c: "content s2 x = V a" using content_has[OF s2(6,4)] by simp
  obtain s3 where s3: "wr y (put y (V a) s2) = Ok s3" "step s2 s3" "ok s3 ?V ?R ?K" "media s3 = (media s)(b := V a)"
      "hist s3 = hist s @ [(b, V a)]" "\<forall>m i. 0 < ?R m \<longrightarrow> has s2 m i \<longrightarrow> has s3 m i"
    using put_wr[OF s2(6,5), of "V a"] s2(7,8) by auto
  have h3: "has s3 a x" "has s3 b y" using s3(6) s2(4,5) by simp_all
  obtain s4 where s4: "(if u then unpin y s3 else Ok s3) = Ok s4" "step s s4" "ok s4 ?V ?R' ?K" "media s4 = media s3"
      "hist s4 = hist s3" "has s4 a x" "has s4 b y"
  proof (cases u)
    case True
    have "?R(b := ?R b - 1) = ?R'" using True assms(9) by auto
    moreover have "1 < ?R b" using assms(9) True by simp
    ultimately obtain s4 where s4: "unpin y s3 = Ok s4" "step s3 s4" "ok s4 ?V ?R' ?K" "media s4 = media s3"
        "hist s4 = hist s3" "\<forall>m i. 0 < ?R m \<longrightarrow> has s3 m i \<longrightarrow> has s4 m i"
      using unpin_law[OF s3(3) h3(2)] by (metis insertI1)
    show ?thesis
      by (rule that[of s4]) (use s4 True h3 step_trans[OF s2(3) step_trans[OF s3(2) s4(2)]] in simp_all)
  next
    case False
    then show ?thesis using that s3 h3 step_trans[OF s2(3) s3(2)] by simp
  qed
  have cl: "R a = 0 \<Longrightarrow> ?V a = media s4 a" "?V b = media s4 b" using clean[OF assms(1), of a] s3(4) s4(4) assms(4) by auto
  obtain s5 s6 where s6: "rel x s4 = Ok s5" "rel y s5 = Ok s6" "step s4 s6" "ok s6 ?V (R(a := R a, b := ?j)) K"
      "media s6 = media s4" "hist s6 = hist s4"
    using rel_two[OF s4(3,6,7) assms(4,2,3) cl] by blast
  have e: "ok s6 ?V (R(b := ?j)) K" "media s6 = (media s)(b := V a)" "hist s6 = hist s @ [(b, V a)]" "step s s6"
    using s6(4-6) s4(4,5) s3(4,5) step_trans[OF s4(2) s6(3)] by (simp_all only: fun_upd_triv)
  show ?thesis by (rule exI)+ (intro conjI, (fact s2 c s3 s4 s6 e)+)
qed

end

section \<open>The interpretation on bio.c\<close>

lemma cache_finite_refs:
  assumes "cache dv s V R K"
  shows "finite {m. 0 < R m}"
proof (rule finite_subset)
  show "{m. 0 < R m} \<subseteq> (\<lambda>i. b_blockno (the_buf i s)) ` {..<NBUF}"
  proof
    fix m assume "m \<in> {m. 0 < R m}"
    then obtain i where "has_block dv s m i" using cacheD(4)[OF assms, of m] by auto
    then show "m \<in> (\<lambda>i. b_blockno (the_buf i s)) ` {..<NBUF}" by (auto simp: has_block_def)
  qed
qed simp

interpretation bc: block_cache "\<lambda>s V R K. ready p s \<and> cache dv s V R K" "has_block dv" "\<lambda>s b. b_data (the_buf b s)"
    disk dhist "bio_step p" NBUF "bread dv" "\<lambda>b d. upd_buf b (b_data_update (\<lambda>_. d))" bwrite brelse bunpin
  for p dv
proof (unfold_locales, goal_cases)
  case (1 s V R K)
  then show ?case using cache_finite_refs by blast
next
  case (2 s V R K n)
  then show ?case using cacheD(5)[of dv s V R K n] by blast
next
  case (3 s V R K n)
  then show ?case using cacheD(5)[of dv s V R K n] by blast
next
  case (4 s V R K n b)
  then show ?case using has_block_buf_ok(6,8)[of dv s V R K n b] by simp
next
  case (5 s t u)
  then show ?case by (rule bio_step_trans)
next
  case (6 s V R K n)
  then have c: "ready p s" "cache dv s V R K" by simp_all
  have "0 < R n \<or> (\<exists>i < NBUF. b_refcnt (the_buf i s) = 0)"
    using 6(4) free_buffer[OF c(2) cache_finite_refs[OF c(2)]] by blast
  then show ?case using bread_spec[OF c 6(2,3)] unfolding keeps_def bio_step_def by blast
next
  case (7 s V R K n b d)
  then show ?case using upd_data_spec[of p s dv V R K n b, OF _ _ _ _ refl] unfolding keeps_def bio_step_def by blast
next
  case (8 s V R K n b)
  then show ?case using bwrite_spec[of p s dv V R K n b] unfolding keeps_def bio_step_def by blast
next
  case (9 s V R K n b)
  then show ?case using brelse_spec[of p s dv V R K n b] unfolding keeps_def bio_step_def by blast
next
  case (10 s V R K n b)
  then show ?case using bunpin_spec[of p s dv V R K n b] unfolding keeps_def bio_step_def by auto
qed

section \<open>The cache after binit\<close>

lemma held_initlock: "held H y \<Longrightarrow> l \<notin> H \<Longrightarrow> held H (initlock l nm y)"
  by (rule heldI) (auto simp: initlock_def lock_free_def intr_get_def mycpu_def cpuid_def dest: heldD held_locked)

lemma binit_one_bufs:
  assumes "b < NBUF" "length (bufs s) = Suc NBUF"
  shows "bufs (binit_one b s) = linked_first b (bufs s)"
  using assms by (simp add: binit_one_def upd_buf_def linked_first_def Let_def initsleeplock_def upd_slock_def)

lemma binit_fold:
  assumes "k \<le> NBUF" "length (bufs s) = Suc NBUF" "dlist (bufs s) []" "ready p s"
  shows "dlist (bufs (fold binit_one [0..<k] s)) (rev [0..<k]) \<and> length (bufs (fold binit_one [0..<k] s)) = Suc NBUF
    \<and> ready p (fold binit_one [0..<k] s) \<and> disk (fold binit_one [0..<k] s) = disk s
    \<and> (\<forall>i < k. sl_locked (slocks (fold binit_one [0..<k] s) (SL_buf i)) = 0)
    \<and> (\<forall>i. b_refcnt (bufs (fold binit_one [0..<k] s) ! i) = b_refcnt (bufs s ! i)
      \<and> b_dev (bufs (fold binit_one [0..<k] s) ! i) = b_dev (bufs s ! i))"
  using assms(1)
proof (induction k)
  case 0
  then show ?case using assms(2-4) by simp
next
  case (Suc k)
  define t where "t = fold binit_one [0..<k] s"
  have t: "dlist (bufs t) (rev [0..<k])" "length (bufs t) = Suc NBUF" "ready p t" "disk t = disk s"
      "\<And>i. i < k \<Longrightarrow> sl_locked (slocks t (SL_buf i)) = 0"
      "\<And>i. b_refcnt (bufs t ! i) = b_refcnt (bufs s ! i) \<and> b_dev (bufs t ! i) = b_dev (bufs s ! i)"
    using Suc by (auto simp: t_def)
  have k: "k < NBUF" using Suc.prems by simp
  have f: "fold binit_one [0..<Suc k] s = binit_one k t" by (simp add: t_def)
  have d: "dlist (linked_first k (bufs t)) (k # rev [0..<k])"
    using t(1,2) k by (intro dlist_linked_first) auto
  have bs: "bufs (binit_one k t) = linked_first k (bufs t)" by (rule binit_one_bufs[OF k t(2)])
  have r: "ready p (binit_one k t)" "disk (binit_one k t) = disk t"
      "slocks (binit_one k t) = (slocks t)(SL_buf k := (slocks t (SL_buf k))\<lparr>sl_name := ''buffer'', sl_locked := 0, sl_pid := 0\<rparr>)"
    using t(3) held_initlock[of "{}" "sy t"]
    by (auto simp: binit_one_def upd_buf_def Let_def initsleeplock_def upd_slock_def ready_def initlock_def mycpu_def cpuid_def)
  have "sl_locked (slocks (binit_one k t) (SL_buf i)) = 0" if "i < Suc k" for i
    using that t(5)[of i] r(3) by (cases "i = k") simp_all
  then show ?case unfolding f bs using d t r by (simp add: linked_first_fields)
qed

lemma binit_cache:
  assumes "ready p s" "length (bufs s) = Suc NBUF" "\<And>i. i < NBUF \<Longrightarrow> b_refcnt (the_buf i s) = 0 \<and> b_dev (the_buf i s) \<noteq> dv"
  shows "ready p (binit s)" "cache dv (binit s) (disk s) (\<lambda>_. 0) {}" "disk (binit s) = disk s"
    "dlist (bufs (binit s)) (rev [0..<NBUF])" "\<not> has_block dv (binit s) n j" "i < NBUF \<Longrightarrow> b_refcnt (the_buf i (binit s)) = 0"
proof -
  define s0 where "s0 = upd_buf NBUF (\<lambda>x. x\<lparr>b_prev := NBUF, b_next := NBUF\<rparr>) (s\<lparr>sy := initlock L_bcache ''bcache'' (sy s)\<rparr>)"
  have s0: "length (bufs s0) = Suc NBUF" "dlist (bufs s0) []" "ready p s0" "disk s0 = disk s"
    using assms(1,2) held_initlock[of "{}" "sy s" L_bcache "''bcache''"]
    by (auto simp: s0_def upd_buf_def ready_def initlock_def mycpu_def cpuid_def)
  have f0: "b_refcnt (bufs s0 ! i) = 0" "b_dev (bufs s0 ! i) \<noteq> dv" if "i < NBUF" for i
    using assms(3)[OF that] that by (simp_all add: s0_def upd_buf_def)
  have e: "binit s = fold binit_one [0..<NBUF] s0" by (simp add: binit_def s0_def)
  note f = binit_fold[OF order.refl s0(1-3), folded e]
  show "ready p (binit s)" "disk (binit s) = disk s" "dlist (bufs (binit s)) (rev [0..<NBUF])" using f s0(4) by simp_all
  have nb: "b_refcnt (the_buf i (binit s)) = 0" "b_dev (the_buf i (binit s)) \<noteq> dv" "sl_locked (slocks (binit s) (SL_buf i)) = 0"
    if "i < NBUF" for i using f f0[OF that] that by simp_all
  have "lru_ok (bufs (binit s))" using f unfolding lru_ok_def by (intro conjI exI[of _ "rev [0..<NBUF]"]) auto
  moreover have none: "\<not> has_block dv (binit s) n i" for n i using nb(2) by (auto simp: has_block_def)
  show "\<not> has_block dv (binit s) n j" "i < NBUF \<Longrightarrow> b_refcnt (the_buf i (binit s)) = 0" using none nb(1) by simp_all
  ultimately show "cache dv (binit s) (disk s) (\<lambda>_. 0) {}"
    using none nb f s0(4) by (simp add: cache_def buf_ok_def)
qed

section \<open>Properties\<close>

text \<open>
  C15. What is written is read back. A process reads a block, changes its data, writes it with
  bwrite and lets it go: every step succeeds, on disk exactly that block has changed and
  exactly one write was made; whatever block is read next, its data are the new ones for
  that block and the old ones for every other block.
\<close>

theorem block_write_read:
  assumes "ready p s" "cache dv s V R {}" "card {m. 0 < R m} < NBUF" "\<And>m. R m + 1 < 2 ^ 32"
  shows "\<exists>b s1 s2 s3. bread dv n s = Ok (b, s1) \<and> b_data (the_buf b s1) = V n
    \<and> bwrite b (upd_buf b (b_data_update (\<lambda>_. d)) s1) = Ok s2 \<and> brelse b s2 = Ok s3
    \<and> disk s3 = (disk s)(n := d) \<and> dhist s3 = dhist s @ [(n, d)]
    \<and> (\<forall>m. \<exists>b' s4. bread dv m s3 = Ok (b', s4) \<and> b_data (the_buf b' s4) = (if m = n then d else V m))"
proof -
  obtain b s1 s2 s3 where s3: "bread dv n s = Ok (b, s1)" "b_data (the_buf b s1) = V n"
      "bwrite b (upd_buf b (b_data_update (\<lambda>_. d)) s1) = Ok s2" "brelse b s2 = Ok s3"
      "ready p s3 \<and> cache dv s3 (V(n := d)) R {}" "disk s3 = (disk s)(n := d)" "dhist s3 = dhist s @ [(n, d)]"
    using bc.store[of p s dv V R "{}" n d] assms by blast
  have "\<exists>b' s4. bread dv m s3 = Ok (b', s4) \<and> b_data (the_buf b' s4) = (V(n := d)) m" for m
    using bc.peek[OF s3(5), of m] assms(3,4) by blast
  then show ?thesis using s3
    by (intro exI[of _ b] exI[of _ s1] exI[of _ s2] exI[of _ s3]) (simp add: fun_upd_apply)
qed

text \<open>
  C20. Buffers are replaced in the order of their last release. If the list of the cache goes
  through the buffers xs, a block that is not cached is put into the last buffer of xs that
  has no references, and the buffer whose last reference brelse drops becomes the first.
\<close>

theorem bcache_replaces_lru:
  assumes "ready p s" "cache dv s V R K" "dlist (bufs s) xs" "distinct xs" "set xs = {..<NBUF}"
  shows "(\<forall>n i s'. bget dv n s = Ok (i, s') \<longrightarrow> (\<forall>j. \<not> has_block dv s n j)
      \<longrightarrow> find (\<lambda>j. b_refcnt (the_buf j s) = 0) (rev xs) = Some i)
    \<and> (\<forall>n b. has_block dv s n b \<longrightarrow> n \<in> K \<longrightarrow> R n = 1 \<longrightarrow> V n = disk s n
      \<longrightarrow> (\<exists>s'. brelse b s = Ok s' \<and> dlist (bufs s') (b # remove1 b xs)))"
proof (intro conjI allI impI)
  fix n i s' assume g: "bget dv n s = Ok (i, s')" and none: "\<forall>j. \<not> has_block dv s n j"
  obtain y where y: "kacquire L_bcache s = Ok (s\<lparr>sy := y\<rparr>)" using ready_acquire[OF assms(1)] by blast
  have "find_cached (bufs s) dv n (b_next (the_buf NBUF s)) = Some None"
    using lru_find_cached[OF cacheD(1)[OF assms(2)], of dv n] none by (auto simp: has_block_def split: option.splits)
  moreover have "find_free (bufs s) (b_prev (the_buf NBUF s)) = Some (find (\<lambda>j. b_refcnt (the_buf j s) = 0) (rev xs))"
    using assms(3,5) by (intro find_free_seg) auto
  ultimately show "find (\<lambda>j. b_refcnt (the_buf j s) = 0) (rev xs) = Some i"
    using g y by (auto simp: bget_def bind_res_eq_Ok Let_def split: option.splits)
next
  fix n b assume h: "has_block dv s n b" "n \<in> K" "R n = 1" "V n = disk s n"
  let ?bs = "(bufs s)[b := (the_buf b s)\<lparr>b_refcnt := b_refcnt (the_buf b s) - 1\<rparr>]"
  obtain s' where s': "brelse b s = Ok s'" "bufs s' = move_to_front b ?bs"
    using brelse_spec[OF assms(1,2) h(1,2)] h(3,4) by (auto simp: Let_def)
  have b: "b < NBUF" "b < length (bufs s)" "length (bufs s) = Suc NBUF"
    using has_block_buf_ok[OF assms(2) h(1)] lru_ok_length[OF cacheD(1)[OF assms(2)]] by simp_all
  have d: "dlist ?bs xs" by (rule dseg_cong[OF assms(3)]) (simp_all add: list_update_field)
  obtain as zs where sp: "xs = as @ b # zs" using b(1) assms(5) by (metis lessThan_iff split_list)
  then have "b \<notin> set as" "NBUF \<notin> set (as @ b # zs)" using assms(4,5) by auto
  then have r: "remove1 b xs = as @ zs" using sp by (simp add: remove1_append)
  have "dlist (unlinked b ?bs) (as @ zs)"
    using d sp assms(4,5) b by (intro dlist_unlinked) auto
  then have "dlist (move_to_front b ?bs) (b # as @ zs)"
    using sp assms(4,5) b unfolding move_to_front_eq by (intro dlist_linked_first) (auto simp: unlinked_fields)
  then show "\<exists>s'. brelse b s = Ok s' \<and> dlist (bufs s') (b # remove1 b xs)" using s' r by auto
qed

definition cold_bufs :: bio_state where
  "cold_bufs = sleep_state.extend two_procs_sl (bio_state.fields
     (replicate (Suc NBUF) \<lparr>b_valid = 0, b_disk = 0, b_dev = 0, b_blockno = 0, b_refcnt = 0, b_prev = 0, b_next = 0, b_data = replicate BSIZE 0\<rparr>)
     (\<lambda>_. replicate BSIZE 0) [])"

lemma cold_bufs_ready: "ready 0 cold_bufs"
  using two_procs_held
  by (simp add: ready_def cold_bufs_def sleep_state.extend_def bio_state.fields_def two_procs_sl_def proc_state.extend_def
      sleep_state.fields_def two_procs_def boot_sync_def boot_cpu_def mycpu_def cpuid_def NPROC_def)

lemma cold_bufs_bufs: "length (bufs cold_bufs) = Suc NBUF" "i < NBUF \<Longrightarrow> b_refcnt (the_buf i cold_bufs) = 0 \<and> b_dev (the_buf i cold_bufs) \<noteq> 1"
  by (simp_all add: cold_bufs_def sleep_state.extend_def bio_state.fields_def nth_append del: replicate_Suc)

lemma cold_cache:
  "ready 0 (binit cold_bufs)" "cache 1 (binit cold_bufs) (disk cold_bufs) (\<lambda>_. 0) {}"
  "dlist (bufs (binit cold_bufs)) (rev [0..<NBUF])" "\<not> has_block 1 (binit cold_bufs) n j"
  "i < NBUF \<Longrightarrow> b_refcnt (the_buf i (binit cold_bufs)) = 0"
  by (rule binit_cache[OF cold_bufs_ready cold_bufs_bufs]; assumption)+

theorem block_write_read_witness:
  "\<exists>b s1 s2 s3. bread 1 7 (binit cold_bufs) = Ok (b, s1) \<and> bwrite b (upd_buf b (b_data_update (\<lambda>_. [1, 2, 3])) s1) = Ok s2
    \<and> brelse b s2 = Ok s3 \<and> (\<exists>b' s4. bread 1 7 s3 = Ok (b', s4) \<and> b_data (the_buf b' s4) = [1, 2, 3])"
  using block_write_read[OF cold_cache(1,2), of 7 "[1, 2, 3]"] by (fastforce simp: NBUF_def MAXOPBLOCKS_def)

theorem bcache_replaces_lru_witness:
  "\<exists>s'. bget 1 7 (binit cold_bufs) = Ok (0, s')"
proof -
  have n0: "0 < NBUF" by (simp add: NBUF_def MAXOPBLOCKS_def)
  have rc: "b_refcnt (the_buf 0 (binit cold_bufs)) = 0" by (rule cold_cache(5)[OF n0])
  then have "\<exists>i < NBUF. b_refcnt (the_buf i (binit cold_bufs)) = 0" using n0 by blast
  then obtain i s' where g: "bget 1 7 (binit cold_bufs) = Ok (i, s')"
    using bget_miss[OF cold_cache(1,2,4)] by blast
  then have "find (\<lambda>j. b_refcnt (the_buf j (binit cold_bufs)) = 0) (rev (rev [0..<NBUF])) = Some i"
    using bcache_replaces_lru[OF cold_cache(1-3)] cold_cache(4) by (auto simp: lessThan_atLeast0)
  then have "i = 0" using rc n0 by (simp add: upt_conv_Cons)
  then show ?thesis using g by blast
qed

end
