(* ===== verification/Log.thy ===== *)
theory Log
  imports Block_Cache Bytes
begin

text \<open>
  kernel/fs/log.c: the redo log. A transaction collects the numbers of the blocks the file
  system operations changed in \<open>logbuf.lh\<close> and keeps the blocks in the cache; when the last
  operation ends, \<open>commit\<close> copies them to the log area, writes the header (the point of no
  return), installs them at home and clears the header. At boot \<open>recover_from_log\<close> installs
  a committed transaction again.

  An access outside \<open>lh.block[LOGBLOCKS]\<close> is undefined in C; the model ends there with
  \<open>Panic ''undefined''\<close>, so that an \<open>Ok\<close> outcome excludes it. The line that
  \<open>install_trans\<close> prints while recovering is left out.
\<close>

section \<open>State\<close>

record log_state = bio_state +
  log_start :: i32
  log_outstanding :: i32
  log_committing :: i32
  log_dev :: i32
  lh_n :: i32
  lh_block :: "i32 list"

text \<open>The fields of \<open>struct logheader\<close> in a block: \<open>n\<close>, then \<open>block[]\<close>.\<close>

definition LH_block :: "nat \<Rightarrow> nat" where
  "LH_block i = 4 + 4 * i"

definition lh_get :: "nat \<Rightarrow> 'z log_state_scheme \<Rightarrow> i32 res" where
  "lh_get i s = (if i < length (lh_block s) then Ok (lh_block s ! i) else Panic ''undefined'')"

definition lh_set :: "nat \<Rightarrow> i32 \<Rightarrow> 'z log_state_scheme \<Rightarrow> 'z log_state_scheme res" where
  "lh_set i v s = (if i < length (lh_block s) then Ok (s\<lparr>lh_block := (lh_block s)[i := v]\<rparr>) else Panic ''undefined'')"

section \<open>The header and the copies\<close>

definition install_one :: "i32 \<Rightarrow> nat \<Rightarrow> 'z log_state_scheme \<Rightarrow> 'z log_state_scheme res" where
  "install_one recovering tail s =
     bind_res (bread (log_dev s) (log_start s + of_nat tail + 1) s) (\<lambda>(lbuf, s).
     bind_res (lh_get tail s) (\<lambda>dst.
     bind_res (bread (log_dev s) dst s) (\<lambda>(dbuf, s).
     bind_res (bwrite dbuf (upd_buf dbuf (b_data_update (\<lambda>_. b_data (the_buf lbuf s))) s)) (\<lambda>s.
     bind_res (if recovering = 0 then bunpin dbuf s else Ok s) (\<lambda>s.
     bind_res (brelse lbuf s) (\<lambda>s.
     brelse dbuf s))))))"

definition install_trans :: "i32 \<Rightarrow> 'z log_state_scheme \<Rightarrow> 'z log_state_scheme res" where
  "install_trans recovering s = fold_res (install_one recovering) [0..<nat (sint (lh_n s))] s"

definition read_head :: "'z log_state_scheme \<Rightarrow> 'z log_state_scheme res" where
  "read_head s =
     bind_res (bread (log_dev s) (log_start s) s) (\<lambda>(b, s).
     let lh = b_data (the_buf b s);
         s = s\<lparr>lh_n := get32 0 lh\<rparr>
     in bind_res (fold_res (\<lambda>i. lh_set i (get32 (LH_block i) lh)) [0..<nat (sint (lh_n s))] s) (\<lambda>s.
        brelse b s))"

text \<open>The stores of \<open>write_head\<close> into the data of the header block.\<close>

definition head_one :: "nat \<Rightarrow> nat \<Rightarrow> 'z log_state_scheme \<Rightarrow> 'z log_state_scheme res" where
  "head_one b i s =
     bind_res (lh_get i s) (\<lambda>v. Ok (upd_buf b (b_data_update (put32 (LH_block i) v)) s))"

definition write_head :: "'z log_state_scheme \<Rightarrow> 'z log_state_scheme res" where
  "write_head s =
     bind_res (bread (log_dev s) (log_start s) s) (\<lambda>(b, s).
     let s = upd_buf b (b_data_update (put32 0 (lh_n s))) s in
     bind_res (fold_res (head_one b) [0..<nat (sint (lh_n s))] s) (\<lambda>s.
     bind_res (bwrite b s) (\<lambda>s.
     brelse b s)))"

definition recover_from_log :: "'z log_state_scheme \<Rightarrow> 'z log_state_scheme res" where
  "recover_from_log s =
     bind_res (read_head s) (\<lambda>s.
     bind_res (install_trans 1 s) (\<lambda>s.
     write_head (s\<lparr>lh_n := 0\<rparr>)))"

definition initlog :: "i32 \<Rightarrow> u32 \<Rightarrow> 'z log_state_scheme \<Rightarrow> 'z log_state_scheme res" where
  "initlog dev logstart s =
     (if BSIZE \<le> LH_block LOGBLOCKS then Panic ''initlog: too big logheader''
      else
        let s = s\<lparr>sy := initlock L_log ''log'' (sy s)\<rparr>;
            s = s\<lparr>log_start := logstart, log_dev := dev\<rparr>
        in recover_from_log s)"

section \<open>Transactions\<close>

text \<open>The loop of \<open>begin_op\<close>, entered with \<open>logbuf.lock\<close> held.\<close>

definition begin_op_loop :: "'z log_state_scheme \<Rightarrow> (unit wait_result \<times> 'z log_state_scheme) res" where
  "begin_op_loop s =
     (if log_committing s \<noteq> 0
         \<or> sint (of_nat LOGBLOCKS :: i32) < sint (lh_n s + (log_outstanding s + 1) * of_nat MAXOPBLOCKS)
      then bind_res (sleep_out (Some C_log) L_log s) (\<lambda>(ie, s). Ok (Wait_sleeps ie, s))
      else bind_res (krelease L_log (s\<lparr>log_outstanding := log_outstanding s + 1\<rparr>)) (\<lambda>s. Ok (Wait_returns (), s)))"

definition begin_op_start :: "'z log_state_scheme \<Rightarrow> (unit wait_result \<times> 'z log_state_scheme) res" where
  "begin_op_start s = bind_res (kacquire L_log s) begin_op_loop"

definition begin_op_resume :: "nat \<Rightarrow> u32 \<Rightarrow> 'z log_state_scheme \<Rightarrow> (unit wait_result \<times> 'z log_state_scheme) res" where
  "begin_op_resume p ie s = bind_res (sleep_in p L_log ie s) begin_op_loop"

definition begin_op :: "'z log_state_scheme \<Rightarrow> 'z log_state_scheme res" where
  "begin_op s =
     bind_res (begin_op_start s) (\<lambda>(r, s).
     case r of Wait_returns u \<Rightarrow> Ok s | Wait_sleeps ie \<Rightarrow> Hang)"

definition write_log_one :: "nat \<Rightarrow> 'z log_state_scheme \<Rightarrow> 'z log_state_scheme res" where
  "write_log_one tail s =
     bind_res (bread (log_dev s) (log_start s + of_nat tail + 1) s) (\<lambda>(dst, s).
     bind_res (lh_get tail s) (\<lambda>home.
     bind_res (bread (log_dev s) home s) (\<lambda>(src, s).
     bind_res (bwrite dst (upd_buf dst (b_data_update (\<lambda>_. b_data (the_buf src s))) s)) (\<lambda>s.
     bind_res (brelse src s) (\<lambda>s.
     brelse dst s)))))"

definition write_log :: "'z log_state_scheme \<Rightarrow> 'z log_state_scheme res" where
  "write_log s = fold_res write_log_one [0..<nat (sint (lh_n s))] s"

definition commit :: "'z log_state_scheme \<Rightarrow> 'z log_state_scheme res" where
  "commit s =
     (if 0 < sint (lh_n s)
      then
        bind_res (write_log s) (\<lambda>s.
        bind_res (write_head s) (\<lambda>s.
        bind_res (install_trans 0 s) (\<lambda>s.
        write_head (s\<lparr>lh_n := 0\<rparr>))))
      else Ok s)"

definition end_op :: "'z log_state_scheme \<Rightarrow> 'z log_state_scheme res" where
  "end_op s =
     bind_res (kacquire L_log s) (\<lambda>s.
     let s = s\<lparr>log_outstanding := log_outstanding s - 1\<rparr> in
     if log_committing s \<noteq> 0 then Panic ''log.committing''
     else if log_outstanding s = 0
     then
       let s = s\<lparr>log_committing := 1\<rparr> in
       bind_res (krelease L_log s) (\<lambda>s.
       bind_res (commit s) (\<lambda>s.
       bind_res (kacquire L_log s) (\<lambda>s.
       let s = s\<lparr>log_committing := 0\<rparr> in
       bind_res (wakeup (Some C_log) s) (\<lambda>s.
       krelease L_log s))))
     else
       bind_res (wakeup (Some C_log) s) (\<lambda>s.
       krelease L_log s))"

text \<open>The first index of \<open>block[]\<close> that holds the block, or the number of logged blocks.\<close>

definition log_slot :: "i32 list \<Rightarrow> nat \<Rightarrow> u32 \<Rightarrow> nat" where
  "log_slot blks n blockno = (case find (\<lambda>i. blks ! i = blockno) [0..<n] of Some i \<Rightarrow> i | None \<Rightarrow> n)"

definition log_write :: "nat \<Rightarrow> 'z log_state_scheme \<Rightarrow> 'z log_state_scheme res" where
  "log_write b s =
     bind_res (kacquire L_log s) (\<lambda>s.
     if sint (of_nat LOGBLOCKS :: i32) \<le> sint (lh_n s) then Panic ''too big a transaction''
     else if sint (log_outstanding s) < 1 then Panic ''log_write outside of trans''
     else
       let i = log_slot (lh_block s) (nat (sint (lh_n s))) (b_blockno (the_buf b s)) in
       bind_res (lh_set i (b_blockno (the_buf b s)) s) (\<lambda>s.
       bind_res (if of_nat i = lh_n s
                 then bind_res (bpin b s) (\<lambda>s. Ok (s\<lparr>lh_n := lh_n s + 1\<rparr>))
                 else Ok s) (\<lambda>s.
       krelease L_log s)))"

end
