(* ===== verification/Pipe.thy ===== *)
theory Pipe
  imports Log
begin

text \<open>
  kernel/ipc/pipe.c: a pipe is a ring buffer of \<open>PIPESIZE\<close> bytes with two counters that
  only grow and wrap at 32 bits. The structure lives in a page of its own; \<open>pipes\<close> holds
  it by the address of that page, its lock is \<open>L_pipe\<close>. \<open>k_ch\<close> is the address of the local
  variable \<open>ch\<close> through which the bytes go.

  The functions that may sleep are cut at the call of \<open>sleep\<close>: they return, or they stop
  asleep with the progress of their loop and continue from there.
\<close>

section \<open>State\<close>

definition PIPESIZE :: nat where "PIPESIZE = 512"

record pipe =
  pi_data :: "u8 list"
  pi_nread :: u32
  pi_nwrite :: u32
  pi_readopen :: i32
  pi_writeopen :: i32

record pipe_state = log_state +
  pipes :: "u64 \<Rightarrow> pipe"
  k_ch :: u64

definition upd_pipe :: "u64 \<Rightarrow> (pipe \<Rightarrow> pipe) \<Rightarrow> 'z pipe_state_scheme \<Rightarrow> 'z pipe_state_scheme" where
  "upd_pipe pi f s = s\<lparr>pipes := (pipes s)(pi := f (pipes s pi))\<rparr>"

text \<open>The fields \<open>pipealloc\<close> sets, and its lock.\<close>

definition pipe_init :: "u64 \<Rightarrow> 'z pipe_state_scheme \<Rightarrow> 'z pipe_state_scheme" where
  "pipe_init pi s =
     upd_pipe pi (\<lambda>p. p\<lparr>pi_readopen := 1, pi_writeopen := 1, pi_nwrite := 0, pi_nread := 0\<rparr>)
       (s\<lparr>sy := initlock (L_pipe pi) ''pipe'' (sy s)\<rparr>)"

section \<open>The ring buffer\<close>

definition pipe_full :: "pipe \<Rightarrow> bool" where
  "pipe_full p \<longleftrightarrow> pi_nwrite p = pi_nread p + of_nat PIPESIZE"

definition pipe_empty :: "pipe \<Rightarrow> bool" where
  "pipe_empty p \<longleftrightarrow> pi_nread p = pi_nwrite p"

text \<open>\<open>pi->data[pi->nwrite++ % PIPESIZE] = ch\<close> and \<open>ch = pi->data[pi->nread++ % PIPESIZE]\<close>.\<close>

definition pipe_put :: "u8 \<Rightarrow> pipe \<Rightarrow> pipe" where
  "pipe_put ch p = p\<lparr>pi_data := (pi_data p)[unat (pi_nwrite p) mod PIPESIZE := ch], pi_nwrite := pi_nwrite p + 1\<rparr>"

definition pipe_get :: "pipe \<Rightarrow> u8 \<times> pipe" where
  "pipe_get p = (pi_data p ! (unat (pi_nread p) mod PIPESIZE), p\<lparr>pi_nread := pi_nread p + 1\<rparr>)"

section \<open>Operations\<close>

definition pipeclose :: "u64 \<Rightarrow> bool \<Rightarrow> 'z pipe_state_scheme \<Rightarrow> 'z pipe_state_scheme res" where
  "pipeclose pi writable s =
     bind_res (kacquire (L_pipe pi) s) (\<lambda>s.
     bind_res
       (if writable
        then wakeup (Some (C_nread pi)) (upd_pipe pi (pi_writeopen_update (\<lambda>_. 0)) s)
        else wakeup (Some (C_nwrite pi)) (upd_pipe pi (pi_readopen_update (\<lambda>_. 0)) s)) (\<lambda>s.
     if pi_readopen (pipes s pi) = 0 \<and> pi_writeopen (pipes s pi) = 0
     then bind_res (krelease (L_pipe pi) s) (\<lambda>s. free_page pi s)
     else krelease (L_pipe pi) s))"

text \<open>
  What a loop of \<open>pipewrite\<close> or \<open>piperead\<close> ends with: the function's value, or asleep with
  \<open>k\<close> of the \<open>n\<close> bytes left to do.
\<close>

datatype pipe_result = Pipe_returns i32 | Pipe_sleeps u32 nat nat

definition pipewrite_end :: "u64 \<Rightarrow> nat \<Rightarrow> 'z pipe_state_scheme \<Rightarrow> (pipe_result \<times> 'z pipe_state_scheme) res" where
  "pipewrite_end pi i s =
     bind_res (wakeup (Some (C_nread pi)) s) (\<lambda>s.
     bind_res (krelease (L_pipe pi) s) (\<lambda>s. Ok (Pipe_returns (of_nat i), s)))"

primrec pipewrite_loop ::
    "nat option \<Rightarrow> u64 \<Rightarrow> u64 \<Rightarrow> nat \<Rightarrow> nat \<Rightarrow> 'z pipe_state_scheme \<Rightarrow> (pipe_result \<times> 'z pipe_state_scheme) res" where
  "pipewrite_loop pr pi addr 0 i s = pipewrite_end pi i s"
| "pipewrite_loop pr pi addr (Suc k) i s =
     bind_res (if pi_readopen (pipes s pi) = 0 then Ok (True, s)
               else deref pr (\<lambda>p. bind_res (killed p s) (\<lambda>(k, s). Ok (k \<noteq> 0, s)))) (\<lambda>(stop, s).
     if stop then bind_res (krelease (L_pipe pi) s) (\<lambda>s. Ok (Pipe_returns (- 1), s))
     else if pipe_full (pipes s pi)
     then bind_res (wakeup (Some (C_nread pi)) s) (\<lambda>s.
          bind_res (sleep_out (Some (C_nwrite pi)) (L_pipe pi) s) (\<lambda>(ie, s).
          Ok (Pipe_sleeps ie (Suc k) i, s)))
     else deref pr (\<lambda>p.
          bind_res (copyin (p_pagetable (the_proc p s)) (k_ch s) (addr + of_nat i) 1 s) (\<lambda>(r, s).
          if r = - 1 then pipewrite_end pi i s
          else pipewrite_loop pr pi addr k (Suc i) (upd_pipe pi (pipe_put (mem s (k_ch s))) s))))"

definition pipewrite_start :: "u64 \<Rightarrow> u64 \<Rightarrow> i32 \<Rightarrow> 'z pipe_state_scheme \<Rightarrow> (pipe_result \<times> 'z pipe_state_scheme) res" where
  "pipewrite_start pi addr n s =
     bind_res (myproc s) (\<lambda>(pr, s).
     bind_res (kacquire (L_pipe pi) s) (\<lambda>s.
     pipewrite_loop pr pi addr (nat (sint n)) 0 s))"

definition pipewrite_resume ::
    "nat \<Rightarrow> u64 \<Rightarrow> u64 \<Rightarrow> u32 \<Rightarrow> nat \<Rightarrow> nat \<Rightarrow> 'z pipe_state_scheme \<Rightarrow> (pipe_result \<times> 'z pipe_state_scheme) res" where
  "pipewrite_resume p pi addr ie k i s =
     bind_res (sleep_in p (L_pipe pi) ie s) (\<lambda>s. pipewrite_loop (Some p) pi addr k i s)"

definition piperead_end :: "u64 \<Rightarrow> nat \<Rightarrow> 'z pipe_state_scheme \<Rightarrow> (pipe_result \<times> 'z pipe_state_scheme) res" where
  "piperead_end pi i s =
     bind_res (wakeup (Some (C_nwrite pi)) s) (\<lambda>s.
     bind_res (krelease (L_pipe pi) s) (\<lambda>s. Ok (Pipe_returns (of_nat i), s)))"

primrec piperead_copy ::
    "nat option \<Rightarrow> u64 \<Rightarrow> u64 \<Rightarrow> nat \<Rightarrow> nat \<Rightarrow> 'z pipe_state_scheme \<Rightarrow> (pipe_result \<times> 'z pipe_state_scheme) res" where
  "piperead_copy pr pi addr 0 i s = piperead_end pi i s"
| "piperead_copy pr pi addr (Suc k) i s =
     (if pipe_empty (pipes s pi) then piperead_end pi i s
      else
        let (ch, p') = pipe_get (pipes s pi);
            s = upd_pipe pi (\<lambda>_. p') s;
            s = s\<lparr>mem := (mem s)(k_ch s := ch)\<rparr>
        in deref pr (\<lambda>p.
           bind_res (copyout (p_pagetable (the_proc p s)) (addr + of_nat i) (k_ch s) 1 s) (\<lambda>(r, s).
           if r = - 1 then piperead_end pi i s
           else piperead_copy pr pi addr k (Suc i) s)))"

text \<open>The wait for data and the copy, entered with the lock of the pipe held.\<close>

definition piperead_loop :: "nat option \<Rightarrow> u64 \<Rightarrow> u64 \<Rightarrow> nat \<Rightarrow> 'z pipe_state_scheme \<Rightarrow> (pipe_result \<times> 'z pipe_state_scheme) res" where
  "piperead_loop pr pi addr n s =
     (if pipe_empty (pipes s pi) \<and> pi_writeopen (pipes s pi) \<noteq> 0
      then deref pr (\<lambda>p.
           bind_res (killed p s) (\<lambda>(k, s).
           if k \<noteq> 0 then bind_res (krelease (L_pipe pi) s) (\<lambda>s. Ok (Pipe_returns (- 1), s))
           else bind_res (sleep_out (Some (C_nread pi)) (L_pipe pi) s) (\<lambda>(ie, s).
                Ok (Pipe_sleeps ie n 0, s))))
      else piperead_copy pr pi addr n 0 s)"

definition piperead_start :: "u64 \<Rightarrow> u64 \<Rightarrow> i32 \<Rightarrow> 'z pipe_state_scheme \<Rightarrow> (pipe_result \<times> 'z pipe_state_scheme) res" where
  "piperead_start pi addr n s =
     bind_res (myproc s) (\<lambda>(pr, s).
     bind_res (kacquire (L_pipe pi) s) (\<lambda>s.
     piperead_loop pr pi addr (nat (sint n)) s))"

definition piperead_resume :: "nat \<Rightarrow> u64 \<Rightarrow> u64 \<Rightarrow> u32 \<Rightarrow> nat \<Rightarrow> 'z pipe_state_scheme \<Rightarrow> (pipe_result \<times> 'z pipe_state_scheme) res" where
  "piperead_resume p pi addr ie n s =
     bind_res (sleep_in p (L_pipe pi) ie s) (\<lambda>s. piperead_loop (Some p) pi addr n s)"

text \<open>A call made while no other process can run: it hangs where it would sleep.\<close>

definition pipe_now :: "(pipe_result \<times> 'z pipe_state_scheme) res \<Rightarrow> (i32 \<times> 'z pipe_state_scheme) res" where
  "pipe_now r = bind_res r (\<lambda>(v, s). case v of Pipe_returns x \<Rightarrow> Ok (x, s) | Pipe_sleeps ie k i \<Rightarrow> Hang)"

definition pipewrite :: "u64 \<Rightarrow> u64 \<Rightarrow> i32 \<Rightarrow> 'z pipe_state_scheme \<Rightarrow> (i32 \<times> 'z pipe_state_scheme) res" where
  "pipewrite pi addr n s = pipe_now (pipewrite_start pi addr n s)"

definition piperead :: "u64 \<Rightarrow> u64 \<Rightarrow> i32 \<Rightarrow> 'z pipe_state_scheme \<Rightarrow> (i32 \<times> 'z pipe_state_scheme) res" where
  "piperead pi addr n s = pipe_now (piperead_start pi addr n s)"

end
