(* ===== verification/Pipe_Fifo.thy ===== *)
theory Pipe_Fifo
  imports Pipe Usercopy
begin

text \<open>
  A pipe is a bounded first-in first-out queue of bytes: the interface of such a queue as a
  locale, its interpretation on the ring buffer with wrapping counters, and from it what
  \<open>pipewrite\<close> and \<open>piperead\<close> do with the bytes of user memory.
\<close>

section \<open>Bounded queues\<close>

locale bounded_fifo =
  fixes ok :: "'q \<Rightarrow> bool"
    and items :: "'q \<Rightarrow> 'a list"
    and capacity :: nat
    and put :: "'a \<Rightarrow> 'q \<Rightarrow> 'q"
    and get :: "'q \<Rightarrow> 'a \<times> 'q"
    and full :: "'q \<Rightarrow> bool"
    and empty :: "'q \<Rightarrow> bool"
  assumes bounded: "ok q \<Longrightarrow> length (items q) \<le> capacity"
    and full_iff: "ok q \<Longrightarrow> full q \<longleftrightarrow> length (items q) = capacity"
    and empty_iff: "ok q \<Longrightarrow> empty q \<longleftrightarrow> items q = []"
    and put_law: "ok q \<Longrightarrow> \<not> full q \<Longrightarrow> ok (put x q) \<and> items (put x q) = items q @ [x]"
    and get_law: "ok q \<Longrightarrow> \<not> empty q \<Longrightarrow> ok (snd (get q)) \<and> items q = fst (get q) # items (snd (get q))"
begin

lemma put_all:
  "ok q \<Longrightarrow> length (items q) + length xs \<le> capacity \<Longrightarrow> ok (fold put xs q) \<and> items (fold put xs q) = items q @ xs"
proof (induction xs arbitrary: q)
  case (Cons x xs)
  have "\<not> full q" using full_iff[OF Cons.prems(1)] Cons.prems(2) by simp
  then show ?case using put_law[OF Cons.prems(1), of x] Cons.IH[of "put x q"] Cons.prems(2) by simp
qed simp

lemma get_some:
  assumes "ok q" "items q = x # xs"
  shows "\<not> empty q" "fst (get q) = x" "ok (snd (get q))" "items (snd (get q)) = xs"
proof -
  show "\<not> empty q" using empty_iff[OF assms(1)] assms(2) by simp
  then show "fst (get q) = x" "ok (snd (get q))" "items (snd (get q)) = xs" using get_law[OF assms(1)] assms(2) by auto
qed

end

section \<open>The ring buffer is a bounded queue\<close>

definition pipe_ok :: "pipe \<Rightarrow> bool" where
  "pipe_ok p \<longleftrightarrow> length (pi_data p) = PIPESIZE \<and> unat (pi_nwrite p - pi_nread p) \<le> PIPESIZE"

definition pipe_items :: "pipe \<Rightarrow> u8 list" where
  "pipe_items p = map (\<lambda>k. pi_data p ! ((unat (pi_nread p) + k) mod PIPESIZE)) [0..<unat (pi_nwrite p - pi_nread p)]"

lemma ring_index: "unat (a + of_nat k :: u32) mod PIPESIZE = (unat a + k) mod PIPESIZE"
proof -
  have "unat (a + of_nat k) = (unat a + k) mod 2 ^ 32"
    by (simp add: unat_word_ariths unat_of_nat take_bit_eq_mod mod_add_right_eq)
  then show ?thesis by (simp add: PIPESIZE_def mod_mod_cancel)
qed

lemma ring_index_inj:
  assumes "j < k" "k \<le> j + 511"
  shows "(a + j) mod PIPESIZE \<noteq> (a + k) mod PIPESIZE"
proof
  assume "(a + j) mod PIPESIZE = (a + k) mod PIPESIZE"
  then have "PIPESIZE dvd (a + k) - (a + j)" using assms(1) by (metis mod_eq_dvd_iff_nat add_le_cancel_left less_imp_le)
  then have "PIPESIZE \<le> k - j" using assms(1) by (auto dest: dvd_imp_le)
  then show False using assms by (simp add: PIPESIZE_def)
qed

lemma unat_Suc_diff: "unat (a - b :: u32) < 512 \<Longrightarrow> unat (a + 1 - b) = Suc (unat (a - b))"
proof -
  assume *: "unat (a - b) < 512"
  have "a + 1 - b = (a - b) + 1" by simp
  then show ?thesis using * by (simp only: unat_plus_if') simp
qed

lemma unat_pred_diff: "a \<noteq> b \<Longrightarrow> unat (a - (b + 1) :: u32) = unat (a - b) - 1"
proof -
  assume "a \<noteq> b"
  then have "a - b \<noteq> 0" by simp
  moreover have "a - (b + 1) = (a - b) - 1" by simp
  ultimately show ?thesis by (metis unat_minus_one)
qed

interpretation ring: bounded_fifo pipe_ok pipe_items PIPESIZE pipe_put pipe_get pipe_full pipe_empty
proof (unfold_locales, goal_cases)
  case (1 q)
  then show ?case by (simp add: pipe_ok_def pipe_items_def)
next
  case (2 q)
  have "pi_nwrite q = pi_nread q + of_nat PIPESIZE \<longleftrightarrow> pi_nwrite q - pi_nread q = of_nat PIPESIZE" by (auto simp: algebra_simps)
  also have "\<dots> \<longleftrightarrow> unat (pi_nwrite q - pi_nread q) = PIPESIZE"
    by (simp add: word_unat_eq_iff PIPESIZE_def)
  finally show ?case by (simp add: pipe_full_def pipe_items_def)
next
  case (3 q)
  have "unat (pi_nwrite q - pi_nread q) = 0 \<longleftrightarrow> pi_nwrite q = pi_nread q" by (simp add: unat_eq_0)
  then show ?case by (auto simp: pipe_empty_def pipe_items_def)
next
  case (4 q x)
  let ?d = "unat (pi_nwrite q - pi_nread q)"
  have "pi_nwrite q - pi_nread q \<noteq> of_nat PIPESIZE" using 4(2) by (auto simp: pipe_full_def algebra_simps)
  then have "?d \<noteq> PIPESIZE" by (simp add: word_unat_eq_iff PIPESIZE_def)
  then have d: "?d < 512" "length (pi_data q) = 512" using 4(1) by (simp_all add: pipe_ok_def PIPESIZE_def)
  have "pi_nwrite q = pi_nread q + of_nat ?d" by simp
  then have slot: "unat (pi_nwrite q) mod PIPESIZE = (unat (pi_nread q) + ?d) mod PIPESIZE" using ring_index by metis
  have "pi_data (pipe_put x q) ! ((unat (pi_nread q) + k) mod PIPESIZE) = pi_data q ! ((unat (pi_nread q) + k) mod PIPESIZE)" if "k < ?d" for k
    using ring_index_inj[OF that, of "unat (pi_nread q)"] d slot by (simp add: pipe_put_def)
  moreover have "pi_data (pipe_put x q) ! ((unat (pi_nread q) + ?d) mod PIPESIZE) = x"
    using d slot by (simp add: pipe_put_def PIPESIZE_def)
  moreover have "unat (pi_nwrite q + 1 - pi_nread q) = Suc ?d" using unat_Suc_diff d(1) by blast
  ultimately show ?case using d by (simp add: pipe_ok_def pipe_items_def pipe_put_def PIPESIZE_def)
next
  case (5 q)
  let ?d = "unat (pi_nwrite q - pi_nread q)"
  have ne: "pi_nwrite q \<noteq> pi_nread q" using 5(2) by (simp add: pipe_empty_def)
  then have "?d \<noteq> 0" by (simp add: unat_eq_0)
  then have d: "?d = Suc (unat (pi_nwrite q - (pi_nread q + 1)))" using unat_pred_diff[OF ne] by simp
  have "unat (pi_nread q + 1) mod PIPESIZE = Suc (unat (pi_nread q)) mod PIPESIZE" using ring_index[of "pi_nread q" 1] by simp
  then have "(unat (pi_nread q + 1) + k) mod PIPESIZE = (unat (pi_nread q) + Suc k) mod PIPESIZE" for k
    using mod_add_left_eq[of "unat (pi_nread q + 1)" PIPESIZE k] mod_add_left_eq[of "Suc (unat (pi_nread q))" PIPESIZE k] by simp
  then show ?case using d 5(1)
    by (simp add: pipe_items_def pipe_get_def pipe_ok_def upt_conv_Cons map_Suc_upt[symmetric] del: upt_Suc)
qed

section \<open>The writing and reading loops\<close>

lemma pt_map_cong:
  assumes "pt_map s pt L T F" "kmem_ready s'" "freelist s' = freelist s" "pool_buf s' = pool_buf s" "pool_n s' = pool_n s" "ld_end s' = ld_end s"
    "\<And>a q. q \<in> T \<union> F \<Longrightarrow> in_region q 4096 a \<Longrightarrow> mem s' a = mem s a"
  shows "pt_map s' pt L T F"
proof -
  have "pt_map (s\<lparr>mem := mem s'\<rparr>) pt L T F" using assms(7) by (intro pt_map_user_write[OF assms(1)]) auto
  then have "kmem_pages (s\<lparr>mem := mem s'\<rparr>) F" by (rule pt_map_pages(1))
  then have "kmem_pages s' F" using assms(2-6) by (simp add: kmem_pages_def kmem_rep_def valid_page_def)
  then show ?thesis using pt_map_frame(1)[OF assms(1) _ pt_map_pages(3)[OF assms(1)] assms(6)] assms(7) by blast
qed

lemma held_kmem_ready: "kheld H s \<Longrightarrow> L_kmem \<notin> H \<Longrightarrow> L_page_cache \<notin> H \<Longrightarrow> kmem_ready s"
  by (simp add: kmem_ready_def held_wf_sync heldD(9))

lemma killed_held:
  assumes "kheld H s" "L_proc p \<notin> H" "card H < 99"
  shows "\<exists>y. killed p s = Ok (p_killed (the_proc p s), s\<lparr>sy := y\<rparr>) \<and> same_cpu H (sy s) y"
proof -
  obtain y where y: "kacquire (L_proc p) s = Ok (s\<lparr>sy := y\<rparr>)" "same_cpu (insert (L_proc p) H) (sy s) y"
    using kacquire_same[OF assms] by blast
  have "insert (L_proc p) H - {L_proc p} = H" using assms(2) by simp
  then obtain z where "krelease (L_proc p) (s\<lparr>sy := y\<rparr>) = Ok (s\<lparr>sy := z\<rparr>)" "same_cpu H y z"
    using krelease_same[of "insert (L_proc p) H" "s\<lparr>sy := y\<rparr>" "L_proc p"] same_cpuD(1)[OF y(2)] by auto
  then show ?thesis using y same_cpu_trans[OF y(2)] by (auto simp: killed_def)
qed

text \<open>
  Process \<open>p\<close> runs with the locks \<open>H\<close> held, its page table has the entries \<open>L\<close>, and the
  kernel variable \<open>ch\<close> is neither in a page table nor in a free page.
\<close>

definition in_pipe :: "lockaddr set \<Rightarrow> nat \<Rightarrow> (u64 \<Rightarrow> u64) \<Rightarrow> u64 set \<Rightarrow> u64 set \<Rightarrow> 'z pipe_state_scheme \<Rightarrow> bool" where
  "in_pipe H p L T F s \<longleftrightarrow> kheld H s \<and> curproc s = Some p \<and> p < NPROC \<and> length (ptable s) = NPROC
     \<and> p_killed (the_proc p s) = 0 \<and> pt_map s (p_pagetable (the_proc p s)) L T F
     \<and> (\<forall>q \<in> T \<union> F. \<not> in_region q 4096 (k_ch s)) \<and> unat (k_ch s) < 2 ^ 64 - 1"

lemma in_pipeD:
  assumes "in_pipe H p L T F s"
  shows "kheld H s" "curproc s = Some p" "p < NPROC" "length (ptable s) = NPROC" "p_killed (the_proc p s) = 0"
    "pt_map s (p_pagetable (the_proc p s)) L T F" "\<And>q. q \<in> T \<union> F \<Longrightarrow> \<not> in_region q 4096 (k_ch s)" "unat (k_ch s) < 2 ^ 64 - 1"
  using assms unfolding in_pipe_def by blast+

lemma user_range_byte:
  assumes "user_range L R va n" "i < n"
  shows "user_range L R (va + of_nat i) 1"
proof -
  have le: "unat va + n \<le> 2 ^ 38" using assms(1) by (simp add: user_range_def unat_MAXVA)
  have "unat (va + of_nat i) = unat va + i" using unat_add_small[of va i] le assms(2) by simp
  then show ?thesis using assms le by (auto simp: user_range_def unat_MAXVA)
qed

lemma in_pipe_mem:
  assumes "in_pipe H p L T F s" "same_cpu H' (sy s) y" "L_kmem \<notin> H'" "L_page_cache \<notin> H'"
    "\<And>a q. q \<in> T \<union> F \<Longrightarrow> in_region q 4096 a \<Longrightarrow> m a = mem s a"
  shows "in_pipe H' p L T F (s\<lparr>sy := y, mem := m, pipes := ps\<rparr>)"
proof -
  note i = in_pipeD[OF assms(1)] and c = same_cpuD[OF assms(2)]
  have "kmem_ready (s\<lparr>sy := y, mem := m, pipes := ps\<rparr>)" using c assms(3,4) by (intro held_kmem_ready[of H']) auto
  then have "pt_map (s\<lparr>sy := y, mem := m, pipes := ps\<rparr>) (p_pagetable (the_proc p s)) L T F"
    using assms(5) by (intro pt_map_cong[OF i(6)]) auto
  then show ?thesis using i c by (auto simp: in_pipe_def)
qed

lemma pipe_order:
  "sy_update f (pipes_update g s) = pipes_update g (sy_update f s)" "mem_update h (pipes_update g s) = pipes_update g (mem_update h s)"
  "ptable_update r (pipes_update g s) = pipes_update g (ptable_update r s)" "sy_update f (mem_update h s) = mem_update h (sy_update f s)"
  "ptable_update r (mem_update h s) = mem_update h (ptable_update r s)"
  by simp_all

lemma pipe_end:
  assumes "kheld {L_pipe pi} s" "length (ptable s) = NPROC"
  shows "\<exists>y. bind_res (wakeup (Some ch) s) (\<lambda>s. bind_res (krelease (L_pipe pi) s) (\<lambda>s. Ok (v, s)))
      = Ok (v, s\<lparr>sy := y, ptable := woken (Some ch) (curproc s) (ptable s)\<rparr>) \<and> same_cpu {} (sy s) y"
proof -
  let ?pt = "woken (Some ch) (curproc s) (ptable s)"
  have np: "\<And>i. L_proc i \<notin> {L_pipe pi}" by simp
  obtain y1 where y1: "wakeup (Some ch) s = Ok (s\<lparr>sy := y1, ptable := ?pt\<rparr>)" "same_cpu {L_pipe pi} (sy s) y1"
    using wakeup_held[OF assms(1) np assms(2), of "Some ch"] by (auto simp: same_cpu_def)
  obtain y2 where "krelease (L_pipe pi) (s\<lparr>sy := y1, ptable := ?pt\<rparr>) = Ok (s\<lparr>sy := y2, ptable := ?pt\<rparr>)" "same_cpu {} y1 y2"
    using krelease_same[of "{L_pipe pi}" "s\<lparr>sy := y1, ptable := ?pt\<rparr>" "L_pipe pi"] same_cpuD(1)[OF y1(2)] by (auto simp: sy_first)
  then show ?thesis using y1 same_cpu_trans[OF y1(2)] by auto
qed

text \<open>One byte into the pipe.\<close>

lemma pipewrite_step:
  assumes "in_pipe {L_pipe pi} p L T F s" "user_range L (T \<union> F) (addr + of_nat i) 1" "k_ch s \<noteq> user_pa L (addr + of_nat i)"
    "pi_readopen (pipes s pi) \<noteq> 0" "\<not> pipe_full (pipes s pi)"
  shows "\<exists>y m. pipewrite_loop (Some p) pi addr (Suc k) i s
      = pipewrite_loop (Some p) pi addr k (Suc i) (s\<lparr>sy := y, mem := m, pipes := (pipes s)(pi := pipe_put (mem s (user_pa L (addr + of_nat i))) (pipes s pi))\<rparr>)
    \<and> same_cpu {L_pipe pi} (sy s) y \<and> (\<forall>a. a \<noteq> k_ch s \<longrightarrow> m a = mem s a)"
proof -
  note c = in_pipeD[OF assms(1)]
  obtain y where y: "killed p s = Ok (0, s\<lparr>sy := y\<rparr>)" "same_cpu {L_pipe pi} (sy s) y"
    using killed_held[OF c(1), of p] c(5) by auto
  have "s\<lparr>sy := y, mem := mem s, pipes := pipes s\<rparr> = s\<lparr>sy := y\<rparr>" by simp
  then have "in_pipe {L_pipe pi} p L T F (s\<lparr>sy := y\<rparr>)" using in_pipe_mem[OF assms(1) y(2), of "mem s" "pipes s"] by simp
  note c' = in_pipeD[OF this]
  obtain m where m: "copyin (p_pagetable (the_proc p s)) (k_ch s) (addr + of_nat i) 1 (s\<lparr>sy := y\<rparr>) = Ok (0, s\<lparr>sy := y, mem := m\<rparr>)"
      "m (k_ch s) = mem s (user_pa L (addr + of_nat i))" "\<And>a. a \<noteq> k_ch s \<Longrightarrow> m a = mem s a"
    using copyin_spec[OF c'(6), of "addr + of_nat i" 1 "k_ch s"] assms(2,3) c'(7,8) by auto
  show ?thesis
    using y m assms(4,5) by (intro exI[of _ y] exI[of _ m]) (simp add: upd_pipe_def deref_def)
qed

lemma pipewrite_loop_spec:
  assumes "in_pipe {L_pipe pi} p L T F s" "user_range L (T \<union> F) addr (i + k)" "\<And>j. j < i + k \<Longrightarrow> k_ch s \<noteq> user_pa L (addr + of_nat j)"
    "pi_readopen (pipes s pi) \<noteq> 0" "pipe_ok (pipes s pi)" "length (pipe_items (pipes s pi)) + k \<le> PIPESIZE"
  shows "\<exists>y m. pipewrite_loop (Some p) pi addr k i s = Ok (Pipe_returns (of_nat (i + k)),
      s\<lparr>sy := y, mem := m, ptable := woken (Some (C_nread pi)) (Some p) (ptable s),
        pipes := (pipes s)(pi := fold pipe_put (map (\<lambda>j. mem s (user_pa L (addr + of_nat j))) [i..<i + k]) (pipes s pi))\<rparr>)
    \<and> same_cpu {} (sy s) y \<and> (\<forall>a. a \<noteq> k_ch s \<longrightarrow> m a = mem s a)"
  using assms
proof (induction k arbitrary: i s)
  case 0
  note c = in_pipeD[OF 0(1)]
  obtain y where "pipewrite_end pi i s = Ok (Pipe_returns (of_nat i), s\<lparr>sy := y, ptable := woken (Some (C_nread pi)) (Some p) (ptable s)\<rparr>)"
      "same_cpu {} (sy s) y"
    using pipe_end[OF c(1,4), of "C_nread pi" "Pipe_returns (of_nat i)"] c(2) unfolding pipewrite_end_def by auto
  then show ?case by (intro exI[of _ y] exI[of _ "mem s"]) simp
next
  case (Suc k)
  note c = in_pipeD[OF Suc.prems(1)]
  let ?ch = "mem s (user_pa L (addr + of_nat i))"
  have nf: "\<not> pipe_full (pipes s pi)" using ring.full_iff[OF Suc.prems(5)] Suc.prems(6) by simp
  obtain y m where y: "pipewrite_loop (Some p) pi addr (Suc k) i s
      = pipewrite_loop (Some p) pi addr k (Suc i) (s\<lparr>sy := y, mem := m, pipes := (pipes s)(pi := pipe_put ?ch (pipes s pi))\<rparr>)"
      "same_cpu {L_pipe pi} (sy s) y" "\<And>a. a \<noteq> k_ch s \<Longrightarrow> m a = mem s a"
    using pipewrite_step[OF Suc.prems(1) user_range_byte[OF Suc.prems(2), of i] _ Suc.prems(4) nf, of k] Suc.prems(3)[of i] by auto
  let ?s = "s\<lparr>sy := y, mem := m, pipes := (pipes s)(pi := pipe_put ?ch (pipes s pi))\<rparr>"
  have ip: "in_pipe {L_pipe pi} p L T F ?s"
    using y(3) c(7) by (intro in_pipe_mem[OF Suc.prems(1) y(2)]; simp) metis
  have same: "m (user_pa L (addr + of_nat j)) = mem s (user_pa L (addr + of_nat j))" if "j < i + Suc k" for j
    using y(3) Suc.prems(3)[OF that] by metis
  have pk: "pipe_ok (pipe_put ?ch (pipes s pi))" "pipe_items (pipe_put ?ch (pipes s pi)) = pipe_items (pipes s pi) @ [?ch]"
      "pi_readopen (pipe_put ?ch (pipes s pi)) = pi_readopen (pipes s pi)"
    using ring.put_law[OF Suc.prems(5) nf, of ?ch] by (auto simp: pipe_put_def)
  have r: "user_range L (T \<union> F) addr (Suc i + k)" "j < Suc i + k \<Longrightarrow> k_ch ?s \<noteq> user_pa L (addr + of_nat j)"
      "pi_readopen (pipes ?s pi) \<noteq> 0" "pipe_ok (pipes ?s pi)" "length (pipe_items (pipes ?s pi)) + k \<le> PIPESIZE" for j
    using Suc.prems(2-6) pk by simp_all
  obtain y' m' where y': "pipewrite_loop (Some p) pi addr k (Suc i) ?s = Ok (Pipe_returns (of_nat (Suc i + k)),
      ?s\<lparr>sy := y', mem := m', ptable := woken (Some (C_nread pi)) (Some p) (ptable ?s),
        pipes := (pipes ?s)(pi := fold pipe_put (map (\<lambda>j. mem ?s (user_pa L (addr + of_nat j))) [Suc i..<Suc i + k]) (pipes ?s pi))\<rparr>)"
      "same_cpu {} (sy ?s) y'" "\<forall>a. a \<noteq> k_ch ?s \<longrightarrow> m' a = mem ?s a"
    using Suc.IH[OF ip, of "Suc i"] r by blast
  have "[i..<i + Suc k] = i # [Suc i..<Suc i + k]" by (simp add: upt_conv_Cons del: upt_Suc)
  then have "map (\<lambda>j. mem s (user_pa L (addr + of_nat j))) [i..<i + Suc k]
      = ?ch # map (\<lambda>j. mem ?s (user_pa L (addr + of_nat j))) [Suc i..<Suc i + k]"
    using same by (simp del: upt_Suc)
  then have items: "fold pipe_put (map (\<lambda>j. mem s (user_pa L (addr + of_nat j))) [i..<i + Suc k]) (pipes s pi)
      = fold pipe_put (map (\<lambda>j. mem ?s (user_pa L (addr + of_nat j))) [Suc i..<Suc i + k]) (pipes ?s pi)" by simp
  have st: "?s\<lparr>sy := y', mem := m', ptable := t, pipes := (pipes ?s)(pi := q)\<rparr>
      = s\<lparr>sy := y', mem := m', ptable := t, pipes := (pipes s)(pi := q)\<rparr>" for t q
    by simp
  have pt: "ptable ?s = ptable s" "Suc i + k = i + Suc k" by simp_all
  have "same_cpu {} (sy s) y'" using y'(2) same_cpu_trans[OF y(2)] by simp
  moreover have "\<forall>a. a \<noteq> k_ch s \<longrightarrow> m' a = mem s a" using y(3) y'(3) by simp
  ultimately show ?case
    by (intro exI[of _ y'] exI[of _ m'] conjI) (simp only: items y(1) y'(1) st pt)
qed

text \<open>One byte out of the pipe.\<close>

lemma piperead_step:
  assumes "in_pipe {L_pipe pi} p L T F s" "user_range L (T \<union> F) (addr + of_nat i) 1" "k_ch s \<noteq> user_pa L (addr + of_nat i)"
    "\<not> pipe_empty (pipes s pi)"
  shows "\<exists>m. piperead_copy (Some p) pi addr (Suc k) i s
      = piperead_copy (Some p) pi addr k (Suc i) (s\<lparr>mem := m, pipes := (pipes s)(pi := snd (pipe_get (pipes s pi)))\<rparr>)
    \<and> m (user_pa L (addr + of_nat i)) = fst (pipe_get (pipes s pi))
    \<and> (\<forall>a. a \<noteq> k_ch s \<and> a \<noteq> user_pa L (addr + of_nat i) \<longrightarrow> m a = mem s a)"
proof -
  note c = in_pipeD[OF assms(1)]
  let ?q = "snd (pipe_get (pipes s pi))" and ?m = "(mem s)(k_ch s := fst (pipe_get (pipes s pi)))"
  let ?s = "s\<lparr>pipes := (pipes s)(pi := ?q), mem := ?m\<rparr>"
  have s1: "?s = s\<lparr>sy := sy s, mem := ?m, pipes := (pipes s)(pi := ?q)\<rparr>" by simp
  have "in_pipe {L_pipe pi} p L T F ?s" unfolding s1
    using c(7) by (intro in_pipe_mem[OF assms(1)]) (auto simp: same_cpu_def c(1))
  note c' = in_pipeD[OF this]
  obtain m where m: "copyout (p_pagetable (the_proc p s)) (addr + of_nat i) (k_ch s) 1 ?s = Ok (0, ?s\<lparr>mem := m\<rparr>)"
      "m (user_pa L (addr + of_nat i)) = ?m (k_ch s)" "\<And>a. a \<noteq> user_pa L (addr + of_nat i) \<Longrightarrow> m a = ?m a"
    using copyout_spec[OF c'(6), of "addr + of_nat i" 1 "k_ch s"] assms(2,3) c(8) by auto
  have e: "?s\<lparr>mem := m\<rparr> = s\<lparr>mem := m, pipes := (pipes s)(pi := ?q)\<rparr>" by simp
  have "piperead_copy (Some p) pi addr (Suc k) i s = piperead_copy (Some p) pi addr k (Suc i) (s\<lparr>mem := m, pipes := (pipes s)(pi := ?q)\<rparr>)"
    using m(1) assms(4) unfolding e by (simp add: upd_pipe_def deref_def split_beta)
  then show ?thesis using m(2,3) by (intro exI[of _ m]) auto
qed

definition taken :: "(u64 \<Rightarrow> u64) \<Rightarrow> u64 \<Rightarrow> nat \<Rightarrow> nat \<Rightarrow> u64 set" where
  "taken L addr i c = (\<lambda>j. user_pa L (addr + of_nat (i + j))) ` {..<c}"

lemma taken_Suc: "taken L addr i (Suc c) = insert (user_pa L (addr + of_nat i)) (taken L addr (Suc i) c)"
  by (simp add: taken_def lessThan_Suc_eq_insert_0 image_image del: of_nat_add)

lemma piperead_done:
  assumes "in_pipe {L_pipe pi} p L T F s" "pipe_ok (pipes s pi)" "k = 0 \<or> pipe_items (pipes s pi) = []"
  shows "\<exists>y. piperead_copy (Some p) pi addr k i s
      = Ok (Pipe_returns (of_nat i), s\<lparr>sy := y, ptable := woken (Some (C_nwrite pi)) (Some p) (ptable s)\<rparr>) \<and> same_cpu {} (sy s) y"
proof -
  note c = in_pipeD[OF assms(1)]
  have "piperead_copy (Some p) pi addr k i s = piperead_end pi i s"
    using assms(3) ring.empty_iff[OF assms(2)] by (cases k) auto
  then show ?thesis
    using pipe_end[OF c(1,4), of "C_nwrite pi" "Pipe_returns (of_nat i)"] c(2) unfolding piperead_end_def by simp
qed

lemma user_range_frame:
  assumes "user_range L R addr n" "i < n" "q \<in> R"
  shows "\<not> in_region q 4096 (user_pa L (addr + of_nat i))"
  using assms unfolding user_range_def by blast

lemma taken_apart:
  assumes "user_range L R addr (i + Suc k)" "c \<le> k"
  shows "user_pa L (addr + of_nat i) \<notin> taken L addr (Suc i) c"
proof
  assume "user_pa L (addr + of_nat i) \<in> taken L addr (Suc i) c"
  then obtain j where "j < c" "user_pa L (addr + of_nat i) = user_pa L (addr + of_nat (Suc i + j))" by (auto simp: taken_def)
  moreover have "\<forall>a < i + Suc k. \<forall>b < i + Suc k. user_pa L (addr + of_nat a) = user_pa L (addr + of_nat b) \<longrightarrow> a = b"
    using assms(1) unfolding user_range_def by blast
  ultimately have "i = Suc i + j" using assms(2) by auto
  then show False by simp
qed

lemma piperead_copy_spec:
  assumes "in_pipe {L_pipe pi} p L T F s" "user_range L (T \<union> F) addr (i + k)" "\<And>j. j < i + k \<Longrightarrow> k_ch s \<noteq> user_pa L (addr + of_nat j)"
    "pipe_ok (pipes s pi)" "c = min k (length (pipe_items (pipes s pi)))"
  shows "\<exists>y m q. piperead_copy (Some p) pi addr k i s = Ok (Pipe_returns (of_nat (i + c)),
      s\<lparr>sy := y, mem := m, ptable := woken (Some (C_nwrite pi)) (Some p) (ptable s), pipes := (pipes s)(pi := q)\<rparr>)
    \<and> same_cpu {} (sy s) y \<and> pipe_ok q \<and> pipe_items q = drop c (pipe_items (pipes s pi))
    \<and> (\<forall>j < c. m (user_pa L (addr + of_nat (i + j))) = pipe_items (pipes s pi) ! j)
    \<and> (\<forall>a. a \<noteq> k_ch s \<and> a \<notin> taken L addr i c \<longrightarrow> m a = mem s a)"
  using assms
proof (induction k arbitrary: i s c)
  case 0
  obtain y where "piperead_copy (Some p) pi addr 0 i s
      = Ok (Pipe_returns (of_nat i), s\<lparr>sy := y, ptable := woken (Some (C_nwrite pi)) (Some p) (ptable s)\<rparr>)" "same_cpu {} (sy s) y"
    using piperead_done[OF 0(1,4), of 0 addr i] by blast
  then show ?case using 0(4,5) by (intro exI[of _ y] exI[of _ "mem s"] exI[of _ "pipes s pi"]) simp
next
  case (Suc k)
  show ?case
  proof (cases "pipe_items (pipes s pi)")
    case Nil
    obtain y where "piperead_copy (Some p) pi addr (Suc k) i s
        = Ok (Pipe_returns (of_nat i), s\<lparr>sy := y, ptable := woken (Some (C_nwrite pi)) (Some p) (ptable s)\<rparr>)" "same_cpu {} (sy s) y"
      using piperead_done[OF Suc.prems(1,4), where k = "Suc k" and addr = addr and i = i] Nil by blast
    then show ?thesis using Suc.prems(4,5) Nil
      by (intro exI[of _ y] exI[of _ "mem s"] exI[of _ "pipes s pi"]) (simp del: piperead_copy.simps)
  next
    case (Cons x xs)
    note g = ring.get_some[OF Suc.prems(4) Cons]
    let ?q = "snd (pipe_get (pipes s pi))" and ?pa = "user_pa L (addr + of_nat i)"
    obtain m1 where m1: "piperead_copy (Some p) pi addr (Suc k) i s
        = piperead_copy (Some p) pi addr k (Suc i) (s\<lparr>mem := m1, pipes := (pipes s)(pi := ?q)\<rparr>)"
        "m1 ?pa = x" "\<And>a. a \<noteq> k_ch s \<Longrightarrow> a \<noteq> ?pa \<Longrightarrow> m1 a = mem s a"
      using piperead_step[OF Suc.prems(1) user_range_byte[OF Suc.prems(2), of i] _ g(1), of k] Suc.prems(3)[of i] g(2) by auto
    let ?s = "s\<lparr>mem := m1, pipes := (pipes s)(pi := ?q)\<rparr>" and ?c = "min k (length xs)"
    have "m1 a = mem s a" if "q \<in> T \<union> F" "in_region q 4096 a" for a q
      using m1(3)[of a] in_pipeD(7)[OF Suc.prems(1) that(1)] user_range_frame[OF Suc.prems(2) _ that(1), of i] that(2) by auto
    then have "in_pipe {L_pipe pi} p L T F (s\<lparr>sy := sy s, mem := m1, pipes := (pipes s)(pi := ?q)\<rparr>)"
      by (intro in_pipe_mem[OF Suc.prems(1)]) (auto simp: same_cpu_def in_pipeD(1)[OF Suc.prems(1)])
    then have ip: "in_pipe {L_pipe pi} p L T F ?s" by simp
    have pre: "user_range L (T \<union> F) addr (Suc i + k)" "j < Suc i + k \<Longrightarrow> k_ch ?s \<noteq> user_pa L (addr + of_nat j)"
        "pipe_ok (pipes ?s pi)" "?c = min k (length (pipe_items (pipes ?s pi)))" for j
      using Suc.prems(2,3) g(3,4) by simp_all
    obtain y m q where r: "piperead_copy (Some p) pi addr k (Suc i) ?s = Ok (Pipe_returns (of_nat (Suc i + ?c)),
        ?s\<lparr>sy := y, mem := m, ptable := woken (Some (C_nwrite pi)) (Some p) (ptable ?s), pipes := (pipes ?s)(pi := q)\<rparr>)"
        "same_cpu {} (sy ?s) y" "pipe_ok q" "pipe_items q = drop ?c (pipe_items (pipes ?s pi))"
        "\<forall>j < ?c. m (user_pa L (addr + of_nat (Suc i + j))) = pipe_items (pipes ?s pi) ! j"
        "\<forall>a. a \<noteq> k_ch ?s \<and> a \<notin> taken L addr (Suc i) ?c \<longrightarrow> m a = mem ?s a"
      using Suc.IH[OF ip pre] by blast
    have c: "c = Suc ?c" using Suc.prems(5) Cons by simp
    have "?s\<lparr>sy := y, mem := m, ptable := t, pipes := (pipes ?s)(pi := q)\<rparr>
        = s\<lparr>sy := y, mem := m, ptable := t, pipes := (pipes s)(pi := q)\<rparr>" for t by simp
    then have e: "piperead_copy (Some p) pi addr (Suc k) i s = Ok (Pipe_returns (of_nat (i + c)),
        s\<lparr>sy := y, mem := m, ptable := woken (Some (C_nwrite pi)) (Some p) (ptable s), pipes := (pipes s)(pi := q)\<rparr>)"
      using r(1) unfolding m1(1) c by simp
    have "m ?pa = x"
      using r(6) m1(2) taken_apart[OF Suc.prems(2), of ?c] Suc.prems(3)[of i] by auto
    then have got: "m (user_pa L (addr + of_nat (i + j))) = pipe_items (pipes s pi) ! j" if "j < c" for j
      using r(5) that g(4) unfolding c Cons by (cases j) auto
    have kept: "m a = mem s a" if "a \<noteq> k_ch s" "a \<notin> taken L addr i c" for a
      using r(6) m1(3) that unfolding c taken_Suc by auto
    have "same_cpu {} (sy s) y" "pipe_items q = drop c (pipe_items (pipes s pi))" using r(2,4) g(4) c Cons by simp_all
    with e r(3) got kept show ?thesis by blast
  qed
qed

section \<open>Whole calls\<close>

lemma pipe_enter:
  assumes "in_pipe {} p L T F s"
  shows "\<exists>y. bind_res (myproc s) (\<lambda>(pr, s). bind_res (kacquire (L_pipe pi) s) (f pr)) = f (Some p) (s\<lparr>sy := y\<rparr>)
    \<and> same_cpu {L_pipe pi} (sy s) y \<and> in_pipe {L_pipe pi} p L T F (s\<lparr>sy := y\<rparr>)"
proof -
  note c = in_pipeD[OF assms]
  obtain y1 where y1: "myproc s = Ok (Some p, s\<lparr>sy := y1\<rparr>)" "same_cpu {} (sy s) y1"
    using myproc_held[OF c(1)] c(2) by (auto simp: same_cpu_def)
  obtain y2 where y2: "kacquire (L_pipe pi) (s\<lparr>sy := y1\<rparr>) = Ok (s\<lparr>sy := y2\<rparr>)" "same_cpu {L_pipe pi} y1 y2"
    using kacquire_same[of "{}" "s\<lparr>sy := y1\<rparr>" "L_pipe pi"] same_cpuD(1)[OF y1(2)] by auto
  have sc: "same_cpu {L_pipe pi} (sy s) y2" using same_cpu_trans[OF y1(2) y2(2)] .
  have "in_pipe {L_pipe pi} p L T F (s\<lparr>sy := y2, mem := mem s, pipes := pipes s\<rparr>)" by (rule in_pipe_mem[OF assms sc]) simp_all
  then show ?thesis using y1(1) y2(1) sc by (intro exI[of _ y2]) simp
qed

lemma in_pipe_leave:
  assumes "in_pipe H p L T F s" "same_cpu {} (sy s) y" "\<And>a q. q \<in> T \<union> F \<Longrightarrow> in_region q 4096 a \<Longrightarrow> m a = mem s a"
  shows "in_pipe {} p L T F (s\<lparr>sy := y, mem := m, ptable := woken ch (Some p) (ptable s), pipes := ps\<rparr>)"
proof -
  have "in_pipe {} p L T F (s\<lparr>sy := y, mem := m, pipes := ps\<rparr>)"
    using assms(3) by (intro in_pipe_mem[OF assms(1,2)]) simp_all
  note c = in_pipeD[OF this]
  let ?s = "s\<lparr>sy := y, mem := m, ptable := woken ch (Some p) (ptable s), pipes := ps\<rparr>"
  have same: "p_killed (the_proc p ?s) = p_killed (the_proc p s)" "p_pagetable (the_proc p ?s) = p_pagetable (the_proc p s)"
    using in_pipeD(3,4)[OF assms(1)] by (simp_all add: nth_woken wake_def)
  have "kmem_ready ?s" using c(1) by (intro held_kmem_ready[of "{}"]) simp_all
  then have "pt_map ?s (p_pagetable (the_proc p s)) L T F"
    using assms(3) by (intro pt_map_cong[OF in_pipeD(6)[OF assms(1)]]) simp_all
  then show ?thesis using c same by (simp add: in_pipe_def)
qed

lemma of_nat_sint: "0 \<le> sint (n :: i32) \<Longrightarrow> of_nat (nat (sint n)) = n"
  by (simp add: of_nat_nat)

lemma pipewrite_spec:
  assumes "in_pipe {} p L T F s" "0 \<le> sint n" "user_range L (T \<union> F) addr (nat (sint n))"
    "\<And>j. j < nat (sint n) \<Longrightarrow> k_ch s \<noteq> user_pa L (addr + of_nat j)"
    "pi_readopen (pipes s pi) \<noteq> 0" "pipe_ok (pipes s pi)" "length (pipe_items (pipes s pi)) + nat (sint n) \<le> PIPESIZE"
  shows "\<exists>s'. pipewrite pi addr n s = Ok (n, s') \<and> in_pipe {} p L T F s' \<and> k_ch s' = k_ch s \<and> pipe_ok (pipes s' pi)
    \<and> pipe_items (pipes s' pi) = pipe_items (pipes s pi) @ map (\<lambda>j. mem s (user_pa L (addr + of_nat j))) [0..<nat (sint n)]"
proof -
  let ?b = "map (\<lambda>j. mem s (user_pa L (addr + of_nat j))) [0..<nat (sint n)]"
  obtain y where y: "pipewrite_start pi addr n s = pipewrite_loop (Some p) pi addr (nat (sint n)) 0 (s\<lparr>sy := y\<rparr>)"
      "in_pipe {L_pipe pi} p L T F (s\<lparr>sy := y\<rparr>)"
    using pipe_enter[OF assms(1), of pi "\<lambda>pr. pipewrite_loop pr pi addr (nat (sint n)) 0"] unfolding pipewrite_start_def by blast
  have pre: "user_range L (T \<union> F) addr (0 + nat (sint n))" "j < 0 + nat (sint n) \<Longrightarrow> k_ch (s\<lparr>sy := y\<rparr>) \<noteq> user_pa L (addr + of_nat j)"
      "pi_readopen (pipes (s\<lparr>sy := y\<rparr>) pi) \<noteq> 0" "pipe_ok (pipes (s\<lparr>sy := y\<rparr>) pi)"
      "length (pipe_items (pipes (s\<lparr>sy := y\<rparr>) pi)) + nat (sint n) \<le> PIPESIZE" for j
    using assms(3-7) by simp_all
  obtain z m where z: "pipewrite_loop (Some p) pi addr (nat (sint n)) 0 (s\<lparr>sy := y\<rparr>) = Ok (Pipe_returns (of_nat (0 + nat (sint n))),
      s\<lparr>sy := z, mem := m, ptable := woken (Some (C_nread pi)) (Some p) (ptable s), pipes := (pipes s)(pi := fold pipe_put ?b (pipes s pi))\<rparr>)"
      "same_cpu {} y z" "\<forall>a. a \<noteq> k_ch s \<longrightarrow> m a = mem s a"
    using pipewrite_loop_spec[OF y(2) pre] by auto
  let ?s = "s\<lparr>sy := z, mem := m, ptable := woken (Some (C_nread pi)) (Some p) (ptable s), pipes := (pipes s)(pi := fold pipe_put ?b (pipes s pi))\<rparr>"
  have "m a = mem s a" if "q \<in> T \<union> F" "in_region q 4096 a" for a q
    using z(3) in_pipeD(7)[OF assms(1) that(1)] that(2) by (cases "a = k_ch s") auto
  then have "in_pipe {} p L T F ?s"
    using in_pipe_leave[OF y(2), where y = z and m = m and ch = "Some (C_nread pi)" and ps = "(pipes s)(pi := fold pipe_put ?b (pipes s pi))"] z(2)
    by simp
  moreover have "pipewrite pi addr n s = Ok (n, ?s)"
    using y(1) z(1) of_nat_sint[OF assms(2)] by (simp add: pipewrite_def pipe_now_def)
  ultimately show ?thesis using ring.put_all[OF assms(6), of ?b] assms(7) by (intro exI[of _ ?s]) simp
qed

lemma piperead_spec:
  assumes "in_pipe {} p L T F s" "0 \<le> sint n" "user_range L (T \<union> F) addr (nat (sint n))"
    "\<And>j. j < nat (sint n) \<Longrightarrow> k_ch s \<noteq> user_pa L (addr + of_nat j)"
    "pipe_items (pipes s pi) \<noteq> [] \<or> pi_writeopen (pipes s pi) = 0" "pipe_ok (pipes s pi)"
    "c = min (nat (sint n)) (length (pipe_items (pipes s pi)))"
  shows "\<exists>s'. piperead pi addr n s = Ok (of_nat c, s') \<and> in_pipe {} p L T F s' \<and> k_ch s' = k_ch s \<and> pipe_ok (pipes s' pi)
    \<and> pipe_items (pipes s' pi) = drop c (pipe_items (pipes s pi))
    \<and> (\<forall>j < c. mem s' (user_pa L (addr + of_nat j)) = pipe_items (pipes s pi) ! j)
    \<and> (\<forall>a. a \<noteq> k_ch s \<and> a \<notin> taken L addr 0 c \<longrightarrow> mem s' a = mem s a)"
proof -
  obtain y where y: "piperead_start pi addr n s = piperead_loop (Some p) pi addr (nat (sint n)) (s\<lparr>sy := y\<rparr>)"
      "in_pipe {L_pipe pi} p L T F (s\<lparr>sy := y\<rparr>)"
    using pipe_enter[OF assms(1), of pi "\<lambda>pr. piperead_loop pr pi addr (nat (sint n))"] unfolding piperead_start_def by blast
  have l: "piperead_loop (Some p) pi addr (nat (sint n)) (s\<lparr>sy := y\<rparr>) = piperead_copy (Some p) pi addr (nat (sint n)) 0 (s\<lparr>sy := y\<rparr>)"
    using assms(5) ring.empty_iff[OF assms(6)] by (auto simp: piperead_loop_def)
  have pre: "user_range L (T \<union> F) addr (0 + nat (sint n))" "j < 0 + nat (sint n) \<Longrightarrow> k_ch (s\<lparr>sy := y\<rparr>) \<noteq> user_pa L (addr + of_nat j)"
      "pipe_ok (pipes (s\<lparr>sy := y\<rparr>) pi)" "c = min (nat (sint n)) (length (pipe_items (pipes (s\<lparr>sy := y\<rparr>) pi)))" for j
    using assms(3,4,6,7) by simp_all
  obtain z m q where z: "piperead_copy (Some p) pi addr (nat (sint n)) 0 (s\<lparr>sy := y\<rparr>) = Ok (Pipe_returns (of_nat c),
      s\<lparr>sy := z, mem := m, ptable := woken (Some (C_nwrite pi)) (Some p) (ptable s), pipes := (pipes s)(pi := q)\<rparr>)"
      "same_cpu {} y z" "pipe_ok q" "pipe_items q = drop c (pipe_items (pipes s pi))"
      "\<forall>j < c. m (user_pa L (addr + of_nat j)) = pipe_items (pipes s pi) ! j"
      "\<forall>a. a \<noteq> k_ch s \<and> a \<notin> taken L addr 0 c \<longrightarrow> m a = mem s a"
    using piperead_copy_spec[OF y(2) pre] by auto
  have fr: "m a = mem s a" if "r \<in> T \<union> F" "in_region r 4096 a" for a r
  proof -
    have "a \<noteq> k_ch s" using in_pipeD(7)[OF assms(1) that(1)] that(2) by blast
    moreover have "a \<notin> taken L addr 0 c"
      using user_range_frame[OF assms(3) _ that(1)] that(2) assms(7) by (auto simp: taken_def)
    ultimately show ?thesis using z(6) by blast
  qed
  let ?s = "s\<lparr>sy := z, mem := m, ptable := woken (Some (C_nwrite pi)) (Some p) (ptable s), pipes := (pipes s)(pi := q)\<rparr>"
  have "in_pipe {} p L T F ?s"
    using in_pipe_leave[OF y(2), where y = z and m = m and ch = "Some (C_nwrite pi)" and ps = "(pipes s)(pi := q)"] z(2) fr by simp
  moreover have "piperead pi addr n s = Ok (of_nat c, ?s)" using y(1) l z(1) by (simp add: piperead_def pipe_now_def)
  ultimately show ?thesis using z(3-6) by (intro exI[of _ ?s]) simp
qed

end
