(* ===== verification/Log_Spec.thy ===== *)
theory Log_Spec
  imports Log
begin

text \<open>
  What the log does to the disk. The writes of a commit and of a recovery are lists of
  (block number, data); \<open>apply_writes\<close> gives the disk after them. The lemmas compute the
  writes of \<open>write_log\<close>, \<open>write_head\<close>, \<open>install_trans\<close>, \<open>commit\<close> and \<open>recover_from_log\<close> from
  the laws of the buffer cache (the interpretation \<open>bc\<close>).
\<close>

section \<open>Writes\<close>

definition apply_writes :: "(u32 \<times> block) list \<Rightarrow> (u32 \<Rightarrow> block) \<Rightarrow> u32 \<Rightarrow> block" where
  "apply_writes ws D = fold (\<lambda>(n, d) D. D(n := d)) ws D"

lemma apply_writes_simps [simp]:
  "apply_writes [] D = D" "apply_writes ((n, d) # ws) D = apply_writes ws (D(n := d))"
  "apply_writes (ws @ ws') D = apply_writes ws' (apply_writes ws D)"
  by (simp_all add: apply_writes_def)

lemma apply_writes_other: "m \<notin> fst ` set ws \<Longrightarrow> apply_writes ws D m = D m"
  by (induction ws arbitrary: D) auto

lemma apply_writes_distinct:
  "(m, d) \<in> set ws \<Longrightarrow> distinct (map fst ws) \<Longrightarrow> apply_writes ws D m = d"
proof (induction ws arbitrary: D)
  case (Cons w ws)
  then show ?case by (cases w; cases "(m, d) \<in> set ws") (auto simp: apply_writes_other rev_image_eqI)
qed simp

definition log_block :: "u32 \<Rightarrow> nat \<Rightarrow> u32" where
  "log_block start i = start + of_nat i + 1"

definition log_area :: "u32 \<Rightarrow> u32 set" where
  "log_area start = insert start (log_block start ` {..<LOGBLOCKS})"

lemma log_block_inj: "i < 2 ^ 31 \<Longrightarrow> j < 2 ^ 31 \<Longrightarrow> log_block start i = log_block start j \<longleftrightarrow> i = j"
proof -
  assume "i < 2 ^ 31" "j < 2 ^ 31"
  then have "(of_nat i :: u32) = of_nat j \<longleftrightarrow> i = j"
    by (simp add: word_unat_eq_iff unat_of_nat take_bit_nat_eq_self)
  then show ?thesis by (simp add: log_block_def)
qed

lemma log_block_start: "i < 2 ^ 31 \<Longrightarrow> log_block start i \<noteq> start"
proof
  assume i: "i < 2 ^ 31" and "log_block start i = start"
  then have "(of_nat (Suc i) :: u32) = 0" by (simp add: log_block_def add.commute)
  then have "unat (of_nat (Suc i) :: u32) = 0" by simp
  then show False using i by (simp add: unat_of_nat take_bit_nat_eq_self del: of_nat_Suc)
qed

lemma LOGBLOCKS_less: "i < LOGBLOCKS \<Longrightarrow> i < 2 ^ 31"
  by (simp add: LOGBLOCKS_def MAXOPBLOCKS_def)

text \<open>The first \<open>k\<close> copies to the log, and the first \<open>k\<close> copies home.\<close>

definition log_writes :: "u32 \<Rightarrow> (u32 \<Rightarrow> block) \<Rightarrow> u32 list \<Rightarrow> nat \<Rightarrow> (u32 \<times> block) list" where
  "log_writes start V B k = map (\<lambda>i. (log_block start i, V (B ! i))) [0..<k]"

definition home_writes :: "u32 \<Rightarrow> (u32 \<Rightarrow> block) \<Rightarrow> u32 list \<Rightarrow> nat \<Rightarrow> (u32 \<times> block) list" where
  "home_writes start V B k = map (\<lambda>i. (B ! i, V (log_block start i))) [0..<k]"

lemma log_writes_Suc: "log_writes start V B (Suc k) = log_writes start V B k @ [(log_block start k, V (B ! k))]"
  "home_writes start V B (Suc k) = home_writes start V B k @ [(B ! k, V (log_block start k))]"
  by (simp_all add: log_writes_def home_writes_def)

text \<open>The data of the header block after \<open>write_head\<close>.\<close>

definition enc_head :: "u32 list \<Rightarrow> u8 list \<Rightarrow> u8 list" where
  "enc_head B d = fold (\<lambda>i. put32 (LH_block i) (B ! i)) [0..<length B] (put32 0 (of_nat (length B)) d)"

lemma length_fold_put32: "length (fold (\<lambda>i. put32 (f i) (g i)) is d) = length d"
  by (induction "is" arbitrary: d) simp_all

lemma length_enc_head [simp]: "length (enc_head B d) = length d"
  by (simp add: enc_head_def length_fold_put32)

lemma get32_fold_head:
  assumes "length d = BSIZE" "k \<le> LOGBLOCKS" "i < k"
  shows "get32 (LH_block i) (fold (\<lambda>i. put32 (LH_block i) (B ! i)) [0..<k] d) = B ! i"
  using assms(2,3)
proof (induction k)
  case (Suc k)
  have "LH_block k + 4 \<le> length d" using Suc.prems assms(1) by (simp add: LH_block_def BSIZE_def LOGBLOCKS_def MAXOPBLOCKS_def)
  then show ?case using Suc by (cases "i = k") (auto simp: length_fold_put32 LH_block_def)
qed simp

lemma get32_head_n: "get32 0 (fold (\<lambda>i. put32 (LH_block i) (B ! i)) is d) = get32 0 d"
  by (induction "is" arbitrary: d) (simp_all add: LH_block_def)

lemma enc_head_fields:
  assumes "length d = BSIZE" "length B \<le> LOGBLOCKS"
  shows "get32 0 (enc_head B d) = of_nat (length B)" "i < length B \<Longrightarrow> get32 (LH_block i) (enc_head B d) = B ! i"
  using assms get32_fold_head[of "put32 0 (of_nat (length B)) d" "length B" i B]
  by (simp_all add: enc_head_def get32_head_n BSIZE_def)

section \<open>The frame of the cache operations on the log\<close>

lemma bio_step_log:
  assumes "bio_step p s s'"
  shows "log_start s' = log_start s" "log_dev s' = log_dev s" "lh_n s' = lh_n s" "lh_block s' = lh_block s"
    "log_outstanding s' = log_outstanding s" "log_committing s' = log_committing s"
proof -
  have e: "s' = s\<lparr>sy := sy s', ptable := ptable s', slocks := slocks s', bufs := bufs s', disk := disk s', dhist := dhist s'\<rparr>"
    using assms by (simp add: bio_step_def)
  show "log_start s' = log_start s" "log_dev s' = log_dev s" "lh_n s' = lh_n s" "lh_block s' = lh_block s"
    "log_outstanding s' = log_outstanding s" "log_committing s' = log_committing s"
    by (subst e, simp)+
qed

definition pins :: "u32 list \<Rightarrow> u32 \<Rightarrow> nat" where
  "pins B m = (if m \<in> set B then 1 else 0)"

lemma pins_used: "{m. 0 < pins B m} = set B" "pins B m + 1 < 2 ^ 32"
  by (auto simp: pins_def)

definition logged :: "nat \<Rightarrow> 'z log_state_scheme \<Rightarrow> u32 list \<Rightarrow> bool" where
  "logged p s B \<longleftrightarrow> ready p s \<and> lh_n s = of_nat (length B) \<and> length (lh_block s) = LOGBLOCKS \<and> length B \<le> LOGBLOCKS
     \<and> take (length B) (lh_block s) = B \<and> distinct B \<and> set B \<inter> log_area (log_start s) = {}"

lemma loggedD:
  assumes "logged p s B"
  shows "ready p s" "nat (sint (lh_n s)) = length B" "lh_n s = of_nat (length B)" "length B \<le> LOGBLOCKS" "distinct B"
    "k < length B \<Longrightarrow> lh_get k s = Ok (B ! k)" "k < length B \<Longrightarrow> B ! k \<notin> log_area (log_start s)" "length (lh_block s) = LOGBLOCKS"
    "k < length B \<Longrightarrow> lh_block s ! k = B ! k"
proof -
  have len: "length B \<le> 30" using assms by (simp add: logged_def LOGBLOCKS_def MAXOPBLOCKS_def)
  have "sint (of_nat (length B) :: i32) = int (length B)"
    using len by (simp add: signed_of_nat signed_take_bit_int_eq_self)
  then show "nat (sint (lh_n s)) = length B" using assms by (simp add: logged_def)
  show nth: "lh_block s ! k = B ! k" if "k < length B"
    using assms that unfolding logged_def by (metis nth_take)
  show "lh_get k s = Ok (B ! k)" if "k < length B"
    using nth[OF that] assms that by (simp add: logged_def lh_get_def)
  show "B ! k \<notin> log_area (log_start s)" if "k < length B"
    using assms that nth_mem[OF that] unfolding logged_def by blast
qed (use assms in \<open>simp_all add: logged_def\<close>)

lemma logged_step: "logged p s B \<Longrightarrow> bio_step p s s' \<Longrightarrow> logged p s' B"
  using bio_step_log[of p s s'] by (auto simp: logged_def bio_step_def)

lemma log_area_mem: "k < LOGBLOCKS \<Longrightarrow> log_block start k \<in> log_area start" "start \<in> log_area start"
  by (auto simp: log_area_def)

lemma log_writes_home: "m \<notin> log_area start \<Longrightarrow> k \<le> LOGBLOCKS \<Longrightarrow> apply_writes (log_writes start V B k) D m = D m"
proof (rule apply_writes_other)
  assume "m \<notin> log_area start" "k \<le> LOGBLOCKS"
  then have "m \<noteq> log_block start i" if "i < k" for i using log_area_mem(1)[of i start] that by auto
  then show "m \<notin> fst ` set (log_writes start V B k)" by (fastforce simp: log_writes_def)
qed

section \<open>write_log\<close>

lemma write_log_step:
  assumes "logged p s B" "cache (log_dev s) s V (pins B) {}" "k < length B" "length B < NBUF"
  shows "\<exists>s'. write_log_one k s = Ok s' \<and> bio_step p s s' \<and> cache (log_dev s) s' (V(log_block (log_start s) k := V (B ! k))) (pins B) {}
    \<and> disk s' = (disk s)(log_block (log_start s) k := V (B ! k)) \<and> dhist s' = dhist s @ [(log_block (log_start s) k, V (B ! k))]"
proof -
  note l = loggedD[OF assms(1)]
  let ?a = "log_block (log_start s) k"
  have kL: "k < LOGBLOCKS" using assms(3) l(4) by simp
  have a: "?a \<notin> set B" using assms(1) log_area_mem(1)[OF kL] unfolding logged_def by blast
  then have ne: "?a \<noteq> B ! k" using assms(3) by auto
  have card: "card {m. 0 < pins B m} = length B" using l(5) by (simp add: pins_used distinct_card)
  have b: "0 < pins B (B ! k)" using assms(3) by (simp add: pins_def)
  obtain x s1 y s2 s3 s4 s5 where *: "bread (log_dev s) ?a s = Ok (x, s1)" "bio_step p s s1" "bread (log_dev s) (B ! k) s1 = Ok (y, s2)"
      "b_data (the_buf y s2) = V (B ! k)" "bwrite x (upd_buf x (b_data_update (\<lambda>_. V (B ! k))) s2) = Ok s3"
      "brelse y s3 = Ok s4" "brelse x s4 = Ok s5" "bio_step p s s5" "cache (log_dev s) s5 (V(?a := V (B ! k))) (pins B) {}"
      "disk s5 = (disk s)(?a := V (B ! k))" "dhist s5 = dhist s @ [(?a, V (B ! k))]"
    using bc.copy_to_first[of p s "log_dev s" V "pins B" "{}" ?a "B ! k"] l(1) assms(2,4) ne b card pins_used(2) by auto
  have "lh_get k s1 = Ok (B ! k)" using loggedD(6)[OF logged_step[OF assms(1) *(2)] assms(3)] .
  then have "write_log_one k s = Ok s5"
    using * bio_step_log(2)[OF *(2)] by (simp add: write_log_one_def log_block_def)
  then show ?thesis using * by blast
qed

lemma write_log_spec:
  assumes "logged p s B" "cache (log_dev s) s V (pins B) {}" "length B < NBUF"
  shows "\<exists>s'. write_log s = Ok s' \<and> bio_step p s s' \<and> cache (log_dev s) s' (apply_writes (log_writes (log_start s) V B (length B)) V) (pins B) {}
    \<and> disk s' = apply_writes (log_writes (log_start s) V B (length B)) (disk s)
    \<and> dhist s' = dhist s @ log_writes (log_start s) V B (length B)"
proof -
  note l = loggedD[OF assms(1)]
  let ?w = "log_writes (log_start s) V B"
  let ?P = "\<lambda>k t. bio_step p s t \<and> cache (log_dev s) t (apply_writes (?w k) V) (pins B) {}
    \<and> disk t = apply_writes (?w k) (disk s) \<and> dhist t = dhist s @ ?w k"
  have "\<exists>s'. fold_res write_log_one [0..<length B] s = Ok s' \<and> ?P (length B) s'"
  proof (rule fold_res_upt)
    show "?P 0 s" using bio_step_refl[OF l(1)] assms(2) by (simp add: log_writes_def)
    fix k t assume k: "k < length B" and P: "?P k t"
    have lt: "logged p t B" using logged_step[OF assms(1)] P by blast
    have st: "log_start t = log_start s" "log_dev t = log_dev s" using P bio_step_log by blast+
    have same: "apply_writes (?w k) V (B ! k) = V (B ! k)"
      using log_writes_home[OF l(7)[OF k]] l(4) k by simp
    obtain t' where t': "write_log_one k t = Ok t'" "bio_step p t t'"
        "cache (log_dev s) t' ((apply_writes (?w k) V)(log_block (log_start s) k := V (B ! k))) (pins B) {}"
        "disk t' = (disk t)(log_block (log_start s) k := V (B ! k))" "dhist t' = dhist t @ [(log_block (log_start s) k, V (B ! k))]"
      using write_log_step[OF lt, of "apply_writes (?w k) V" k] P k assms(3) st same by auto
    show "\<exists>t'. write_log_one k t = Ok t' \<and> ?P (Suc k) t'"
      using t' P bio_step_trans[of p s t t'] by (intro exI[of _ t']) (simp add: log_writes_Suc)
  qed
  then show ?thesis using l(2) by (simp add: write_log_def)
qed

section \<open>write_head\<close>

lemma upd_data_twice: "upd_buf b (b_data_update f) (upd_buf b (b_data_update (\<lambda>_. d)) s) = upd_buf b (b_data_update (\<lambda>_. f d)) s"
  by (cases "b < length (bufs s)") (simp_all add: upd_buf_def list_update_beyond comp_def)

lemma upd_data_const: "upd_buf b (b_data_update f) s = upd_buf b (b_data_update (\<lambda>_. f (b_data (the_buf b s)))) s"
proof -
  have "b_data_update f (the_buf b s) = (the_buf b s)\<lparr>b_data := f (b_data (the_buf b s))\<rparr>" by (cases "the_buf b s") simp
  then show ?thesis by (simp only: upd_buf_def)
qed

lemma upd_buf_log [simp]:
  "log_start (upd_buf b f s) = log_start s" "log_dev (upd_buf b f s) = log_dev s" "lh_n (upd_buf b f s) = lh_n s"
  "lh_block (upd_buf b f s) = lh_block s" "lh_get i (upd_buf b f s) = lh_get i s"
  by (simp_all add: upd_buf_def lh_get_def)

lemma head_fold:
  assumes "\<And>k. k < n \<Longrightarrow> lh_get k s = Ok (B ! k)"
  shows "fold_res (head_one b) [0..<n] (upd_buf b (b_data_update (\<lambda>_. d)) s)
    = Ok (upd_buf b (b_data_update (\<lambda>_. fold (\<lambda>i. put32 (LH_block i) (B ! i)) [0..<n] d)) s)"
proof -
  let ?P = "\<lambda>k t. t = upd_buf b (b_data_update (\<lambda>_. fold (\<lambda>i. put32 (LH_block i) (B ! i)) [0..<k] d)) s"
  have "\<exists>s'. fold_res (head_one b) [0..<n] (upd_buf b (b_data_update (\<lambda>_. d)) s) = Ok s' \<and> ?P n s'"
  proof (rule fold_res_upt)
    show "?P 0 (upd_buf b (b_data_update (\<lambda>_. d)) s)" by simp
    show "\<exists>s'. head_one b k t = Ok s' \<and> ?P (Suc k) s'" if "k < n" "?P k t" for k t
      using that assms[OF that(1)] by (simp add: head_one_def upd_data_twice)
  qed
  then show ?thesis by blast
qed

lemma write_head_spec:
  assumes "logged p s B" "cache (log_dev s) s V R {}" "R (log_start s) + 1 < 2 ^ 32" "0 < R (log_start s) \<or> card {m. 0 < R m} < NBUF"
  shows "\<exists>s'. write_head s = Ok s' \<and> bio_step p s s' \<and> cache (log_dev s) s' (V(log_start s := enc_head B (V (log_start s)))) R {}
    \<and> disk s' = (disk s)(log_start s := enc_head B (V (log_start s)))
    \<and> dhist s' = dhist s @ [(log_start s, enc_head B (V (log_start s)))]"
proof -
  note l = loggedD[OF assms(1)]
  let ?n = "log_start s"
  let ?d = "enc_head B (V ?n)"
  obtain b s1 s2 s3 where *: "bread (log_dev s) ?n s = Ok (b, s1)" "b_data (the_buf b s1) = V ?n"
      "bwrite b (upd_buf b (b_data_update (\<lambda>_. ?d)) s1) = Ok s2" "brelse b s2 = Ok s3" "bio_step p s s1" "bio_step p s s3"
      "ready p s3 \<and> cache (log_dev s) s3 (V(?n := ?d)) R {}" "disk s3 = (disk s)(?n := ?d)" "dhist s3 = dhist s @ [(?n, ?d)]"
    using bc.store[of p s "log_dev s" V R "{}" ?n ?d] l(1) assms(2-4) by blast
  have l1: "logged p s1 B" using logged_step[OF assms(1) *(5)] .
  have "upd_buf b (b_data_update (put32 0 (lh_n s1))) s1 = upd_buf b (b_data_update (\<lambda>_. put32 0 (of_nat (length B)) (V ?n))) s1"
    using upd_data_const[of b "put32 0 (lh_n s1)" s1] *(2) loggedD(3)[OF l1] by simp
  moreover have "fold_res (head_one b) [0..<length B] (upd_buf b (b_data_update (\<lambda>_. put32 0 (of_nat (length B)) (V ?n))) s1)
      = Ok (upd_buf b (b_data_update (\<lambda>_. ?d)) s1)"
    using head_fold[of "length B" s1 B b "put32 0 (of_nat (length B)) (V ?n)"] loggedD(6)[OF l1] by (simp add: enc_head_def)
  ultimately have "write_head s = Ok s3"
    using * loggedD(2)[OF l1] by (simp add: write_head_def)
  then show ?thesis using * by blast
qed

section \<open>install_trans\<close>

lemma install_step:
  assumes "logged p s B" "cache (log_dev s) s V (pins C) {}" "k < length B" "length B < NBUF"
    "if r = 0 then C = drop k B else C = []"
  shows "\<exists>s'. install_one r k s = Ok s' \<and> bio_step p s s'
    \<and> cache (log_dev s) s' (V(B ! k := V (log_block (log_start s) k))) (pins (if r = 0 then drop (Suc k) B else [])) {}
    \<and> disk s' = (disk s)(B ! k := V (log_block (log_start s) k)) \<and> dhist s' = dhist s @ [(B ! k, V (log_block (log_start s) k))]"
proof -
  note l = loggedD[OF assms(1)]
  let ?a = "log_block (log_start s) k"
  have kL: "k < LOGBLOCKS" using assms(3) l(4) by simp
  have a: "?a \<notin> set B" using assms(1) log_area_mem(1)[OF kL] unfolding logged_def by blast
  then have ne: "?a \<noteq> B ! k" using assms(3) by auto
  have "set C \<subseteq> set B" using assms(5) set_drop_subset[of k B] by (auto split: if_splits)
  have "card {m. 0 < pins C m} \<le> length B" using card_mono[OF _ \<open>set C \<subseteq> set B\<close>] card_length[of B] by (simp add: pins_used)
  then have room: "card {m. 0 < pins C m} < NBUF" using assms(4) by simp
  have dk: "drop k B = B ! k # drop (Suc k) B" using Cons_nth_drop_Suc[OF assms(3)] by simp
  have b: "0 < pins C (B ! k) \<or> card {m. 0 < pins C m} + 1 < NBUF" "r = 0 \<Longrightarrow> 0 < pins C (B ! k)"
    using assms(5) dk by (auto simp: pins_def NBUF_def MAXOPBLOCKS_def pins_used split: if_splits)
  have pu: "(pins C)(B ! k := if r = 0 then pins C (B ! k) - 1 else pins C (B ! k)) = pins (if r = 0 then drop (Suc k) B else [])"
  proof (cases "r = 0")
    case True
    have "distinct (drop k B)" using l(5) by simp
    then have "B ! k \<notin> set (drop (Suc k) B)" using dk by simp
    then show ?thesis using True assms(5) dk by (auto simp: pins_def)
  next
    case False
    then show ?thesis using assms(5) by (auto simp: pins_def)
  qed
  obtain x s1 y s2 s3 s4 s5 s6 where *: "bread (log_dev s) ?a s = Ok (x, s1)" "bio_step p s s1" "bread (log_dev s) (B ! k) s1 = Ok (y, s2)"
      "b_data (the_buf x s2) = V ?a" "bwrite y (upd_buf y (b_data_update (\<lambda>_. V ?a)) s2) = Ok s3"
      "(if r = 0 then bunpin y s3 else Ok s3) = Ok s4"
      "brelse x s4 = Ok s5" "brelse y s5 = Ok s6" "bio_step p s s6" 
      "cache (log_dev s) s6 (V(B ! k := V ?a)) (pins (if r = 0 then drop (Suc k) B else [])) {}"
      "disk s6 = (disk s)(B ! k := V ?a)" "dhist s6 = dhist s @ [(B ! k, V ?a)]"
    using bc.copy_to_second[of p s "log_dev s" V "pins C" "{}" ?a "B ! k" "r = 0", unfolded pu] l(1) assms(2) ne b room pins_used(2)
    by blast
  have "lh_get k s1 = Ok (B ! k)" using loggedD(6)[OF logged_step[OF assms(1) *(2)] assms(3)] .
  then have "install_one r k s = Ok s6"
    using *(1,3,5-8) *(4) bio_step_log(2)[OF *(2)] by (simp add: install_one_def log_block_def)
  then show ?thesis using * by blast
qed

lemma home_writes_log: "m \<in> log_area start \<Longrightarrow> set B \<inter> log_area start = {} \<Longrightarrow> k \<le> length B \<Longrightarrow> apply_writes (home_writes start V B k) D m = D m"
proof (rule apply_writes_other)
  assume "m \<in> log_area start" "set B \<inter> log_area start = {}" "k \<le> length B"
  then have "m \<notin> set B" by blast
  then have "m \<noteq> B ! i" if "i < k" for i using nth_mem[of i B] that \<open>k \<le> length B\<close> by auto
  then show "m \<notin> fst ` set (home_writes start V B k)" by (fastforce simp: home_writes_def)
qed

lemma install_trans_spec:
  assumes "logged p s B" "cache (log_dev s) s V (pins (if r = 0 then B else [])) {}" "length B < NBUF"
  shows "\<exists>s'. install_trans r s = Ok s' \<and> bio_step p s s' \<and> cache (log_dev s) s' (apply_writes (home_writes (log_start s) V B (length B)) V) (pins []) {}
    \<and> disk s' = apply_writes (home_writes (log_start s) V B (length B)) (disk s)
    \<and> dhist s' = dhist s @ home_writes (log_start s) V B (length B)"
proof -
  note l = loggedD[OF assms(1)]
  let ?w = "home_writes (log_start s) V B" and ?C = "\<lambda>k. if r = 0 then drop k B else []"
  let ?P = "\<lambda>k t. bio_step p s t \<and> cache (log_dev s) t (apply_writes (?w k) V) (pins (?C k)) {}
    \<and> disk t = apply_writes (?w k) (disk s) \<and> dhist t = dhist s @ ?w k"
  have "\<exists>s'. fold_res (install_one r) [0..<length B] s = Ok s' \<and> ?P (length B) s'"
  proof (rule fold_res_upt)
    show "?P 0 s" using bio_step_refl[OF l(1)] assms(2) by (cases "r = 0") (simp_all add: home_writes_def)
    fix k t assume k: "k < length B" and P: "?P k t"
    have lt: "logged p t B" using logged_step[OF assms(1)] P by blast
    have st: "log_start t = log_start s" "log_dev t = log_dev s" using P bio_step_log by blast+
    have "set B \<inter> log_area (log_start s) = {}" using assms(1) by (simp add: logged_def)
    then have same: "apply_writes (?w k) V (log_block (log_start s) k) = V (log_block (log_start s) k)"
      using home_writes_log[OF log_area_mem(1)] l(4) k by simp
    have C: "if r = 0 then ?C k = drop k B else ?C k = []" by simp
    obtain t' where t': "install_one r k t = Ok t'" "bio_step p t t'"
        "cache (log_dev s) t' ((apply_writes (?w k) V)(B ! k := V (log_block (log_start s) k))) (pins (?C (Suc k))) {}"
        "disk t' = (disk t)(B ! k := V (log_block (log_start s) k))" "dhist t' = dhist t @ [(B ! k, V (log_block (log_start s) k))]"
      using install_step[OF lt, of "apply_writes (?w k) V" "?C k" k r, unfolded st same, OF _ k assms(3) C] P by blast
    show "\<exists>t'. install_one r k t = Ok t' \<and> ?P (Suc k) t'"
      using t' P bio_step_trans[of p s t t'] by (intro exI[of _ t']) (simp add: log_writes_Suc)
  qed
  moreover have "?C (length B) = []" by simp
  ultimately show ?thesis using l(2) by (simp only: install_trans_def)
qed

section \<open>commit\<close>

definition commit_writes :: "u32 \<Rightarrow> (u32 \<Rightarrow> block) \<Rightarrow> u32 list \<Rightarrow> (u32 \<times> block) list" where
  "commit_writes start V B =
     log_writes start V B (length B) @ [(start, enc_head B (V start))]
     @ map (\<lambda>m. (m, V m)) B @ [(start, enc_head [] (enc_head B (V start)))]"

lemma logged_clear: "logged p s B \<Longrightarrow> logged p (s\<lparr>lh_n := 0\<rparr>) []"
  by (simp add: logged_def ready_def)

lemma bio_step_lh:
  assumes "bio_step p s s'"
  shows "bio_step p (s\<lparr>lh_n := x, lh_block := y\<rparr>) (s'\<lparr>lh_n := x, lh_block := y\<rparr>)" "bio_step p (s\<lparr>lh_n := x\<rparr>) (s'\<lparr>lh_n := x\<rparr>)"
proof -
  have e: "s' = s\<lparr>sy := sy s', ptable := ptable s', slocks := slocks s', bufs := bufs s', disk := disk s', dhist := dhist s'\<rparr>"
    using assms by (simp add: bio_step_def)
  have "s'\<lparr>lh_n := x\<rparr> = s\<lparr>lh_n := x, sy := sy s', ptable := ptable s', slocks := slocks s', bufs := bufs s', disk := disk s', dhist := dhist s'\<rparr>"
    "s'\<lparr>lh_n := x, lh_block := y\<rparr> =
      s\<lparr>lh_n := x, lh_block := y, sy := sy s', ptable := ptable s', slocks := slocks s', bufs := bufs s', disk := disk s', dhist := dhist s'\<rparr>"
    by (subst e, simp)+
  then show "bio_step p (s\<lparr>lh_n := x, lh_block := y\<rparr>) (s'\<lparr>lh_n := x, lh_block := y\<rparr>)" "bio_step p (s\<lparr>lh_n := x\<rparr>) (s'\<lparr>lh_n := x\<rparr>)"
    using assms by (simp_all add: bio_step_def ready_def)
qed

lemma cache_log_fields [simp]:
  "cache dv (s\<lparr>lh_n := x\<rparr>) V R K = cache dv s V R K" "cache dv (s\<lparr>lh_block := y\<rparr>) V R K = cache dv s V R K"
  "cache dv (s\<lparr>log_outstanding := x\<rparr>) V R K = cache dv s V R K" "cache dv (s\<lparr>log_committing := x\<rparr>) V R K = cache dv s V R K"
  "cache dv (s\<lparr>log_start := x\<rparr>) V R K = cache dv s V R K" "cache dv (s\<lparr>log_dev := x\<rparr>) V R K = cache dv s V R K"
  by (simp_all add: cache_def buf_ok_def has_block_def)

lemma log_write_at:
  assumes "i < length B" "length B \<le> LOGBLOCKS"
  shows "apply_writes (log_writes start V B (length B)) D (log_block start i) = V (B ! i)"
proof (rule apply_writes_distinct)
  show "(log_block start i, V (B ! i)) \<in> set (log_writes start V B (length B))" using assms(1) by (auto simp: log_writes_def)
  have "inj_on (log_block start) {0..<length B}"
    using assms(2) by (intro inj_onI) (simp add: log_block_inj LOGBLOCKS_def MAXOPBLOCKS_def)
  then show "distinct (map fst (log_writes start V B (length B)))"
    by (simp add: log_writes_def distinct_map comp_def)
qed

lemma log_writes_start: "k \<le> LOGBLOCKS \<Longrightarrow> apply_writes (log_writes start V B k) D start = D start"
proof (rule apply_writes_other)
  assume "k \<le> LOGBLOCKS"
  then have "start \<noteq> log_block start i" if "i < k" for i
    using that log_block_start[of i start] LOGBLOCKS_less[of i] by auto
  then show "start \<notin> fst ` set (log_writes start V B k)" by (fastforce simp: log_writes_def)
qed

lemma home_writes_eq:
  assumes "length B \<le> LOGBLOCKS" "\<And>i. i < length B \<Longrightarrow> W (log_block start i) = V (B ! i)"
  shows "home_writes start W B (length B) = map (\<lambda>m. (m, V m)) B"
  by (rule nth_equalityI) (simp_all add: home_writes_def assms(2))

lemma commit_spec:
  assumes "logged p s B" "cache (log_dev s) s V (pins B) {}" "0 < length B" "length B < NBUF"
  shows "\<exists>s'. commit s = Ok s' \<and> bio_step p (s\<lparr>lh_n := 0\<rparr>) s' \<and> logged p s' []
    \<and> cache (log_dev s) s' (apply_writes (commit_writes (log_start s) V B) V) (pins []) {}
    \<and> disk s' = apply_writes (commit_writes (log_start s) V B) (disk s)
    \<and> dhist s' = dhist s @ commit_writes (log_start s) V B"
proof -
  note l = loggedD[OF assms(1)]
  let ?st = "log_start s" and ?dv = "log_dev s"
  let ?lw = "log_writes ?st V B (length B)"
  have area: "?st \<notin> set B" using assms(1) log_area_mem(2) unfolding logged_def by blast
  obtain s1 where s1: "write_log s = Ok s1" "bio_step p s s1" "cache ?dv s1 (apply_writes ?lw V) (pins B) {}"
      "disk s1 = apply_writes ?lw (disk s)" "dhist s1 = dhist s @ ?lw"
    using write_log_spec[OF assms(1,2,4)] by blast
  note f1 = bio_step_log(1,2)[OF s1(2)] and l1 = logged_step[OF assms(1) s1(2)]
  let ?hd = "enc_head B (V ?st)"
  have st1: "apply_writes ?lw V ?st = V ?st" using log_writes_start l(4) by blast
  have card: "card {m. 0 < pins B m} < NBUF" using l(5) assms(4) by (simp add: pins_used distinct_card)
  obtain s2 where s2: "write_head s1 = Ok s2" "bio_step p s1 s2" "cache ?dv s2 ((apply_writes ?lw V)(?st := ?hd)) (pins B) {}"
      "disk s2 = (disk s1)(?st := ?hd)" "dhist s2 = dhist s1 @ [(?st, ?hd)]"
    using write_head_spec[OF l1, of _ "pins B", unfolded f1, OF s1(3)] st1 card pins_used(2) by auto
  note f2 = bio_step_log(1,2)[OF s2(2), unfolded f1] and l2 = logged_step[OF l1 s2(2)]
  let ?W = "(apply_writes ?lw V)(?st := ?hd)"
  have "?W (log_block ?st i) = V (B ! i)" if "i < length B" for i
    using log_write_at[OF that l(4)] log_block_start[of i ?st] LOGBLOCKS_less[of i] that l(4) by simp
  then have hw: "home_writes ?st ?W B (length B) = map (\<lambda>m. (m, V m)) B" using home_writes_eq l(4) by blast
  obtain s3 where s3: "install_trans 0 s2 = Ok s3" "bio_step p s2 s3" "cache ?dv s3 (apply_writes (map (\<lambda>m. (m, V m)) B) ?W) (pins []) {}"
      "disk s3 = apply_writes (map (\<lambda>m. (m, V m)) B) (disk s2)" "dhist s3 = dhist s2 @ map (\<lambda>m. (m, V m)) B"
    using install_trans_spec[OF l2, of ?W 0, unfolded f2 hw] s2(3) assms(4) by auto
  note f3 = bio_step_log(1,2)[OF s3(2), unfolded f2] and l3 = logged_step[OF l2 s3(2)]
  have st3: "apply_writes (map (\<lambda>m. (m, V m)) B) ?W ?st = ?hd" using area by (subst apply_writes_other) auto
  obtain s4 where s4: "write_head (s3\<lparr>lh_n := 0\<rparr>) = Ok s4" "bio_step p (s3\<lparr>lh_n := 0\<rparr>) s4"
      "cache ?dv s4 ((apply_writes (map (\<lambda>m. (m, V m)) B) ?W)(?st := enc_head [] ?hd)) (pins []) {}"
      "disk s4 = (disk s3)(?st := enc_head [] ?hd)" "dhist s4 = dhist s3 @ [(?st, enc_head [] ?hd)]"
    using write_head_spec[OF logged_clear[OF l3], of "apply_writes (map (\<lambda>m. (m, V m)) B) ?W" "pins []"] f3 s3(3) st3
    by (auto simp: pins_def NBUF_def MAXOPBLOCKS_def)
  have "0 < sint (lh_n s)" using l(2) assms(3) by linarith
  then have "commit s = Ok s4" using s1(1) s2(1) s3(1) s4(1) by (simp add: commit_def)
  moreover have "bio_step p (s\<lparr>lh_n := 0\<rparr>) s4"
    using bio_step_trans[OF bio_step_lh(2)[OF bio_step_trans[OF bio_step_trans[OF s1(2) s2(2)] s3(2)]] s4(2)] .
  ultimately show ?thesis using s1 s2 s3 s4 logged_step[OF logged_clear[OF l3] s4(2)]
    by (intro exI[of _ s4]) (simp add: commit_writes_def)
qed

section \<open>Recovery\<close>

definition head_blocks :: "u8 list \<Rightarrow> u32 list" where
  "head_blocks d = map (\<lambda>i. get32 (LH_block i) d) [0..<nat (sint (get32 0 d))]"

text \<open>A header that names at most \<open>LOGBLOCKS\<close> different blocks outside the log.\<close>

definition head_ok :: "u32 \<Rightarrow> u8 list \<Rightarrow> bool" where
  "head_ok start d \<longleftrightarrow> length d = BSIZE \<and> 0 \<le> sint (get32 0 d) \<and> sint (get32 0 d) \<le> int LOGBLOCKS
     \<and> distinct (head_blocks d) \<and> set (head_blocks d) \<inter> log_area start = {}"

lemma lh_fold:
  assumes "n \<le> length (lh_block s)"
  shows "\<exists>blks. fold_res (\<lambda>i. lh_set i (f i)) [0..<n] s = Ok (s\<lparr>lh_block := blks\<rparr>) \<and> length blks = length (lh_block s)
    \<and> take n blks = map f [0..<n]"
proof -
  let ?P = "\<lambda>k t. \<exists>blks. t = s\<lparr>lh_block := blks\<rparr> \<and> length blks = length (lh_block s) \<and> take k blks = map f [0..<k]"
  have "\<exists>t. fold_res (\<lambda>i. lh_set i (f i)) [0..<n] s = Ok t \<and> ?P n t"
  proof (rule fold_res_upt)
    show "?P 0 s" by (intro exI[of _ "lh_block s"]) simp
    fix k t assume k: "k < n" and P: "?P k t"
    then obtain blks where b: "t = s\<lparr>lh_block := blks\<rparr>" "length blks = length (lh_block s)" "take k blks = map f [0..<k]" by blast
    have "take (Suc k) (blks[k := f k]) = map f [0..<Suc k]"
      using b k assms by (simp add: take_Suc_conv_app_nth take_update_cancel)
    then show "\<exists>t'. lh_set k (f k) t = Ok t' \<and> ?P (Suc k) t'"
      using b k assms by (intro exI[of _ "s\<lparr>lh_block := blks[k := f k]\<rparr>"]) (auto simp: lh_set_def)
  qed
  then show ?thesis by blast
qed

lemma read_head_spec:
  assumes "ready p s" "cache (log_dev s) s V (pins []) {}" "length (lh_block s) = LOGBLOCKS" "head_ok (log_start s) (V (log_start s))"
  shows "\<exists>blks s'. read_head s = Ok s' \<and> bio_step p (s\<lparr>lh_n := get32 0 (V (log_start s)), lh_block := blks\<rparr>) s'
    \<and> logged p s' (head_blocks (V (log_start s))) \<and> cache (log_dev s) s' V (pins []) {} \<and> disk s' = disk s \<and> dhist s' = dhist s"
proof -
  let ?d = "V (log_start s)"
  let ?n = "nat (sint (get32 0 ?d))"
  have R: "pins [] (log_start s) + 1 < 2 ^ 32" "0 < pins [] (log_start s) \<or> card {m. 0 < pins [] m} < NBUF"
    by (simp_all add: pins_def NBUF_def MAXOPBLOCKS_def)
  obtain b s1 where s1: "bread (log_dev s) (log_start s) s = Ok (b, s1)" "bio_step p s s1" "has_block (log_dev s) s1 (log_start s) b"
      "ready p s1 \<and> cache (log_dev s) s1 V ((pins [])(log_start s := pins [] (log_start s) + 1)) {log_start s}"
      "disk s1 = disk s" "dhist s1 = dhist s"
    using bc.rd_law[of p s "log_dev s" V "pins []" "{}" "log_start s"] assms(1,2) R by blast
  note f1 = bio_step_log[OF s1(2)]
  have data: "b_data (the_buf b s1) = ?d" using bc.content_has[OF s1(4,3)] by simp
  have n: "?n \<le> LOGBLOCKS" using assms(4) by (simp add: head_ok_def nat_le_iff)
  obtain blks where blks: "fold_res (\<lambda>i. lh_set i (get32 (LH_block i) ?d)) [0..<?n] (s1\<lparr>lh_n := get32 0 ?d\<rparr>)
        = Ok (s1\<lparr>lh_n := get32 0 ?d, lh_block := blks\<rparr>)" "length blks = LOGBLOCKS" "take ?n blks = head_blocks ?d"
    using lh_fold[of ?n "s1\<lparr>lh_n := get32 0 ?d\<rparr>" "\<lambda>i. get32 (LH_block i) ?d"] n f1(4) assms(3) by (auto simp: head_blocks_def)
  let ?t = "s1\<lparr>lh_n := get32 0 ?d, lh_block := blks\<rparr>"
  have t: "ready p ?t \<and> cache (log_dev s) ?t V ((pins [])(log_start s := pins [] (log_start s) + 1)) {log_start s}"
      "has_block (log_dev s) ?t (log_start s) b"
    using s1(3,4) by (simp_all add: ready_def has_block_def)
  have p0: "(pins [])(log_start s := 0) = pins []" by (auto simp: pins_def)
  have "V (log_start s) = disk s (log_start s)" using cacheD(5)[OF assms(2), of "log_start s"] by (simp add: pins_def)
  then obtain s2 where s2: "brelse b ?t = Ok s2" "bio_step p ?t s2" "ready p s2 \<and> cache (log_dev s) s2 V (pins []) {}"
      "disk s2 = disk s" "dhist s2 = dhist s"
    using bc.rel_law[OF t] s1(5,6) p0 by (auto simp: pins_def)
  have st: "bio_step p (s\<lparr>lh_n := get32 0 ?d, lh_block := blks\<rparr>) s2" using bio_step_trans[OF bio_step_lh(1)[OF s1(2)] s2(2)] .
  have len: "length (head_blocks ?d) = ?n" by (simp add: head_blocks_def)
  have "get32 0 ?d = of_nat ?n" using assms(4) by (simp add: head_ok_def)
  then have "logged p s2 (head_blocks ?d)"
    using bio_step_log[OF st] s2(3) n blks(2,3) assms(4) len by (simp add: logged_def head_ok_def)
  moreover have "read_head s = Ok s2" using s1(1) data blks(1) s2(1) by (simp add: read_head_def)
  ultimately show ?thesis using st s2 by blast
qed

text \<open>The writes of a recovery from a disk \<open>D\<close>.\<close>

definition recovery_writes :: "u32 \<Rightarrow> (u32 \<Rightarrow> block) \<Rightarrow> (u32 \<times> block) list" where
  "recovery_writes start D =
     home_writes start D (head_blocks (D start)) (length (head_blocks (D start))) @ [(start, enc_head [] (D start))]"

lemma recover_from_log_spec:
  assumes "ready p s" "cache (log_dev s) s (disk s) (pins []) {}" "length (lh_block s) = LOGBLOCKS"
    "head_ok (log_start s) (disk s (log_start s))" "length (head_blocks (disk s (log_start s))) < NBUF"
  shows "\<exists>s'. recover_from_log s = Ok s' \<and> logged p s' [] \<and> cache (log_dev s) s' (disk s') (pins []) {}
    \<and> log_start s' = log_start s \<and> log_dev s' = log_dev s \<and> log_outstanding s' = log_outstanding s \<and> log_committing s' = log_committing s
    \<and> disk s' = apply_writes (recovery_writes (log_start s) (disk s)) (disk s)
    \<and> dhist s' = dhist s @ recovery_writes (log_start s) (disk s)"
proof -
  let ?st = "log_start s" and ?dv = "log_dev s" and ?D = "disk s"
  let ?B = "head_blocks (?D ?st)"
  let ?w = "home_writes ?st ?D ?B (length ?B)"
  obtain blks s1 where s1: "read_head s = Ok s1" "bio_step p (s\<lparr>lh_n := get32 0 (?D ?st), lh_block := blks\<rparr>) s1" "logged p s1 ?B"
      "cache ?dv s1 ?D (pins []) {}" "disk s1 = ?D" "dhist s1 = dhist s"
    using read_head_spec[OF assms(1-4)] by blast
  have f1: "log_start s1 = ?st" "log_dev s1 = ?dv" "log_outstanding s1 = log_outstanding s" "log_committing s1 = log_committing s"
    using bio_step_log[OF s1(2)] by simp_all
  obtain s2 where s2: "install_trans 1 s1 = Ok s2" "bio_step p s1 s2" "cache ?dv s2 (apply_writes ?w ?D) (pins []) {}"
      "disk s2 = apply_writes ?w ?D" "dhist s2 = dhist s @ ?w"
    using install_trans_spec[OF s1(3), of ?D 1] f1 s1(4-6) assms(5) by auto
  note f2 = bio_step_log[OF s2(2), unfolded f1]
  have "apply_writes ?w ?D ?st = ?D ?st"
    using home_writes_log[OF log_area_mem(2)] assms(4) by (simp add: head_ok_def)
  then obtain s3 where s3: "write_head (s2\<lparr>lh_n := 0\<rparr>) = Ok s3" "bio_step p (s2\<lparr>lh_n := 0\<rparr>) s3"
      "cache ?dv s3 ((apply_writes ?w ?D)(?st := enc_head [] (?D ?st))) (pins []) {}"
      "disk s3 = (disk s2)(?st := enc_head [] (?D ?st))" "dhist s3 = dhist s2 @ [(?st, enc_head [] (?D ?st))]"
    using write_head_spec[OF logged_clear[OF logged_step[OF s1(3) s2(2)]], of "apply_writes ?w ?D" "pins []"] f2 s2(3)
    by (auto simp: pins_def NBUF_def MAXOPBLOCKS_def)
  have "recover_from_log s = Ok s3" using s1(1) s2(1) s3(1) by (simp add: recover_from_log_def)
  moreover have "logged p s3 []" using logged_step[OF logged_clear[OF logged_step[OF s1(3) s2(2)]] s3(2)] .
  ultimately show ?thesis using s2 s3 bio_step_log[OF s3(2)] f2 by (intro exI[of _ s3]) (simp add: recovery_writes_def)
qed

lemma cache_sy: "cpu_proc (this_cpu y) = curproc s \<Longrightarrow> cache dv (s\<lparr>sy := y\<rparr>) V R K \<longleftrightarrow> cache dv s V R K"
  by (simp add: cache_def buf_ok_def has_block_def)

lemma initlog_spec:
  assumes "ready p s" "cache dv s (disk s) (pins []) {}" "length (lh_block s) = LOGBLOCKS"
    "head_ok start (disk s start)" "length (head_blocks (disk s start)) < NBUF"
  shows "\<exists>s'. initlog dv start s = Ok s' \<and> logged p s' [] \<and> cache dv s' (disk s') (pins []) {}
    \<and> log_start s' = start \<and> log_dev s' = dv \<and> log_outstanding s' = log_outstanding s \<and> log_committing s' = log_committing s
    \<and> disk s' = apply_writes (recovery_writes start (disk s)) (disk s)
    \<and> dhist s' = dhist s @ recovery_writes start (disk s)"
proof -
  let ?s = "s\<lparr>sy := initlock L_log ''log'' (sy s), log_start := start, log_dev := dv\<rparr>"
  have "curproc ?s = curproc s" by (simp add: initlock_def mycpu_def cpuid_def)
  then have r: "ready p ?s" "cache dv ?s (disk s) (pins []) {}"
    using assms(1,2) held_initlock[of "{}" "sy s" L_log "''log''"] cache_sy[of "initlock L_log ''log'' (sy s)" s] by (simp_all add: ready_def)
  have "initlog dv start s = recover_from_log ?s"
    by (simp add: initlog_def LH_block_def BSIZE_def LOGBLOCKS_def MAXOPBLOCKS_def Let_def)
  then show ?thesis using recover_from_log_spec[OF r(1)] r(2) assms(3-5) by simp
qed

end
