(* ===== verification/Log_Crash.thy ===== *)
theory Log_Crash
  imports Log_Spec
begin

text \<open>
  Crash safety of the log. A crash keeps the disk as a prefix of the writes has left it (a
  block is written entirely or not at all) and loses memory; booting runs \<open>initlog\<close>. A
  recovery can itself be interrupted, any number of times.
\<close>

section \<open>What a recovery makes of a disk\<close>

definition recovered :: "u32 \<Rightarrow> (u32 \<Rightarrow> block) \<Rightarrow> u32 \<Rightarrow> block" where
  "recovered start D = apply_writes (recovery_writes start D) D"

lemma home_not_log: "m \<notin> log_area start \<Longrightarrow> m \<noteq> start" "m \<notin> log_area start \<Longrightarrow> i < LOGBLOCKS \<Longrightarrow> m \<noteq> log_block start i"
  using log_area_mem by blast+

lemma head_okD:
  assumes "head_ok start d"
  shows "length d = BSIZE" "length (head_blocks d) \<le> LOGBLOCKS" "distinct (head_blocks d)" "set (head_blocks d) \<inter> log_area start = {}"
  using assms by (simp_all add: head_ok_def head_blocks_def nat_le_iff)

lemma home_writes_map:
  "map fst (home_writes start D B (length B)) = B"
  by (rule nth_equalityI) (simp_all add: home_writes_def)

lemma recovered_at:
  assumes "head_ok start (D start)" "i < length (head_blocks (D start))"
  shows "recovered start D (head_blocks (D start) ! i) = D (log_block start i)"
proof -
  let ?B = "head_blocks (D start)"
  note h = head_okD[OF assms(1)]
  have "?B ! i \<notin> log_area start" using h(4) nth_mem[OF assms(2)] by blast
  then have "?B ! i \<noteq> start" using home_not_log by blast
  moreover have "apply_writes (home_writes start D ?B (length ?B)) D (?B ! i) = D (log_block start i)"
  proof (rule apply_writes_distinct)
    show "(?B ! i, D (log_block start i)) \<in> set (home_writes start D ?B (length ?B))"
      using assms(2) by (auto simp: home_writes_def)
    show "distinct (map fst (home_writes start D ?B (length ?B)))" using h(3) by (simp only: home_writes_map)
  qed
  ultimately show ?thesis by (simp add: recovered_def recovery_writes_def)
qed

lemma recovered_other:
  assumes "m \<notin> log_area start" "m \<notin> set (head_blocks (D start))"
  shows "recovered start D m = D m"
proof -
  have "m \<notin> fst ` set (home_writes start D (head_blocks (D start)) (length (head_blocks (D start))))"
    using assms(2) arg_cong[OF home_writes_map, of set] by auto
  then show ?thesis
    using home_not_log(1)[OF assms(1)] by (simp add: recovered_def recovery_writes_def apply_writes_other)
qed

text \<open>Two disks with the same header and log, equal at home outside the logged blocks.\<close>

lemma recovered_cong:
  assumes "head_ok start (D start)" "D' start = D start" "\<And>i. i < length (head_blocks (D start)) \<Longrightarrow> D' (log_block start i) = D (log_block start i)"
    "\<And>m. m \<notin> log_area start \<Longrightarrow> m \<notin> set (head_blocks (D start)) \<Longrightarrow> D' m = D m" "m \<notin> log_area start"
  shows "recovered start D' m = recovered start D m"
proof (cases "m \<in> set (head_blocks (D start))")
  case True
  then obtain i where "i < length (head_blocks (D start))" "m = head_blocks (D start) ! i" by (metis in_set_conv_nth)
  then show ?thesis using recovered_at[of start D i] recovered_at[of start D' i] assms(1-3) by simp
next
  case False
  then show ?thesis using recovered_other assms(2,4,5) by simp
qed

lemma head_blocks_clear: "length d = BSIZE \<Longrightarrow> head_blocks (enc_head [] d) = []"
  using enc_head_fields(1)[of d "[]"] by (simp add: head_blocks_def)

lemma head_ok_clear: "length d = BSIZE \<Longrightarrow> head_ok start (enc_head [] d)"
  using enc_head_fields(1)[of d "[]"] head_blocks_clear[of d] by (simp add: head_ok_def)

lemma take_writes_other: "m \<notin> fst ` set ws \<Longrightarrow> apply_writes (take j ws) D m = D m"
  using set_take_subset[of j ws] by (intro apply_writes_other) blast

lemma interrupted_recovery:
  assumes "head_ok start (D start)" "D' = apply_writes (take j (recovery_writes start D)) D"
  shows "head_ok start (D' start)" "length (head_blocks (D' start)) \<le> length (head_blocks (D start))"
    "m \<notin> log_area start \<Longrightarrow> recovered start D' m = recovered start D m"
proof -
  let ?B = "head_blocks (D start)"
  let ?w = "home_writes start D ?B (length ?B)"
  note h = head_okD[OF assms(1)]
  have len: "length ?w = length ?B" by (simp add: home_writes_def)
  have fstw: "fst ` set ?w = set ?B" using arg_cong[OF home_writes_map[of start D ?B], of set] by simp
  have "head_ok start (D' start) \<and> length (head_blocks (D' start)) \<le> length ?B \<and> (m \<notin> log_area start \<longrightarrow> recovered start D' m = recovered start D m)"
  proof (cases "j \<le> length ?B")
    case True
    then have D': "D' = apply_writes (take j ?w) D" using assms(2) len by (simp add: recovery_writes_def)
    have area: "D' x = D x" if "x \<in> log_area start \<or> x \<notin> set ?B" for x
      using that h(4) fstw by (auto simp: D' intro!: take_writes_other)
    have "D' start = D start" "\<And>i. i < length ?B \<Longrightarrow> D' (log_block start i) = D (log_block start i)"
      using area log_area_mem h(2) by simp_all
    then show ?thesis using assms(1) recovered_cong[where start = start and D = D and D' = D' and m = m] area by auto
  next
    case False
    then have D': "D' = recovered start D" using assms(2) len by (simp add: recovery_writes_def recovered_def)
    then have "D' start = enc_head [] (D start)" by (simp add: recovered_def recovery_writes_def)
    then show ?thesis using D' head_ok_clear[OF h(1)] head_blocks_clear[OF h(1)] recovered_other[of m start D'] by simp
  qed
  then show "head_ok start (D' start)" "length (head_blocks (D' start)) \<le> length ?B"
    "m \<notin> log_area start \<Longrightarrow> recovered start D' m = recovered start D m" by blast+
qed

text \<open>The disks that any number of interrupted recoveries leave.\<close>

inductive reboots :: "u32 \<Rightarrow> (u32 \<Rightarrow> block) \<Rightarrow> (u32 \<Rightarrow> block) \<Rightarrow> bool" for start where
  none: "reboots start D D"
| again: "reboots start D D' \<Longrightarrow> reboots start D (apply_writes (take j (recovery_writes start D')) D')"

lemma reboots_recovered:
  assumes "reboots start D D'" "head_ok start (D start)"
  shows "head_ok start (D' start) \<and> length (head_blocks (D' start)) \<le> length (head_blocks (D start))
    \<and> (\<forall>m. m \<notin> log_area start \<longrightarrow> recovered start D' m = recovered start D m)"
  using assms
proof induction
  case (again D D' j)
  then show ?case using interrupted_recovery[where D = D' and j = j and start = start, OF _ refl] by fastforce
qed simp

section \<open>A crash during commit\<close>

lemma apply_view: "apply_writes (map (\<lambda>m. (m, V m)) xs) D x = (if x \<in> set xs then V x else D x)"
  by (induction xs arbitrary: D) auto

lemma head_blocks_enc:
  assumes "length d = BSIZE" "length B \<le> LOGBLOCKS"
  shows "head_blocks (enc_head B d) = B" "0 \<le> sint (get32 0 (enc_head B d))" "sint (get32 0 (enc_head B d)) \<le> int LOGBLOCKS"
proof -
  have "sint (of_nat (length B) :: u32) = int (length B)"
    using assms(2) by (simp add: signed_of_nat signed_take_bit_int_eq_self LOGBLOCKS_def MAXOPBLOCKS_def)
  then have n: "sint (get32 0 (enc_head B d)) = int (length B)" using enc_head_fields(1)[OF assms] by simp
  then show "0 \<le> sint (get32 0 (enc_head B d))" "sint (get32 0 (enc_head B d)) \<le> int LOGBLOCKS" using assms(2) by simp_all
  show "head_blocks (enc_head B d) = B"
    using n enc_head_fields(2)[OF assms] by (intro nth_equalityI) (simp_all add: head_blocks_def)
qed

lemma commit_prefix:
  assumes B: "distinct B" "set B \<inter> log_area start = {}" "length B \<le> LOGBLOCKS"
    and V: "V start = D start" "\<And>m. m \<notin> set B \<Longrightarrow> V m = D m"
    and D: "length (D start) = BSIZE" "get32 0 (D start) = 0"
    and E: "E = apply_writes (take k (commit_writes start V B)) D"
  shows "head_ok start (E start) \<and> length (head_blocks (E start)) \<le> length B
    \<and> (\<forall>m. m \<notin> log_area start \<longrightarrow> recovered start E m = (if k \<le> length B then D m else V m))"
proof -
  let ?n = "length B" and ?hd = "enc_head B (V start)"
  let ?lw = "log_writes start V B"
  have len: "length (?lw ?n) = ?n" by (simp add: log_writes_def)
  have st: "start \<notin> set B" using B(2) log_area_mem(2) by blast
  have d: "length (V start) = BSIZE" using V D by simp
  define D1 where "D1 = (apply_writes (?lw ?n) D)(start := ?hd)"
  have D1: "D1 start = ?hd" "\<And>m. m \<notin> log_area start \<Longrightarrow> D1 m = D m" "\<And>i. i < ?n \<Longrightarrow> D1 (log_block start i) = V (B ! i)"
    using log_writes_home[OF _ B(3)] home_not_log(1) log_write_at[OF _ B(3)] log_block_start LOGBLOCKS_less B(3)
    by (auto simp: D1_def)
  consider "k \<le> ?n" | "?n < k" "k \<le> 2 * ?n + 1" | "2 * ?n + 2 \<le> k" by linarith
  then show ?thesis
  proof cases
    case 1
    then have "take k (commit_writes start V B) = take k (?lw ?n)" using len by (simp add: commit_writes_def)
    also have "\<dots> = ?lw k" using 1 by (simp add: log_writes_def take_map)
    finally have E1: "E = apply_writes (?lw k) D" using E by simp
    have "E start = D start" using log_writes_start 1 B(3) by (simp add: E1)
    moreover have "head_blocks (D start) = []" "head_ok start (D start)" using D by (simp_all add: head_ok_def head_blocks_def)
    moreover have "E m = D m" if "m \<notin> log_area start" for m using log_writes_home[OF that] 1 B(3) by (simp add: E1)
    ultimately show ?thesis using recovered_other[of _ start E] 1 by simp
  next
    case 2
    define j where "j = k - Suc ?n"
    then have "k = Suc ?n + j" "j \<le> ?n" using 2 by simp_all
    then have "take k (commit_writes start V B) = ?lw ?n @ (start, ?hd) # take j (map (\<lambda>m. (m, V m)) B)"
      using len by (simp add: commit_writes_def)
    then have E2: "E x = (if x \<in> set (take j B) then V x else D1 x)" for x
      using apply_view[of V "take j B" D1] E by (simp add: D1_def take_map)
    have sub: "set (take j B) \<subseteq> set B" by (rule set_take_subset)
    then have Es: "E start = ?hd" and El: "\<And>i. i < ?n \<Longrightarrow> E (log_block start i) = V (B ! i)"
      using st B(2) log_area_mem(1) D1 B(3) by (auto simp: E2)
    have hok: "head_ok start ?hd" "head_blocks ?hd = B"
      using head_blocks_enc[OF d B(3)] B(1,2) d by (simp_all add: head_ok_def)
    have "recovered start E m = V m" if m: "m \<notin> log_area start" for m
    proof (cases "m \<in> set B")
      case True
      then obtain i where i: "i < ?n" "m = B ! i" by (metis in_set_conv_nth)
      then show ?thesis using recovered_at[of start E i] Es El hok by simp
    next
      case False
      then show ?thesis using recovered_other[of m start E] m Es hok sub D1(2) V(2) by (auto simp: E2)
    qed
    then show ?thesis using Es hok 2 by simp
  next
    case 3
    then have E3: "E = apply_writes (commit_writes start V B) D" using E len by (simp add: commit_writes_def)
    have Es: "E start = enc_head [] ?hd" by (simp add: E3 commit_writes_def)
    have "E m = V m" if m: "m \<notin> log_area start" for m
      using apply_view[of V B D1] D1(2)[OF m] V(2)[of m] home_not_log(1)[OF m]
      by (simp add: E3 commit_writes_def D1_def)
    then show ?thesis using Es recovered_other[of _ start E] head_blocks_clear[of ?hd] head_ok_clear[of ?hd] d 3 by simp
  qed
qed

end
