(* ===== verification/Log_Tx.thy ===== *)
theory Log_Tx
  imports Log_Crash
begin

text \<open>
  Transactions as the file system uses them: \<open>begin_op\<close>, changes of blocks with
  \<open>log_write\<close>, \<open>end_op\<close>. \<open>tx p s V B K\<close> says that process \<open>p\<close> is inside a transaction, that
  the blocks have contents \<open>V\<close>, that the blocks \<open>B\<close> are logged and that the process holds
  the buffers of the blocks \<open>K\<close>.
\<close>

section \<open>The state inside a transaction\<close>

definition refs :: "u32 list \<Rightarrow> u32 set \<Rightarrow> u32 \<Rightarrow> nat" where
  "refs B K m = pins B m + (if m \<in> K then 1 else 0)"

definition tx :: "nat \<Rightarrow> 'z log_state_scheme \<Rightarrow> (u32 \<Rightarrow> block) \<Rightarrow> u32 list \<Rightarrow> u32 set \<Rightarrow> bool" where
  "tx p s V B K \<longleftrightarrow> logged p s B \<and> cache (log_dev s) s V (refs B K) K
     \<and> 1 \<le> sint (log_outstanding s) \<and> log_committing s = 0"

lemma txD:
  assumes "tx p s V B K"
  shows "logged p s B" "ready p s" "cache (log_dev s) s V (refs B K) K" "1 \<le> sint (log_outstanding s)" "log_committing s = 0"
  using assms by (auto simp: tx_def logged_def)

lemma tx_step:
  assumes "tx p s V B K" "bio_step p s s'" "cache (log_dev s) s' V' (refs B K') K'"
  shows "tx p s' V' B K'"
  using assms(1,3) logged_step[OF txD(1)[OF assms(1)] assms(2)] bio_step_log[OF assms(2)] by (simp add: tx_def)

lemma refs_used: "{m. 0 < refs B K m} = set B \<union> K" "refs B K m + 1 < 2 ^ 32"
  by (auto simp: refs_def pins_def)

lemma refs_upd: "n \<notin> K \<Longrightarrow> (refs B K)(n := refs B K n + 1) = refs B (insert n K)"
    "n \<in> K \<Longrightarrow> (refs B K)(n := refs B K n - 1) = refs B (K - {n})"
    "n \<notin> set B \<Longrightarrow> (refs B K)(n := refs B K n + 1) = refs (B @ [n]) K"
  by (auto simp: refs_def pins_def fun_eq_iff)

section \<open>Reading, changing and releasing\<close>

lemma tx_finite: "tx p s V B K \<Longrightarrow> finite K"
  using cache_finite_refs[OF txD(3), of p s V B K] by (simp add: refs_used)

lemma tx_bread:
  assumes "tx p s V B K" "n \<notin> K" "n \<in> set B \<or> card (set B \<union> K) < NBUF"
  shows "\<exists>b s'. bread (log_dev s) n s = Ok (b, s') \<and> bio_step p s s' \<and> tx p s' V B (insert n K) \<and> has_block (log_dev s) s' n b
    \<and> b_data (the_buf b s') = V n \<and> disk s' = disk s \<and> (\<forall>m i. m \<in> K \<longrightarrow> has_block (log_dev s) s m i \<longrightarrow> has_block (log_dev s) s' m i)"
proof -
  note t = txD[OF assms(1)]
  have room: "0 < refs B K n \<or> card {m. 0 < refs B K m} < NBUF"
    using assms(3) by (auto simp: refs_used) (simp add: refs_def pins_def)
  obtain b s' where *: "bread (log_dev s) n s = Ok (b, s')" "bio_step p s s'" "has_block (log_dev s) s' n b"
      "ready p s' \<and> cache (log_dev s) s' V ((refs B K)(n := refs B K n + 1)) (insert n K)" "disk s' = disk s"
      "\<forall>m i. 0 < refs B K m \<longrightarrow> has_block (log_dev s) s m i \<longrightarrow> has_block (log_dev s) s' m i"
    using bc.rd_law[of p s "log_dev s" V "refs B K" K n] t(2,3) assms(2) refs_used(2) room by blast
  have "b_data (the_buf b s') = V n" using bc.content_has[OF *(4,3)] by simp
  moreover have "tx p s' V B (insert n K)" using tx_step[OF assms(1) *(2)] *(4) refs_upd(1)[OF assms(2)] by simp
  ultimately show ?thesis using * by (auto simp: refs_def)
qed

lemma tx_put:
  assumes "tx p s V B K" "has_block (log_dev s) s n b" "n \<in> K"
  shows "bio_step p s (upd_buf b (b_data_update (\<lambda>_. d)) s)" "tx p (upd_buf b (b_data_update (\<lambda>_. d)) s) (V(n := d)) B K"
    "m \<in> K \<Longrightarrow> has_block (log_dev s) s m i \<Longrightarrow> has_block (log_dev s) (upd_buf b (b_data_update (\<lambda>_. d)) s) m i"
proof -
  note t = txD[OF assms(1)]
  let ?s = "upd_buf b (b_data_update (\<lambda>_. d)) s"
  have l: "bio_step p s ?s" "cache (log_dev s) ?s (V(n := d)) (refs B K) K" "\<forall>m i. 0 < refs B K m \<longrightarrow> has_block (log_dev s) s m i \<longrightarrow> has_block (log_dev s) ?s m i"
    using bc.put_law[of p s "log_dev s" V "refs B K" K n b d] t(2,3) assms(2,3) by blast+
  show "bio_step p s ?s" "tx p ?s (V(n := d)) B K" using l(1) tx_step[OF assms(1) l(1,2)] by simp_all
  show "has_block (log_dev s) ?s m i" if "m \<in> K" "has_block (log_dev s) s m i" using l(3) that by (auto simp: refs_def)
qed

lemma tx_brelse:
  assumes "tx p s V B K" "has_block (log_dev s) s n b" "n \<in> K" "n \<in> set B \<or> V n = disk s n"
  shows "\<exists>s'. brelse b s = Ok s' \<and> bio_step p s s' \<and> tx p s' V B (K - {n}) \<and> disk s' = disk s
    \<and> (\<forall>m i. m \<in> K \<longrightarrow> has_block (log_dev s) s m i \<longrightarrow> has_block (log_dev s) s' m i)"
proof -
  note t = txD[OF assms(1)]
  have "refs B K n = 1 \<longrightarrow> V n = disk s n" using assms(3,4) by (auto simp: refs_def pins_def)
  then obtain s' where *: "brelse b s = Ok s'" "bio_step p s s'" "cache (log_dev s) s' V ((refs B K)(n := refs B K n - 1)) (K - {n})"
      "disk s' = disk s" "\<forall>m i. 0 < refs B K m \<longrightarrow> has_block (log_dev s) s m i \<longrightarrow> has_block (log_dev s) s' m i"
    using bc.rel_law[of p s "log_dev s" V "refs B K" K n b] t(2,3) assms(2,3) by blast
  moreover have "tx p s' V B (K - {n})" using tx_step[OF assms(1) *(2)] *(3) refs_upd(2)[OF assms(3)] by simp
  ultimately show ?thesis by (auto simp: refs_def)
qed

text \<open>A block that nobody has changed in this transaction is as on disk.\<close>

lemma tx_clean:
  assumes "tx p s V B K" "n \<notin> set B" "n \<notin> K"
  shows "V n = disk s n"
  using cacheD(5)[OF txD(3)[OF assms(1)], of n] assms(2,3) by (simp add: refs_def pins_def)

text \<open>What file system operations see of the rest of the log's state.\<close>

definition log_frame :: "'z log_state_scheme \<Rightarrow> 'z log_state_scheme \<Rightarrow> bool" where
  "log_frame s s' \<longleftrightarrow> s' = s\<lparr>sy := sy s', ptable := ptable s', slocks := slocks s', bufs := bufs s', disk := disk s', dhist := dhist s',
       lh_n := lh_n s', lh_block := lh_block s'\<rparr>
     \<and> (\<forall>i < NPROC. \<exists>st. the_proc i s' = (the_proc i s)\<lparr>p_state := st\<rparr>)
     \<and> (\<forall>i. slocks s' (SL_inode i) = slocks s (SL_inode i))"

lemma proc_state_same: "\<exists>st. pr = pr\<lparr>p_state := st\<rparr>" for pr :: proc
  by (rule exI[of _ "p_state pr"]) simp

lemma log_frame_trans:
  assumes "log_frame s t" "log_frame t u"
  shows "log_frame s u"
proof -
  have "\<exists>st. the_proc i u = (the_proc i s)\<lparr>p_state := st\<rparr>" if i: "i < NPROC" for i
  proof -
    obtain a b where "the_proc i t = (the_proc i s)\<lparr>p_state := a\<rparr>" "the_proc i u = (the_proc i t)\<lparr>p_state := b\<rparr>"
      using assms i unfolding log_frame_def by blast
    then show ?thesis by (intro exI[of _ b]) simp
  qed
  moreover have "u = s\<lparr>sy := sy u, ptable := ptable u, slocks := slocks u, bufs := bufs u, disk := disk u, dhist := dhist u,
       lh_n := lh_n u, lh_block := lh_block u\<rparr>"
  proof -
    have e1: "t = s\<lparr>sy := sy t, ptable := ptable t, slocks := slocks t, bufs := bufs t, disk := disk t, dhist := dhist t, lh_n := lh_n t, lh_block := lh_block t\<rparr>"
      and e2: "u = t\<lparr>sy := sy u, ptable := ptable u, slocks := slocks u, bufs := bufs u, disk := disk u, dhist := dhist u, lh_n := lh_n u, lh_block := lh_block u\<rparr>"
      using assms unfolding log_frame_def by blast+
    show ?thesis by (subst e2, subst e1) simp
  qed
  ultimately show ?thesis using assms unfolding log_frame_def by auto
qed

lemma bio_step_frame:
  assumes "bio_step p s s'"
  shows "log_frame s s'"
proof -
  have e: "s' = s\<lparr>sy := sy s', ptable := ptable s', slocks := slocks s', bufs := bufs s', disk := disk s', dhist := dhist s'\<rparr>"
    using assms by (simp add: bio_step_def)
  have "s' = s\<lparr>sy := sy s', ptable := ptable s', slocks := slocks s', bufs := bufs s', disk := disk s', dhist := dhist s', lh_n := lh_n s', lh_block := lh_block s'\<rparr>"
    using bio_step_log(3,4)[OF assms] by (subst e) simp
  then show ?thesis using assms unfolding log_frame_def bio_step_def by blast
qed

lemma log_frame_log: "log_frame s s' \<Longrightarrow> log_dev s' = log_dev s \<and> log_start s' = log_start s \<and> log_outstanding s' = log_outstanding s \<and> log_committing s' = log_committing s"
proof -
  assume "log_frame s s'"
  then have e: "s' = s\<lparr>sy := sy s', ptable := ptable s', slocks := slocks s', bufs := bufs s', disk := disk s', dhist := dhist s', lh_n := lh_n s', lh_block := lh_block s'\<rparr>"
    by (simp add: log_frame_def)
  show ?thesis by (intro conjI; subst e; simp)
qed

section \<open>log_write\<close>

lemma log_slot_found:
  assumes "take (length B) blks = B" "distinct B" "k < length B" "B ! k = n" "length B \<le> length blks"
  shows "log_slot blks (length B) n = k"
proof -
  have nth: "blks ! i = B ! i" if "i < length B" for i using assms(1) that by (metis nth_take)
  have uniq: "blks ! i = n \<longleftrightarrow> i = k" if "i < length B" for i
    using nth[OF that] assms(2-4) that by (simp add: nth_eq_iff_index_eq flip: assms(4))
  have "find (\<lambda>i. blks ! i = n) [0..<length B] = Some k"
    using uniq assms(3) unfolding find_Some_iff by (intro exI[of _ k]) auto
  then show ?thesis by (simp add: log_slot_def)
qed

lemma log_slot_new:
  assumes "take (length B) blks = B" "n \<notin> set B" "length B \<le> length blks"
  shows "log_slot blks (length B) n = length B"
proof -
  have "blks ! i \<noteq> n" if "i < length B" for i using assms(1,2) that by (metis nth_mem nth_take)
  then have "find (\<lambda>i. blks ! i = n) [0..<length B] = None" by (auto simp: find_None_iff)
  then show ?thesis by (simp add: log_slot_def)
qed

text \<open>Pinning a buffer while another lock is held.\<close>

lemma bpin_locked:
  assumes "kheld H s" "L_bcache \<notin> H" "card H < 98"
  shows "\<exists>z. bpin b s = Ok (s\<lparr>sy := z, bufs := (bufs s)[b := (the_buf b s)\<lparr>b_refcnt := b_refcnt (the_buf b s) + 1\<rparr>]\<rparr>) \<and> same_cpu H (sy s) z"
proof -
  let ?bs = "(bufs s)[b := (the_buf b s)\<lparr>b_refcnt := b_refcnt (the_buf b s) + 1\<rparr>]"
  obtain y where y: "kacquire L_bcache s = Ok (s\<lparr>sy := y\<rparr>)" "same_cpu (insert L_bcache H) (sy s) y"
    using kacquire_same[OF assms(1,2)] assms(3) by auto
  have ins: "insert L_bcache H - {L_bcache} = H" using assms(2) by simp
  obtain z where z: "krelease L_bcache (s\<lparr>sy := y, bufs := ?bs\<rparr>) = Ok (s\<lparr>sy := z, bufs := ?bs\<rparr>)" "same_cpu H y z"
    using krelease_same[of "insert L_bcache H" "s\<lparr>sy := y, bufs := ?bs\<rparr>" L_bcache] same_cpuD(1)[OF y(2)] ins by (auto simp: bio_last)
  then show ?thesis using y(1) same_cpu_trans[OF y(2) z(2)] by (intro exI[of _ z]) (simp add: bpin_def upd_buf_def refcnt_inc)
qed

lemma cache_pin:
  assumes "cache dv s V R K" "has_block dv s n b" "0 < R n" "R n + 1 < 2 ^ 32"
    "bufs s' = (bufs s)[b := (the_buf b s)\<lparr>b_refcnt := b_refcnt (the_buf b s) + 1\<rparr>]" "slocks s' = slocks s" "disk s' = disk s" "mypid s' = mypid s"
  shows "cache dv s' V (R(n := R n + 1)) K"
proof -
  note h = has_block_buf_ok[OF assms(1,2)]
  let ?x = "(the_buf b s)\<lparr>b_refcnt := b_refcnt (the_buf b s) + 1\<rparr>"
  have rc: "unat (b_refcnt (the_buf b s) + 1) = R n + 1" using h(5) assms(4) by (simp add: unat_plus_if')
  show ?thesis
    using h rc lru_ok_update[OF cacheD(1)[OF assms(1)], of "\<lambda>_. ?x" b] assms(5-8)
    by (intro cache_update[OF assms(1) _ assms(2)]) (auto simp: buf_ok_def)
qed

lemma sint_small: "n < 2 ^ 31 \<Longrightarrow> sint (of_nat n :: i32) = int n"
  by (simp add: signed_of_nat signed_take_bit_int_eq_self)

lemma tx_sy:
  assumes "tx p s V B K" "held {} z" "cpu_proc (this_cpu z) = Some p"
  shows "tx p (s\<lparr>sy := z\<rparr>) V B K"
proof -
  have "cpu_proc (this_cpu z) = curproc s" using txD(2)[OF assms(1)] assms(3) by (simp add: ready_def)
  then show ?thesis using assms cache_sy[of z s] by (simp add: tx_def logged_def ready_def)
qed

lemma log_update_order:
  "sy_update f (lh_block_update g s) = lh_block_update g (sy_update f s)" "sy_update f (lh_n_update h s) = lh_n_update h (sy_update f s)"
  "bufs_update k (lh_block_update g s) = lh_block_update g (bufs_update k s)" "bufs_update k (lh_n_update h s) = lh_n_update h (bufs_update k s)"
  "lh_block_update g (lh_n_update h s) = lh_n_update h (lh_block_update g s)"
  "sy_update f (log_outstanding_update k' s) = log_outstanding_update k' (sy_update f s)"
  "sy_update f (log_committing_update h' s) = log_committing_update h' (sy_update f s)"
  "ptable_update r (log_committing_update h' s) = log_committing_update h' (ptable_update r s)"
  "ptable_update r (log_outstanding_update k' s) = log_outstanding_update k' (ptable_update r s)"
  "log_outstanding_update k' (log_committing_update h' s) = log_committing_update h' (log_outstanding_update k' s)"
  by simp_all

lemma log_write_absorbed:
  assumes "tx p s V B K" "has_block (log_dev s) s n b" "n \<in> set B" "length B < LOGBLOCKS"
  shows "\<exists>z. log_write b s = Ok (s\<lparr>sy := z\<rparr>) \<and> tx p (s\<lparr>sy := z\<rparr>) V B K"
proof -
  note t = txD[OF assms(1)] and h = has_block_buf_ok[OF txD(3)[OF assms(1)] assms(2)]
  note l = loggedD[OF t(1)]
  have cp: "kheld {} s" "curproc s = Some p" using t(2) by (auto simp: ready_def)
  obtain y where y: "kacquire L_log s = Ok (s\<lparr>sy := y\<rparr>)" "same_cpu {L_log} (sy s) y"
    using kacquire_same[OF cp(1)] by auto
  have L: "sint (of_nat LOGBLOCKS :: i32) = int LOGBLOCKS" "sint (lh_n s) = int (length B)"
    using sint_small[of LOGBLOCKS] sint_small[of "length B"] l(3,4) by (simp_all add: LOGBLOCKS_def MAXOPBLOCKS_def)
  obtain k where k: "k < length B" "B ! k = n" using assms(3) by (metis in_set_conv_nth)
  have slot: "log_slot (lh_block s) (length B) n = k"
    using t(1) k l(8) by (intro log_slot_found) (auto simp: logged_def)
  have "lh_block s ! k = n" using l(9)[OF k(1)] k(2) by simp
  then have set: "lh_set k n (s\<lparr>sy := y\<rparr>) = Ok (s\<lparr>sy := y\<rparr>)"
    using k(1) l(4,8) list_update_id[of "lh_block s" k] by (simp add: lh_set_def)
  have ne: "(of_nat k :: i32) \<noteq> lh_n s"
    using k(1) assms(4) l(3) by (simp add: word_unat_eq_iff unat_of_nat take_bit_nat_eq_self LOGBLOCKS_def MAXOPBLOCKS_def)
  obtain z where z: "krelease L_log (s\<lparr>sy := y\<rparr>) = Ok (s\<lparr>sy := z\<rparr>)" "same_cpu {} y z"
    using krelease_same[of "{L_log}" "s\<lparr>sy := y\<rparr>" L_log] same_cpuD(1)[OF y(2)] by auto
  have "log_write b s = Ok (s\<lparr>sy := z\<rparr>)"
    using y(1) z(1) L assms(4) t(4) slot set ne h(4) l(2) by (simp add: log_write_def Let_def)
  moreover have "tx p (s\<lparr>sy := z\<rparr>) V B K"
    using tx_sy[OF assms(1)] same_cpuD[OF z(2)] same_cpuD[OF y(2)] cp(2) by simp
  ultimately show ?thesis by blast
qed

lemma log_write_new:
  assumes "tx p s V B K" "has_block (log_dev s) s n b" "n \<in> K" "n \<notin> set B" "length B < LOGBLOCKS"
  shows "\<exists>z. log_write b s = Ok (s\<lparr>sy := z, bufs := (bufs s)[b := (the_buf b s)\<lparr>b_refcnt := b_refcnt (the_buf b s) + 1\<rparr>],
      lh_block := (lh_block s)[length B := n], lh_n := lh_n s + 1\<rparr>) \<and> same_cpu {} (sy s) z"
proof -
  note t = txD[OF assms(1)] and h = has_block_buf_ok[OF txD(3)[OF assms(1)] assms(2)]
  note l = loggedD[OF t(1)]
  have cp: "kheld {} s" "curproc s = Some p" using t(2) by (auto simp: ready_def)
  obtain y where y: "kacquire L_log s = Ok (s\<lparr>sy := y\<rparr>)" "same_cpu {L_log} (sy s) y"
    using kacquire_same[OF cp(1)] by auto
  have L: "sint (of_nat LOGBLOCKS :: i32) = int LOGBLOCKS" "sint (lh_n s) = int (length B)"
    using sint_small[of LOGBLOCKS] sint_small[of "length B"] l(3,4) by (simp_all add: LOGBLOCKS_def MAXOPBLOCKS_def)
  have slot: "log_slot (lh_block s) (length B) n = length B"
    using t(1) assms(4) l(4,8) by (intro log_slot_new) (auto simp: logged_def)
  let ?blks = "(lh_block s)[length B := n]"
  have set: "lh_set (length B) n (s\<lparr>sy := y\<rparr>) = Ok (s\<lparr>sy := y, lh_block := ?blks\<rparr>)"
    using l(8) assms(5) by (simp add: lh_set_def)
  let ?bs = "(bufs s)[b := (the_buf b s)\<lparr>b_refcnt := b_refcnt (the_buf b s) + 1\<rparr>]"
  obtain u where u: "bpin b (s\<lparr>sy := y, lh_block := ?blks\<rparr>) = Ok (s\<lparr>sy := u, bufs := ?bs, lh_block := ?blks\<rparr>)" "same_cpu {L_log} y u"
    using bpin_locked[of "{L_log}" "s\<lparr>sy := y, lh_block := ?blks\<rparr>" b] same_cpuD(1)[OF y(2)] by (auto simp: log_update_order)
  let ?t = "s\<lparr>sy := u, bufs := ?bs, lh_block := ?blks, lh_n := lh_n s + 1\<rparr>"
  obtain z where z: "krelease L_log ?t = Ok (s\<lparr>sy := z, bufs := ?bs, lh_block := ?blks, lh_n := lh_n s + 1\<rparr>)" "same_cpu {} u z"
    using krelease_same[of "{L_log}" ?t L_log] same_cpuD(1)[OF u(2)] by (auto simp: log_update_order bio_last)
  have "log_write b s = krelease L_log ?t"
    using y(1) u(1) L assms(5) t(4) slot set h(4) l(2,3) by (simp add: log_write_def Let_def)
  then show ?thesis using z same_cpu_trans[OF y(2) same_cpu_trans[OF u(2) z(2)]] by auto
qed

lemma tx_log_write:
  assumes "tx p s V B K" "has_block (log_dev s) s n b" "n \<in> K" "n \<notin> log_area (log_start s)" "length B < LOGBLOCKS"
  shows "\<exists>s'. log_write b s = Ok s' \<and> log_frame s s' \<and> tx p s' V (if n \<in> set B then B else B @ [n]) K
    \<and> disk s' = disk s \<and> dhist s' = dhist s \<and> log_dev s' = log_dev s \<and> log_start s' = log_start s \<and> log_outstanding s' = log_outstanding s
    \<and> (\<forall>m i. has_block (log_dev s) s m i \<longrightarrow> has_block (log_dev s) s' m i)"
proof (cases "n \<in> set B")
  case True
  obtain z where z: "log_write b s = Ok (s\<lparr>sy := z\<rparr>)" "tx p (s\<lparr>sy := z\<rparr>) V B K"
    using log_write_absorbed[OF assms(1,2) True assms(5)] by blast
  have "log_frame s (s\<lparr>sy := z\<rparr>)" using proc_state_same by (simp add: log_frame_def)
  then show ?thesis using z True by (intro exI[of _ "s\<lparr>sy := z\<rparr>"]) (simp add: has_block_def)
next
  case False
  note t = txD[OF assms(1)] and h = has_block_buf_ok[OF txD(3)[OF assms(1)] assms(2)]
  note l = loggedD[OF t(1)]
  have cp: "curproc s = Some p" "p < NPROC" "length (ptable s) = NPROC" using t(2) by (auto simp: ready_def)
  let ?bs = "(bufs s)[b := (the_buf b s)\<lparr>b_refcnt := b_refcnt (the_buf b s) + 1\<rparr>]"
  let ?blks = "(lh_block s)[length B := n]"
  obtain z where z: "log_write b s = Ok (s\<lparr>sy := z, bufs := ?bs, lh_block := ?blks, lh_n := lh_n s + 1\<rparr>)" "same_cpu {} (sy s) z"
    using log_write_new[OF assms(1-3) False assms(5)] by blast
  let ?s' = "s\<lparr>sy := z, bufs := ?bs, lh_block := ?blks, lh_n := lh_n s + 1\<rparr>"
  note c = same_cpuD[OF z(2)]
  have "0 < refs B K n" using assms(3) by (simp add: refs_def)
  then have "cache (log_dev s) ?s' V ((refs B K)(n := refs B K n + 1)) K"
    using c cp refs_used(2)[of B K n] by (intro cache_pin[OF t(3) assms(2)]) simp_all
  then have ca: "cache (log_dev s) ?s' V (refs (B @ [n]) K) K" using refs_upd(3)[OF False] by simp
  have "take (Suc (length B)) ?blks = B @ [n]"
    using t(1) l(8) assms(5) by (simp add: logged_def take_Suc_conv_app_nth take_update_cancel)
  then have "logged p ?s' (B @ [n])"
    using t(1) c cp assms(4,5) False l(8) by (auto simp: logged_def ready_def)
  then have "tx p ?s' V (B @ [n]) K" using ca t(4,5) by (simp add: tx_def)
  moreover have "has_block (log_dev s) s m i \<Longrightarrow> has_block (log_dev s) ?s' m i" for m i
    by (simp add: has_block_def buf_fields)
  moreover have "log_frame s ?s'" using proc_state_same by (simp add: log_frame_def)
  ultimately show ?thesis using z(1) False by (intro exI[of _ ?s']) simp
qed

section \<open>begin_op and end_op\<close>

text \<open>Between transactions: nothing is logged and the header on disk is clear.\<close>

definition idle :: "nat \<Rightarrow> 'z log_state_scheme \<Rightarrow> bool" where
  "idle p s \<longleftrightarrow> logged p s [] \<and> cache (log_dev s) s (disk s) (pins []) {} \<and> log_outstanding s = 0 \<and> log_committing s = 0
     \<and> length (disk s (log_start s)) = BSIZE \<and> get32 0 (disk s (log_start s)) = 0"

lemma refs_empty [simp]: "refs B {} = pins B"
  by (auto simp: refs_def)

lemma begin_op_spec:
  assumes "idle p s"
  shows "\<exists>z. begin_op s = Ok (s\<lparr>sy := z, log_outstanding := 1\<rparr>) \<and> tx p (s\<lparr>sy := z, log_outstanding := 1\<rparr>) (disk s) [] {}"
proof -
  have i: "logged p s []" "cache (log_dev s) s (disk s) (pins []) {}" "log_outstanding s = 0" "log_committing s = 0"
    using assms by (simp_all add: idle_def)
  have cp: "kheld {} s" "curproc s = Some p" using loggedD(1)[OF i(1)] by (auto simp: ready_def)
  obtain y where y: "kacquire L_log s = Ok (s\<lparr>sy := y\<rparr>)" "same_cpu {L_log} (sy s) y"
    using kacquire_same[OF cp(1)] by auto
  obtain z where z: "krelease L_log (s\<lparr>sy := y, log_outstanding := 1\<rparr>) = Ok (s\<lparr>sy := z, log_outstanding := 1\<rparr>)" "same_cpu {} y z"
    using krelease_same[of "{L_log}" "s\<lparr>sy := y, log_outstanding := 1\<rparr>" L_log] same_cpuD(1)[OF y(2)] by (auto simp: log_update_order)
  have n0: "lh_n s = 0" using i(1) by (simp add: logged_def)
  have "begin_op s = Ok (s\<lparr>sy := z, log_outstanding := 1\<rparr>)"
    using y(1) z(1) i(3,4) n0 by (simp add: begin_op_def begin_op_start_def begin_op_loop_def LOGBLOCKS_def MAXOPBLOCKS_def)
  moreover have "tx p (s\<lparr>sy := z, log_outstanding := 1\<rparr>) (disk s) [] {}"
    using i same_cpuD[OF z(2)] same_cpuD[OF y(2)] cp cache_sy[of z s] by (simp add: tx_def logged_def ready_def)
  ultimately show ?thesis by blast
qed

definition tx_writes :: "u32 \<Rightarrow> (u32 \<Rightarrow> block) \<Rightarrow> u32 list \<Rightarrow> (u32 \<times> block) list" where
  "tx_writes start V B = (if B = [] then [] else commit_writes start V B)"

lemma commit_any:
  assumes "logged p s B" "cache (log_dev s) s V (pins B) {}" "length B < NBUF"
  shows "\<exists>s'. commit s = Ok s' \<and> bio_step p (s\<lparr>lh_n := 0\<rparr>) s' \<and> logged p s' []
    \<and> cache (log_dev s) s' (apply_writes (tx_writes (log_start s) V B) V) (pins []) {}
    \<and> disk s' = apply_writes (tx_writes (log_start s) V B) (disk s)
    \<and> dhist s' = dhist s @ tx_writes (log_start s) V B"
proof (cases "B = []")
  case True
  have n0: "lh_n s = 0" using assms(1) True by (simp add: logged_def)
  have "s\<lparr>lh_n := 0\<rparr> = s" using n0 by (cases s) simp
  moreover have "commit s = Ok s" using n0 by (simp add: commit_def)
  ultimately show ?thesis
    using True assms bio_step_refl[OF loggedD(1)[OF assms(1)]] by (intro exI[of _ s]) (simp add: tx_writes_def)
next
  case False
  then show ?thesis using commit_spec[OF assms(1,2) _ assms(3)] by (simp add: tx_writes_def)
qed

lemma cache_woken:
  assumes "length (ptable s) = NPROC" "curproc s = Some p" "p < NPROC" "cpu_proc (this_cpu z) = Some p"
  shows "cache dv (s\<lparr>sy := z, ptable := woken ch cur (ptable s), log_committing := x\<rparr>) V R K \<longleftrightarrow> cache dv s V R K"
proof -
  obtain st where "wake ch cur p (the_proc p s) = (the_proc p s)\<lparr>p_state := st\<rparr>" using wake_state by blast
  then have "mypid (s\<lparr>sy := z, ptable := woken ch cur (ptable s), log_committing := x\<rparr>) = mypid s"
    using assms by (simp add: nth_woken)
  then show ?thesis by (simp add: cache_def buf_ok_def has_block_def)
qed

lemma end_op_last:
  assumes "tx p s V B {}" "log_outstanding s = 1" "length B < NBUF"
  shows "\<exists>s'. end_op s = Ok s' \<and> logged p s' [] \<and> log_outstanding s' = 0 \<and> log_committing s' = 0
    \<and> log_start s' = log_start s \<and> log_dev s' = log_dev s
    \<and> cache (log_dev s) s' (apply_writes (tx_writes (log_start s) V B) V) (pins []) {}
    \<and> disk s' = apply_writes (tx_writes (log_start s) V B) (disk s)
    \<and> dhist s' = dhist s @ tx_writes (log_start s) V B"
proof -
  note t = txD[OF assms(1)]
  have cp: "kheld {} s" "curproc s = Some p" "p < NPROC" "length (ptable s) = NPROC" using t(2) by (auto simp: ready_def)
  obtain y0 where y0: "kacquire L_log s = Ok (s\<lparr>sy := y0\<rparr>)" "same_cpu {L_log} (sy s) y0"
    using kacquire_same[OF cp(1)] by auto
  let ?t = "s\<lparr>sy := y0, log_outstanding := 0, log_committing := 1\<rparr>"
  obtain y1 where y1: "krelease L_log ?t = Ok (s\<lparr>sy := y1, log_outstanding := 0, log_committing := 1\<rparr>)" "same_cpu {} y0 y1"
    using krelease_same[of "{L_log}" ?t L_log] same_cpuD(1)[OF y0(2)] by (auto simp: log_update_order)
  let ?s1 = "s\<lparr>sy := y1, log_outstanding := 0, log_committing := 1\<rparr>"
  have c1: "held {} y1" "cpu_proc (this_cpu y1) = Some p" using same_cpuD[OF y1(2)] same_cpuD[OF y0(2)] cp(2) by simp_all
  have s1: "logged p ?s1 B" "cache (log_dev ?s1) ?s1 V (pins B) {}"
    using t(1,3) c1 cp cache_sy[of y1 s] by (simp_all add: logged_def ready_def)
  obtain s2 where s2: "commit ?s1 = Ok s2" "bio_step p (?s1\<lparr>lh_n := 0\<rparr>) s2" "logged p s2 []"
      "cache (log_dev s) s2 (apply_writes (tx_writes (log_start s) V B) V) (pins []) {}"
      "disk s2 = apply_writes (tx_writes (log_start s) V B) (disk s)" "dhist s2 = dhist s @ tx_writes (log_start s) V B"
    using commit_any[OF s1 assms(3)] by auto
  have f2: "log_start s2 = log_start s" "log_dev s2 = log_dev s" "log_outstanding s2 = 0"
    using bio_step_log[OF s2(2)] by simp_all
  have c2: "kheld {} s2" "curproc s2 = Some p" "length (ptable s2) = NPROC" using loggedD(1)[OF s2(3)] by (auto simp: ready_def)
  obtain y3 where y3: "kacquire L_log s2 = Ok (s2\<lparr>sy := y3\<rparr>)" "same_cpu {L_log} (sy s2) y3"
    using kacquire_same[OF c2(1)] by auto
  let ?pt = "woken (Some C_log) (Some p) (ptable s2)"
  obtain y4 where y4: "wakeup (Some C_log) (s2\<lparr>sy := y3, log_committing := 0\<rparr>) = Ok (s2\<lparr>sy := y4, ptable := ?pt, log_committing := 0\<rparr>)"
      "same_cpu {L_log} y3 y4"
    using wakeup_held[of "{L_log}" "s2\<lparr>sy := y3, log_committing := 0\<rparr>" "Some C_log"] same_cpuD[OF y3(2)] c2
    by (auto simp: same_cpu_def log_update_order)
  let ?t2 = "s2\<lparr>sy := y4, ptable := ?pt, log_committing := 0\<rparr>"
  obtain y5 where y5: "krelease L_log ?t2 = Ok (s2\<lparr>sy := y5, ptable := ?pt, log_committing := 0\<rparr>)" "same_cpu {} y4 y5"
    using krelease_same[of "{L_log}" ?t2 L_log] same_cpuD(1)[OF y4(2)] by (auto simp: log_update_order sy_first)
  let ?s' = "s2\<lparr>sy := y5, ptable := ?pt, log_committing := 0\<rparr>"
  have c5: "held {} y5" "cpu_proc (this_cpu y5) = Some p"
    using same_cpuD[OF y5(2)] same_cpuD[OF y4(2)] same_cpuD[OF y3(2)] c2(2) by simp_all
  have "end_op s = Ok ?s'"
    using y0(1) y1(1) s2(1) y3(1) y4(1) y5(1) assms(2) t(5) by (simp add: end_op_def Let_def)
  moreover have "logged p ?s' []" using s2(3) c5 cp(3) c2(3) by (simp add: logged_def ready_def)
  moreover have "cache (log_dev s) ?s' (apply_writes (tx_writes (log_start s) V B) V) (pins []) {}"
    using s2(4) cache_woken[OF c2(3,2) cp(3) c5(2)] by blast
  ultimately show ?thesis using f2 s2(5,6) by (intro exI[of _ ?s']) simp
qed

section \<open>The interface for the file system\<close>

text \<open>
  \<open>inside s V B K\<close>: inside a transaction, contents \<open>V\<close>, logged blocks \<open>B\<close>, buffers of \<open>K\<close>
  held; \<open>home\<close> are the blocks outside the log.
\<close>

locale transaction =
  fixes inside :: "'s \<Rightarrow> (u32 \<Rightarrow> block) \<Rightarrow> u32 list \<Rightarrow> u32 set \<Rightarrow> bool"
    and has :: "'s \<Rightarrow> u32 \<Rightarrow> nat \<Rightarrow> bool"
    and content :: "'s \<Rightarrow> nat \<Rightarrow> block"
    and media :: "'s \<Rightarrow> u32 \<Rightarrow> block"
    and frame :: "'s \<Rightarrow> 's \<Rightarrow> bool"
    and home :: "u32 set"
    and capacity :: nat
    and log_size :: nat
    and rd :: "u32 \<Rightarrow> 's \<Rightarrow> (nat \<times> 's) res"
    and put :: "nat \<Rightarrow> block \<Rightarrow> 's \<Rightarrow> 's"
    and lwrite :: "nat \<Rightarrow> 's \<Rightarrow> 's res"
    and rel :: "nat \<Rightarrow> 's \<Rightarrow> 's res"
  assumes frame_trans: "frame s t \<Longrightarrow> frame t u \<Longrightarrow> frame s u"
    and clean: "inside s V B K \<Longrightarrow> n \<notin> set B \<Longrightarrow> n \<notin> K \<Longrightarrow> V n = media s n"
    and rd_law: "inside s V B K \<Longrightarrow> n \<notin> K \<Longrightarrow> n \<in> set B \<or> card (set B \<union> K) < capacity
      \<Longrightarrow> \<exists>b s'. rd n s = Ok (b, s') \<and> frame s s' \<and> inside s' V B (insert n K) \<and> has s' n b \<and> content s' b = V n \<and> media s' = media s
        \<and> (\<forall>m i. m \<in> K \<longrightarrow> has s m i \<longrightarrow> has s' m i)"
    and put_law: "inside s V B K \<Longrightarrow> has s n b \<Longrightarrow> n \<in> K
      \<Longrightarrow> frame s (put b d s) \<and> inside (put b d s) (V(n := d)) B K \<and> media (put b d s) = media s
        \<and> (\<forall>m i. m \<in> K \<longrightarrow> has s m i \<longrightarrow> has (put b d s) m i)"
    and lwrite_law: "inside s V B K \<Longrightarrow> has s n b \<Longrightarrow> n \<in> K \<Longrightarrow> n \<in> home \<Longrightarrow> length B < log_size
      \<Longrightarrow> \<exists>s'. lwrite b s = Ok s' \<and> frame s s' \<and> inside s' V (if n \<in> set B then B else B @ [n]) K \<and> media s' = media s
        \<and> (\<forall>m i. has s m i \<longrightarrow> has s' m i)"
    and rel_law: "inside s V B K \<Longrightarrow> has s n b \<Longrightarrow> n \<in> K \<Longrightarrow> n \<in> set B \<or> V n = media s n
      \<Longrightarrow> \<exists>s'. rel b s = Ok s' \<and> frame s s' \<and> inside s' V B (K - {n}) \<and> media s' = media s
        \<and> (\<forall>m i. m \<in> K \<longrightarrow> has s m i \<longrightarrow> has s' m i)"
begin

text \<open>The block numbers logged after a write of block \<open>n\<close>.\<close>

lemma look:
  assumes "inside s V B K" "n \<notin> K" "n \<in> set B \<or> card (set B \<union> K) < capacity"
  shows "\<exists>b s1 s2. rd n s = Ok (b, s1) \<and> content s1 b = V n \<and> rel b s1 = Ok s2 \<and> frame s s1 \<and> frame s s2 \<and> inside s2 V B K \<and> media s2 = media s
    \<and> (\<forall>m i. m \<in> K \<longrightarrow> has s m i \<longrightarrow> has s2 m i)"
proof -
  obtain b s1 where s1: "rd n s = Ok (b, s1)" "frame s s1" "inside s1 V B (insert n K)" "has s1 n b" "content s1 b = V n" "media s1 = media s"
      "\<forall>m i. m \<in> K \<longrightarrow> has s m i \<longrightarrow> has s1 m i"
    using rd_law[OF assms] by blast
  have "n \<in> set B \<or> V n = media s1 n" using clean[OF assms(1)] assms(2) s1(6) by auto
  then obtain s2 where s2: "rel b s1 = Ok s2" "frame s1 s2" "inside s2 V B (insert n K - {n})" "media s2 = media s1"
      "\<forall>m i. m \<in> insert n K \<longrightarrow> has s1 m i \<longrightarrow> has s2 m i"
    using rel_law[OF s1(3,4)] by blast
  have "insert n K - {n} = K" using assms(2) by blast
  then show ?thesis using s1 s2 frame_trans[OF s1(2) s2(2)] by (intro exI[of _ b] exI[of _ s1] exI[of _ s2]) simp
qed

lemma modify:
  assumes "inside s V B K" "n \<notin> K" "n \<in> set B \<or> card (set B \<union> K) < capacity" "n \<in> home" "length B < log_size"
  shows "\<exists>b s1 s2 s3. rd n s = Ok (b, s1) \<and> content s1 b = V n \<and> lwrite b (put b d s1) = Ok s2 \<and> rel b s2 = Ok s3
    \<and> frame s s1 \<and> frame s s2 \<and> frame s s3 \<and> inside s3 (V(n := d)) (if n \<in> set B then B else B @ [n]) K \<and> media s3 = media s
    \<and> (\<forall>m i. m \<in> K \<longrightarrow> has s m i \<longrightarrow> has s3 m i)"
proof -
  let ?B = "if n \<in> set B then B else B @ [n]"
  obtain b s1 where s1: "rd n s = Ok (b, s1)" "frame s s1" "inside s1 V B (insert n K)" "has s1 n b" "content s1 b = V n" "media s1 = media s"
      "\<forall>m i. m \<in> K \<longrightarrow> has s m i \<longrightarrow> has s1 m i"
    using rd_law[OF assms(1-3)] by blast
  have p: "frame s1 (put b d s1)" "inside (put b d s1) (V(n := d)) B (insert n K)" "has (put b d s1) n b" "media (put b d s1) = media s1"
      "\<forall>m i. m \<in> insert n K \<longrightarrow> has s1 m i \<longrightarrow> has (put b d s1) m i"
    using put_law[OF s1(3,4), of d] s1(4) by auto
  obtain s2 where s2: "lwrite b (put b d s1) = Ok s2" "frame (put b d s1) s2" "inside s2 (V(n := d)) ?B (insert n K)" "has s2 n b"
      "media s2 = media s1" "\<forall>m i. has (put b d s1) m i \<longrightarrow> has s2 m i"
    using lwrite_law[OF p(2,3) _ assms(4,5)] p(3,4) by auto
  have "n \<in> set ?B \<or> (V(n := d)) n = media s2 n" by simp
  then obtain s3 where s3: "rel b s2 = Ok s3" "frame s2 s3" "inside s3 (V(n := d)) ?B (insert n K - {n})" "media s3 = media s2"
      "\<forall>m i. m \<in> insert n K \<longrightarrow> has s2 m i \<longrightarrow> has s3 m i"
    using rel_law[OF s2(3,4)] by blast
  have "insert n K - {n} = K" using assms(2) by blast
  moreover have "frame s s2" using frame_trans[OF s1(2) frame_trans[OF p(1) s2(2)]] .
  moreover have "\<forall>m i. m \<in> K \<longrightarrow> has s m i \<longrightarrow> has s3 m i" using s1(7) p(5) s2(6) s3(5) by blast
  ultimately show ?thesis using s1 s2 s3 frame_trans[OF _ s3(2), of s]
    by (intro exI[of _ b] exI[of _ s1] exI[of _ s2] exI[of _ s3]) simp
qed

end

interpretation txn: transaction "\<lambda>s V B K. tx p s V B K \<and> log_dev s = dv \<and> log_start s = st" "has_block dv" "\<lambda>s b. b_data (the_buf b s)" disk
    log_frame "- log_area st" NBUF LOGBLOCKS "bread dv" "\<lambda>b d. upd_buf b (b_data_update (\<lambda>_. d))" log_write brelse
  for p dv st
proof (unfold_locales, goal_cases)
  case (1 s t u)
  then show ?case by (rule log_frame_trans)
next
  case (2 s V B K n)
  then show ?case using tx_clean by blast
next
  case (3 s V B K n)
  then obtain b s' where *: "bread dv n s = Ok (b, s')" "bio_step p s s'" "tx p s' V B (insert n K)" "has_block dv s' n b"
      "b_data (the_buf b s') = V n" "disk s' = disk s" "\<forall>m i. m \<in> K \<longrightarrow> has_block dv s m i \<longrightarrow> has_block dv s' m i"
    using tx_bread[of p s V B K n] by blast
  then show ?case using 3(1) bio_step_frame[OF *(2)] bio_step_log(1,2)[OF *(2)]
    by (intro exI[of _ b] exI[of _ s']) simp
next
  case (4 s V B K n b d)
  then show ?case using tx_put[where p = p and s = s and V = V and B = B and K = K and n = n and b = b and d = d] bio_step_frame by (auto simp: upd_buf_def)
next
  case (5 s V B K n b)
  then show ?case using tx_log_write[of p s V B K n b] by auto
next
  case (6 s V B K n b)
  then obtain s' where *: "brelse b s = Ok s'" "bio_step p s s'" "tx p s' V B (K - {n})" "disk s' = disk s"
      "\<forall>m i. m \<in> K \<longrightarrow> has_block dv s m i \<longrightarrow> has_block dv s' m i"
    using tx_brelse[of p s V B K n b] by blast
  then show ?case using 6(1) bio_step_frame[OF *(2)] bio_step_log(1,2)[OF *(2)] by (intro exI[of _ s']) simp
qed

section \<open>Properties\<close>

lemma tx_writes_home:
  assumes "logged p s B" "m \<notin> log_area (log_start s)" "m \<notin> set B \<Longrightarrow> V m = D m"
  shows "apply_writes (tx_writes (log_start s) V B) D m = V m"
  using assms(2,3) apply_view[of V B] log_writes_home[OF assms(2) loggedD(4)[OF assms(1)]] home_not_log(1)[OF assms(2)]
  by (simp add: tx_writes_def commit_writes_def)

lemma tx_writes_prefix:
  assumes "tx p s V B {}" "length (disk s (log_start s)) = BSIZE" "get32 0 (disk s (log_start s)) = 0"
    "E = apply_writes (take k (tx_writes (log_start s) V B)) (disk s)"
  shows "head_ok (log_start s) (E (log_start s)) \<and> length (head_blocks (E (log_start s))) \<le> length B
    \<and> (\<forall>m. m \<notin> log_area (log_start s) \<longrightarrow> recovered (log_start s) E m = (if k \<le> length B then disk s m else V m))"
proof -
  note t = txD[OF assms(1)]
  have B: "distinct B" "set B \<inter> log_area (log_start s) = {}" "length B \<le> LOGBLOCKS" using t(1) by (simp_all add: logged_def)
  have clean: "V m = disk s m" if "m \<notin> set B" for m using tx_clean[OF assms(1) that] by simp
  have "log_start s \<notin> set B" using B(2) log_area_mem(2) by blast
  then have st: "V (log_start s) = disk s (log_start s)" using clean by blast
  show ?thesis
  proof (cases "B = []")
    case True
    then have E: "E = disk s" using assms(4) by (simp add: tx_writes_def)
    have "head_blocks (E (log_start s)) = []" "head_ok (log_start s) (E (log_start s))" using assms(2,3) E by (simp_all add: head_ok_def head_blocks_def)
    then show ?thesis using recovered_other[of _ "log_start s" E] clean E True by simp
  next
    case False
    then show ?thesis using commit_prefix[where V = V and D = "disk s" and start = "log_start s", OF B st clean assms(2,3)] assms(4) by (simp add: tx_writes_def)
  qed
qed


lemma all_pinned:
  assumes "cache dv s V (pins B) {}" "distinct B" "length B = NBUF" "i < NBUF"
  shows "b_blockno (the_buf i s) \<in> set B" "b_refcnt (the_buf i s) \<noteq> 0"
proof -
  define g where "g m = (SOME i. has_block dv s m i)" for m
  have g: "has_block dv s m (g m)" if "m \<in> set B" for m
  proof -
    have "pins B m \<noteq> 0" using that by (simp add: pins_def)
    then have "\<not> (\<forall>i. \<not> has_block dv s m i)" using cacheD(4)[OF assms(1), of m] by auto
    then have "\<exists>i. has_block dv s m i" by blast
    then show ?thesis unfolding g_def by (rule someI_ex)
  qed
  have "inj_on g (set B)" using g by (intro inj_onI) (metis has_block_def)
  then have "card (g ` set B) = NBUF" using assms(2,3) by (simp add: card_image distinct_card)
  moreover have "g ` set B \<subseteq> {..<NBUF}" using g by (auto simp: has_block_def)
  ultimately have "g ` set B = {..<NBUF}" by (intro card_subset_eq) simp_all
  then obtain m where m: "m \<in> set B" "i = g m" using assms(4) by blast
  note h = has_block_buf_ok[OF assms(1) g[OF m(1)]]
  show "b_blockno (the_buf i s) \<in> set B" "b_refcnt (the_buf i s) \<noteq> 0" using h(4,5) m by (auto simp: pins_def)
qed

text \<open>
  C29. The log is as large as the buffer cache. A transaction that fills the log (LOGBLOCKS
  blocks, which begin_op and log_write allow) pins all NBUF buffers, so end_op finds no
  buffer for the first log block and panics instead of committing.
\<close>

theorem end_op_full_log_panics:
  assumes "tx p s V B {}" "log_outstanding s = 1" "length B = LOGBLOCKS"
  shows "end_op s = Panic ''bget: no buffers''"
proof -
  note t = txD[OF assms(1)]
  note l = loggedD[OF t(1)]
  have cp: "kheld {} s" "curproc s = Some p" using t(2) by (auto simp: ready_def)
  obtain y0 where y0: "kacquire L_log s = Ok (s\<lparr>sy := y0\<rparr>)" "same_cpu {L_log} (sy s) y0"
    using kacquire_same[OF cp(1)] by auto
  let ?t = "s\<lparr>sy := y0, log_outstanding := 0, log_committing := 1\<rparr>"
  obtain y1 where y1: "krelease L_log ?t = Ok (s\<lparr>sy := y1, log_outstanding := 0, log_committing := 1\<rparr>)" "same_cpu {} y0 y1"
    using krelease_same[of "{L_log}" ?t L_log] same_cpuD(1)[OF y0(2)] by (auto simp: log_update_order)
  let ?s1 = "s\<lparr>sy := y1, log_outstanding := 0, log_committing := 1\<rparr>"
  have c1: "held {} y1" "cpu_proc (this_cpu y1) = Some p" using same_cpuD[OF y1(2)] same_cpuD[OF y0(2)] cp(2) by simp_all
  have s1: "logged p ?s1 B" "cache (log_dev s) ?s1 V (pins B) {}"
    using t(1,3) c1 cp cache_sy[of y1 s] by (simp_all add: logged_def ready_def)
  have n: "nat (sint (lh_n s)) = LOGBLOCKS" "0 < sint (lh_n s)"
    using l(2) assms(3) by (simp, simp add: LOGBLOCKS_def MAXOPBLOCKS_def)
  have "bread (log_dev s) (log_block (log_start s) 0) ?s1 = Panic ''bget: no buffers''"
  proof (rule bread_no_buffers[OF loggedD(1)[OF s1(1)] s1(2)])
    have "log_block (log_start s) 0 \<notin> set B"
      using t(1) log_area_mem(1)[of 0] unfolding logged_def by (auto simp: LOGBLOCKS_def MAXOPBLOCKS_def)
    then show "\<not> has_block (log_dev s) ?s1 (log_block (log_start s) 0) i" for i
      using all_pinned(1)[OF s1(2) l(5), of i] assms(3) by (auto simp: has_block_def NBUF_def LOGBLOCKS_def)
    show "b_refcnt (the_buf i ?s1) \<noteq> 0" if "i < NBUF" for i
      using all_pinned(2)[OF s1(2) l(5) _ that] assms(3) by (simp add: NBUF_def LOGBLOCKS_def)
  qed
  then have "commit ?s1 = Panic ''bget: no buffers''"
    using n by (simp add: commit_def write_log_def write_log_one_def log_block_def upt_conv_Cons LOGBLOCKS_def MAXOPBLOCKS_def)
  then show ?thesis using y0(1) y1(1) assms(2) t(5) by (simp add: end_op_def Let_def)
qed

section \<open>A running log\<close>

text \<open>A machine after binit and initlog on an empty disk with the log at block 2, and transactions on it.\<close>

definition cold_log :: log_state where
  "cold_log = bio_state.extend (binit cold_bufs) (log_state.fields 0 0 0 0 0 (replicate LOGBLOCKS 0))"

lemma cache_cong:
  assumes "bufs s' = bufs s" "slocks s' = slocks s" "disk s' = disk s" "mypid s' = mypid s"
  shows "cache dv s' V R K \<longleftrightarrow> cache dv s V R K"
  by (simp add: cache_def buf_ok_def has_block_def assms)

lemma cold_log_fields:
  "disk cold_log = (\<lambda>_. replicate BSIZE 0)" "lh_block cold_log = replicate LOGBLOCKS 0" "log_outstanding cold_log = 0" "log_committing cold_log = 0"
  "ready 0 cold_log" "cache 1 cold_log (disk cold_log) (pins []) {}"
proof -
  have d: "disk cold_bufs = (\<lambda>_. replicate BSIZE 0)"
    by (simp add: cold_bufs_def sleep_state.extend_def bio_state.fields_def)
  have "disk (binit cold_bufs) = disk cold_bufs" by (rule binit_cache(3)[OF cold_bufs_ready cold_bufs_bufs])
  then show dk: "disk cold_log = (\<lambda>_. replicate BSIZE 0)" using d by (simp add: cold_log_def bio_state.extend_def log_state.fields_def)
  show "lh_block cold_log = replicate LOGBLOCKS 0" "log_outstanding cold_log = 0" "log_committing cold_log = 0"
    by (simp_all add: cold_log_def bio_state.extend_def log_state.fields_def)
  show "ready 0 cold_log" using cold_cache(1) by (simp add: cold_log_def bio_state.extend_def log_state.fields_def ready_def)
  have "pins [] = (\<lambda>_. 0)" by (simp add: pins_def fun_eq_iff)
  then show "cache 1 cold_log (disk cold_log) (pins []) {}"
    using cold_cache(2) d dk cache_cong[of cold_log "binit cold_bufs" 1]
    by (simp add: cold_log_def bio_state.extend_def log_state.fields_def)
qed

lemma running_log: "\<exists>s. initlog 1 2 cold_log = Ok s \<and> idle 0 s \<and> log_start s = 2 \<and> log_dev s = 1"
proof -
  have z: "get32 0 (replicate BSIZE 0) = 0" by (simp add: get32_def BSIZE_def)
  have hb: "head_blocks (replicate BSIZE 0) = []" using z by (simp add: head_blocks_def)
  then have "head_ok 2 (replicate BSIZE 0)" using z by (simp add: head_ok_def)
  then obtain s where s: "initlog 1 2 cold_log = Ok s" "logged 0 s []" "cache 1 s (disk s) (pins []) {}" "log_start s = 2" "log_dev s = 1"
      "log_outstanding s = 0" "log_committing s = 0" "disk s = apply_writes (recovery_writes 2 (disk cold_log)) (disk cold_log)"
    using initlog_spec[of 0 cold_log 1 2] cold_log_fields hb by (auto simp: NBUF_def MAXOPBLOCKS_def)
  have "disk s 2 = enc_head [] (replicate BSIZE 0)"
    using s(8) cold_log_fields(1) hb by (simp add: recovery_writes_def home_writes_def)
  then have "length (disk s 2) = BSIZE" "get32 0 (disk s 2) = 0" using enc_head_fields(1)[of "replicate BSIZE 0" "[]"] by simp_all
  then show ?thesis using s by (intro exI[of _ s]) (simp add: idle_def)
qed

lemma log_many:
  fixes s :: "'z log_state_scheme"
  assumes "idle p s" "log_start s = 2" "n \<le> 30"
  shows "\<exists>(t :: 'z log_state_scheme) V. tx p t V (map of_nat [100..<100 + n]) {} \<and> log_outstanding t = 1 \<and> log_start t = 2 \<and> disk t = disk s"
  using assms(3)
proof (induction n)
  case 0
  obtain z where "tx p (s\<lparr>sy := z, log_outstanding := 1\<rparr>) (disk s) [] {}" using begin_op_spec[OF assms(1)] by blast
  then show ?case using assms(2) by (intro exI[of _ "s\<lparr>sy := z, log_outstanding := 1\<rparr>"]) auto
next
  case (Suc n)
  let ?B = "map of_nat [100..<100 + n] :: u32 list"
  obtain t :: "'z log_state_scheme" and V where t: "tx p t V ?B {}" "log_outstanding t = 1" "log_start t = 2" "disk t = disk s" using Suc by auto
  have inj: "(of_nat i :: u32) = of_nat j \<longleftrightarrow> i = j" if "i < 200" "j < 200" for i j
    using that by (simp add: word_unat_eq_iff unat_of_nat take_bit_nat_eq_self)
  have new: "(of_nat (100 + n) :: u32) \<notin> set ?B"
  proof
    assume "(of_nat (100 + n) :: u32) \<in> set ?B"
    then obtain x where "x < 100 + n" "(of_nat (100 + n) :: u32) = of_nat x" by (auto simp del: of_nat_add)
    then show False using inj[of "100 + n" x] Suc.prems by simp
  qed
  have "of_nat (100 + n) \<noteq> log_block 2 i" if "i < LOGBLOCKS" for i
    using inj[of "100 + n" "i + 3"] that Suc.prems by (simp add: log_block_def LOGBLOCKS_def MAXOPBLOCKS_def algebra_simps)
  moreover have "(of_nat (100 + n) :: u32) \<noteq> 2" using inj[of "100 + n" 2] Suc.prems by simp
  ultimately have home: "of_nat (100 + n) \<in> - log_area 2" by (auto simp: log_area_def)
  have "card (set ?B) < NBUF" using card_length[of ?B] Suc.prems by (simp add: NBUF_def MAXOPBLOCKS_def)
  then obtain b s1 s2 s3 where "log_frame t s3" "tx p s3 (V(of_nat (100 + n) := [])) (?B @ [of_nat (100 + n)]) {}" "log_start s3 = 2" "disk s3 = disk t"
    using txn.modify[of p t V ?B "{}" "log_dev t" 2 "of_nat (100 + n)" "[]"] t(1,3) home new Suc.prems by (auto simp: LOGBLOCKS_def MAXOPBLOCKS_def)
  moreover have "map of_nat [100..<100 + Suc n] = ?B @ [of_nat (100 + n)]"
    using upt_Suc_append[OF le_add1[of 100 n]] by (simp only: add_Suc_right map_append list.map)
  ultimately show ?case using t(2,4) log_frame_log[of t s3] by (intro exI[of _ s3] exI[of _ "V(of_nat (100 + n) := [])"]) (simp only:)
qed


theorem end_op_full_log_panics_witness:
  "\<exists>s :: log_state. log_outstanding s = 1 \<and> log_committing s = 0 \<and> end_op s = Panic ''bget: no buffers''"
proof -
  obtain s0 :: log_state where s0: "idle 0 s0" "log_start s0 = 2" using running_log by blast
  obtain s :: log_state and V where s: "tx 0 s V (map of_nat [100..<130]) {}" "log_outstanding s = 1"
    using log_many[OF s0, of 30] by auto
  then show ?thesis using end_op_full_log_panics[OF s] txD(5)[OF s(1)] by (intro exI[of _ s]) (simp add: LOGBLOCKS_def MAXOPBLOCKS_def)
qed

end
