(* ===== verification/Pipe_Transfer.thy ===== *)
theory Pipe_Transfer
  imports Pipe_Fifo Log_Tx
begin

text \<open>
  The properties of pipes: the ring buffer refines a bounded queue, bytes come out in the order
  they went in, and what the calls return when an end is closed.
\<close>

text \<open>A run of puts and gets, and the same run on a list of at most \<open>PIPESIZE\<close> bytes.\<close>

datatype fifo_op = Put u8 | Get

primrec ring_run :: "fifo_op list \<Rightarrow> pipe \<Rightarrow> u8 option list \<times> pipe" where
  "ring_run [] p = ([], p)"
| "ring_run (x # xs) p =
     (let (r, p) = (case x of
          Put ch \<Rightarrow> if pipe_full p then (None, p) else (Some ch, pipe_put ch p)
        | Get \<Rightarrow> if pipe_empty p then (None, p) else (let (ch, p) = pipe_get p in (Some ch, p)));
        (rs, p) = ring_run xs p
      in (r # rs, p))"

primrec queue_run :: "fifo_op list \<Rightarrow> u8 list \<Rightarrow> u8 option list \<times> u8 list" where
  "queue_run [] q = ([], q)"
| "queue_run (x # xs) q =
     (let (r, q) = (case x of
          Put ch \<Rightarrow> if length q = PIPESIZE then (None, q) else (Some ch, q @ [ch])
        | Get \<Rightarrow> if q = [] then (None, q) else (Some (hd q), tl q));
        (rs, q) = queue_run xs q
      in (r # rs, q))"

text \<open>
  C17. The ring buffer of a pipe refines a bounded queue of bytes. Whatever sequence of puts and gets is made on it,
  with the guards of pipewrite() and piperead(), each answers what the same operation on a
  list of at most PIPESIZE bytes answers, and the bytes in the buffer are that list at the end. The counters
  nread and nwrite may have any values, so this holds across their wrap at 2^32.
\<close>

theorem pipe_ring_refines_queue:
  assumes "pipe_ok p"
  shows "queue_run ops (pipe_items p) = (fst (ring_run ops p), pipe_items (snd (ring_run ops p)))
    \<and> pipe_ok (snd (ring_run ops p)) \<and> length (pipe_items (snd (ring_run ops p))) \<le> PIPESIZE"
  using assms
proof (induction ops arbitrary: p)
  case Nil
  then show ?case using ring.bounded by simp
next
  case (Cons x ops)
  show ?case
  proof (cases x)
    case (Put ch)
    then show ?thesis
      using Cons.IH[OF Cons.prems] Cons.IH[of "pipe_put ch p"] ring.full_iff[OF Cons.prems] ring.put_law[OF Cons.prems, of ch]
      by (cases "pipe_full p") (auto simp: split_beta)
  next
    case Get
    then show ?thesis
      using Cons.IH[OF Cons.prems] Cons.IH[of "snd (pipe_get p)"] ring.empty_iff[OF Cons.prems] ring.get_law[OF Cons.prems]
      by (cases "pipe_empty p") (auto simp: split_beta)
  qed
qed

theorem pipe_ring_refines_queue_witness:
  "fst (ring_run [Put 7, Put 8, Get, Get, Get] \<lparr>pi_data = replicate 512 0, pi_nread = - 1, pi_nwrite = - 1, pi_readopen = 1, pi_writeopen = 1\<rparr>)
    = [Some 7, Some 8, Some 7, Some 8, None]"
  using pipe_ring_refines_queue[of "\<lparr>pi_data = replicate 512 0, pi_nread = - 1, pi_nwrite = - 1, pi_readopen = 1, pi_writeopen = 1\<rparr>"
      "[Put 7, Put 8, Get, Get, Get]"]
  by (simp add: pipe_ok_def pipe_items_def PIPESIZE_def prod_eq_iff del: ring_run.simps)

text \<open>
  C16. Bytes come out of a pipe in the order they went in. A process with the end for reading open writes n bytes
  from user memory into a pipe that has room for them: pipewrite() takes them all. A
  read of m bytes then returns the oldest bytes of the pipe, as many as there are and at most m, leaves the rest,
  and puts the bytes into the user's buffer in order.
\<close>

theorem pipe_write_read:
  assumes "in_pipe {} p L T F s" "0 < sint n" "0 \<le> sint m"
    "user_range L (T \<union> F) src (nat (sint n))" "user_range L (T \<union> F) dst (nat (sint m))"
    "\<And>j. j < nat (sint n) \<Longrightarrow> k_ch s \<noteq> user_pa L (src + of_nat j)" "\<And>j. j < nat (sint m) \<Longrightarrow> k_ch s \<noteq> user_pa L (dst + of_nat j)"
    "pi_readopen (pipes s pi) \<noteq> 0" "pipe_ok (pipes s pi)" "length (pipe_items (pipes s pi)) + nat (sint n) \<le> PIPESIZE"
    "items = pipe_items (pipes s pi) @ map (\<lambda>j. mem s (user_pa L (src + of_nat j))) [0..<nat (sint n)]"
    "c = min (nat (sint m)) (length items)"
  shows "\<exists>s1 s2. pipewrite pi src n s = Ok (n, s1) \<and> pipe_items (pipes s1 pi) = items
    \<and> piperead pi dst m s1 = Ok (of_nat c, s2) \<and> pipe_items (pipes s2 pi) = drop c items
    \<and> (\<forall>j < c. mem s2 (user_pa L (dst + of_nat j)) = items ! j)"
proof -
  obtain s1 where s1: "pipewrite pi src n s = Ok (n, s1)" "in_pipe {} p L T F s1" "k_ch s1 = k_ch s" "pipe_ok (pipes s1 pi)"
      "pipe_items (pipes s1 pi) = items"
    using pipewrite_spec[OF assms(1) less_imp_le[OF assms(2)] assms(4,6,8,9,10)] assms(11) by auto
  have "j < nat (sint m) \<Longrightarrow> k_ch s1 \<noteq> user_pa L (dst + of_nat j)" for j using assms(7) s1(3) by simp
  moreover have "pipe_items (pipes s1 pi) \<noteq> [] \<or> pi_writeopen (pipes s1 pi) = 0" using s1(5) assms(2,11) by simp
  moreover have "c = min (nat (sint m)) (length (pipe_items (pipes s1 pi)))" using assms(12) s1(5) by simp
  ultimately obtain s2 where "piperead pi dst m s1 = Ok (of_nat c, s2)" "pipe_items (pipes s2 pi) = drop c (pipe_items (pipes s1 pi))"
      "\<forall>j < c. mem s2 (user_pa L (dst + of_nat j)) = pipe_items (pipes s1 pi) ! j"
    using piperead_spec[OF s1(2) assms(3,5) _ _ s1(4)] by blast
  with s1 show ?thesis by auto
qed

text \<open>A process with one user page and an empty pipe.\<close>

definition pipe_user :: pipe_state where
  "pipe_user = log_state.extend (cold_log\<lparr>mem := mem one_user_page, freelist := freelist one_user_page, pool_buf := pool_buf one_user_page,
       pool_n := pool_n one_user_page, ld_end := ld_end one_user_page, ptable := (ptable cold_log)[0 := (ptable cold_log ! 0)\<lparr>p_pagetable := 0x80040000, p_killed := 0\<rparr>]\<rparr>)
     (pipe_state.fields (\<lambda>_. \<lparr>pi_data = replicate 512 0, pi_nread = 0, pi_nwrite = 0, pi_readopen = 1, pi_writeopen = 1\<rparr>) 0x80009000)"

lemma pt_map_fields:
  assumes "pt_map s pt L T F" "kmem_ready s'" "mem s' = mem s" "freelist s' = freelist s" "pool_buf s' = pool_buf s" "pool_n s' = pool_n s" "ld_end s' = ld_end s"
  shows "pt_map s' pt L T F"
  using assms(1) by (simp add: pt_map_def vm_rep_def kmem_pages_def kmem_rep_def valid_page_def assms(2-))

lemma pipe_user_in: "in_pipe {} 0 one_user_map {0x80040000, 0x80041000, 0x80042000} {0x80031000, 0x80032000, 0x80030000} pipe_user"
proof -
  have k: "kheld {} pipe_user" "curproc pipe_user = Some 0" "length (ptable pipe_user) = NPROC"
    using cold_log_fields(5) by (simp_all add: ready_def pipe_user_def log_state.extend_def pipe_state.fields_def)
  have p: "p_killed (the_proc 0 pipe_user) = 0" "p_pagetable (the_proc 0 pipe_user) = 0x80040000"
    using k(3) by (simp_all add: NPROC_def pipe_user_def log_state.extend_def pipe_state.fields_def)
  have "kmem_ready pipe_user" using k(1) by (intro held_kmem_ready[of "{}"]) simp_all
  then have "pt_map pipe_user 0x80040000 one_user_map {0x80040000, 0x80041000, 0x80042000} {0x80031000, 0x80032000, 0x80030000}"
    by (rule pt_map_fields[OF one_user_page_table]) (simp_all add: pipe_user_def log_state.extend_def pipe_state.fields_def)
  then show ?thesis using k p by (auto simp: in_pipe_def pipe_user_def log_state.extend_def pipe_state.fields_def NPROC_def in_region_def)
qed

theorem pipe_write_read_witness:
  "\<exists>s1 s2. pipewrite 0x80050000 0x10 3 pipe_user = Ok (3, s1) \<and> piperead 0x80050000 0x100 2 s1 = Ok (2, s2)
    \<and> mem s2 0x80043101 = mem pipe_user 0x80043011"
proof -
  let ?R = "{0x80040000, 0x80041000, 0x80042000} \<union> {0x80031000, 0x80032000, 0x80030000} :: u64 set"
  let ?i = "pipe_items (pipes pipe_user 0x80050000) @ map (\<lambda>j. mem pipe_user (user_pa one_user_map (0x10 + of_nat j))) [0..<nat (sint (3 :: i32))]"
  have ur: "user_range one_user_map ?R 0x10 (nat (sint (3 :: i32)))" "user_range one_user_map ?R 0x100 (nat (sint (2 :: i32)))"
    by (rule one_user_range, simp)+
  have pa: "user_pa one_user_map (0x10 + of_nat i) = 0x80043000 + of_nat (16 + i)" "user_pa one_user_map (0x100 + of_nat i) = 0x80043000 + of_nat (256 + i)"
    if "i < 3" for i
    using one_user_range(2)[of "0x10" 3 i] one_user_range(2)[of "0x100" 3 i] that by simp_all
  have pu: "k_ch pipe_user = 0x80009000"
      "pipes pipe_user 0x80050000 = \<lparr>pi_data = replicate 512 0, pi_nread = 0, pi_nwrite = 0, pi_readopen = 1, pi_writeopen = 1\<rparr>"
    by (simp_all add: pipe_user_def log_state.extend_def pipe_state.fields_def)
  have i3: "i = 0 \<or> i = 1 \<or> i = 2" if "i < 3" for i :: nat using that by auto
  have far: "j < nat (sint (3 :: i32)) \<Longrightarrow> k_ch pipe_user \<noteq> user_pa one_user_map (0x10 + of_nat j)"
      "j < nat (sint (2 :: i32)) \<Longrightarrow> k_ch pipe_user \<noteq> user_pa one_user_map (0x100 + of_nat j)" for j
    using i3[of j] unfolding pu by (auto simp: pa)
  have pre: "pi_readopen (pipes pipe_user 0x80050000) \<noteq> 0" "pipe_ok (pipes pipe_user 0x80050000)"
      "length (pipe_items (pipes pipe_user 0x80050000)) + nat (sint (3 :: i32)) \<le> PIPESIZE" "0 < sint (3 :: i32)" "0 \<le> sint (2 :: i32)"
    unfolding pu by (simp_all add: pipe_ok_def pipe_items_def PIPESIZE_def)
  have len: "min (nat (sint (2 :: i32))) (length ?i) = 2" by simp
  obtain s1 s2 where "pipewrite 0x80050000 0x10 3 pipe_user = Ok (3, s1)" "piperead 0x80050000 0x100 2 s1 = Ok (of_nat 2, s2)"
      "\<forall>j < 2. mem s2 (user_pa one_user_map (0x100 + of_nat j)) = ?i ! j"
    using pipe_write_read[OF pipe_user_in pre(4,5) ur far pre(1-3) refl refl] unfolding len by blast
  moreover from this(3)[rule_format, of 1] have "mem s2 (user_pa one_user_map (0x100 + of_nat 1)) = ?i ! 1" by simp
  then have "mem s2 0x80043101 = mem pipe_user 0x80043011"
    using pa[of 1] by (simp add: pu pipe_items_def)
  ultimately show ?thesis by auto
qed

text \<open>
  C33. A pipe with an end closed. When the end for reading is closed, pipewrite() of at
  least one byte returns -1 and the pipe keeps its bytes. When the end for writing is closed
  and the pipe is empty, piperead() returns 0 for end of file and does not wait.
\<close>

theorem pipe_closed_ends:
  assumes "in_pipe {} p L T F s" "0 < sint n" "pipe_ok (pipes s pi)"
  shows "(pi_readopen (pipes s pi) = 0 \<longrightarrow> (\<exists>s'. pipewrite pi addr n s = Ok (- 1, s') \<and> pipes s' = pipes s))
    \<and> (pi_writeopen (pipes s pi) = 0 \<and> pipe_items (pipes s pi) = []
        \<longrightarrow> (\<exists>s'. piperead pi addr n s = Ok (0, s') \<and> pipes s' = pipes s \<and> mem s' = mem s))"
proof (intro conjI impI; (elim conjE)?)
  assume c: "pi_readopen (pipes s pi) = 0"
  obtain k where k: "nat (sint n) = Suc k" using assms(2) by (cases "nat (sint n)") auto
  obtain y where y: "pipewrite_start pi addr n s = pipewrite_loop (Some p) pi addr (Suc k) 0 (s\<lparr>sy := y\<rparr>)"
      "in_pipe {L_pipe pi} p L T F (s\<lparr>sy := y\<rparr>)"
    using pipe_enter[OF assms(1), of pi "\<lambda>pr. pipewrite_loop pr pi addr (nat (sint n)) 0"] unfolding pipewrite_start_def k by blast
  obtain z where "krelease (L_pipe pi) (s\<lparr>sy := y\<rparr>) = Ok (s\<lparr>sy := z\<rparr>)"
    using krelease_same[OF in_pipeD(1)[OF y(2)], of "L_pipe pi"] by auto
  then show "\<exists>s'. pipewrite pi addr n s = Ok (- 1, s') \<and> pipes s' = pipes s"
    using y(1) c by (simp add: pipewrite_def pipe_now_def)
next
  assume c: "pi_writeopen (pipes s pi) = 0" "pipe_items (pipes s pi) = []"
  obtain y where y: "piperead_start pi addr n s = piperead_loop (Some p) pi addr (nat (sint n)) (s\<lparr>sy := y\<rparr>)"
      "in_pipe {L_pipe pi} p L T F (s\<lparr>sy := y\<rparr>)"
    using pipe_enter[OF assms(1), of pi "\<lambda>pr. piperead_loop pr pi addr (nat (sint n))"] unfolding piperead_start_def by blast
  have "piperead_loop (Some p) pi addr (nat (sint n)) (s\<lparr>sy := y\<rparr>) = piperead_copy (Some p) pi addr (nat (sint n)) 0 (s\<lparr>sy := y\<rparr>)"
    using c(1) by (simp add: piperead_loop_def)
  then show "\<exists>s'. piperead pi addr n s = Ok (0, s') \<and> pipes s' = pipes s \<and> mem s' = mem s"
    using y piperead_done[OF y(2), of "nat (sint n)" addr 0] c assms(3) by (auto simp: piperead_def pipe_now_def)
qed

lemma pipe_user_close:
  "in_pipe {} 0 one_user_map {0x80040000, 0x80041000, 0x80042000} {0x80031000, 0x80032000, 0x80030000} (pipe_user\<lparr>pipes := ps\<rparr>)"
proof -
  have "in_pipe {} 0 one_user_map {0x80040000, 0x80041000, 0x80042000} {0x80031000, 0x80032000, 0x80030000}
      (pipe_user\<lparr>sy := sy pipe_user, mem := mem pipe_user, pipes := ps\<rparr>)"
    by (rule in_pipe_mem[OF pipe_user_in]) (use in_pipeD(1)[OF pipe_user_in] in \<open>simp_all add: same_cpu_def\<close>)
  then show ?thesis by simp
qed

theorem pipe_closed_ends_witness:
  "\<exists>s s1 s2. pi_readopen (pipes s 0x80050000) = 0 \<and> pipewrite 0x80050000 0 5 s = Ok (- 1, s1)
    \<and> piperead 0x80050000 0 5 s = Ok (0, s2) \<and> pipes s2 = pipes (s :: pipe_state)"
proof -
  let ?p = "\<lparr>pi_data = replicate 512 0, pi_nread = 0, pi_nwrite = 0, pi_readopen = 0, pi_writeopen = 0\<rparr> :: pipe"
  have "pipe_ok ?p" "pipe_items ?p = []" by (simp_all add: pipe_ok_def pipe_items_def PIPESIZE_def)
  then have "(\<exists>s'. pipewrite 0x80050000 0 5 (pipe_user\<lparr>pipes := \<lambda>_. ?p\<rparr>) = Ok (- 1, s'))
      \<and> (\<exists>s'. piperead 0x80050000 0 5 (pipe_user\<lparr>pipes := \<lambda>_. ?p\<rparr>) = Ok (0, s') \<and> pipes s' = (\<lambda>_. ?p))"
    using pipe_closed_ends[OF pipe_user_close[of "\<lambda>_. ?p"], of 5 "0x80050000" 0] by auto
  then obtain s1 s2 where "pipewrite 0x80050000 0 5 (pipe_user\<lparr>pipes := \<lambda>_. ?p\<rparr>) = Ok (- 1, s1)"
      "piperead 0x80050000 0 5 (pipe_user\<lparr>pipes := \<lambda>_. ?p\<rparr>) = Ok (0, s2)" "pipes s2 = (\<lambda>_. ?p)" by blast
  then show ?thesis by (intro exI[of _ "pipe_user\<lparr>pipes := \<lambda>_. ?p\<rparr>"] exI[of _ s1] exI[of _ s2]) simp
qed

end
