(* ===== verification/Console.thy ===== *)
theory Console
  imports Prelude
begin

text \<open>
  kernel/driver/uart.c and kernel/driver/console.c. The 16550a UART is outside the kernel: the
  values its line status and receive registers will deliver are an input of the model
  (\<open>lsr_reads\<close>, \<open>rhr_reads\<close>), the bytes written to its transmit register are the output
  (\<open>tx_bytes\<close>). A wait for a bit that no further read delivers hangs.

  A C string is the list of its bytes before the terminating NUL.
\<close>

section \<open>The UART\<close>

record uart =
  lsr_reads :: "u8 list"
  rhr_reads :: "u8 list"
  tx_bytes :: "u8 list"

definition LSR_RX_READY :: u8 where "LSR_RX_READY = push_bit 0 1"
definition LSR_TX_IDLE :: u8 where "LSR_TX_IDLE = push_bit 5 1"

text \<open>\<open>while ((ReadReg(LSR) & LSR_TX_IDLE) == 0);\<close>\<close>

primrec tx_wait :: "u8 list \<Rightarrow> u8 list option" where
  "tx_wait [] = None"
| "tx_wait (v # vs) = (if v AND LSR_TX_IDLE = 0 then tx_wait vs else Some vs)"

definition uart_putc :: "u8 \<Rightarrow> uart \<Rightarrow> uart res" where
  "uart_putc c u =
     (case tx_wait (lsr_reads u) of
        None \<Rightarrow> Hang
      | Some vs \<Rightarrow> Ok (u\<lparr>lsr_reads := vs, tx_bytes := tx_bytes u @ [c]\<rparr>))"

primrec uart_puts :: "u8 list \<Rightarrow> uart \<Rightarrow> uart res" where
  "uart_puts [] u = Ok u"
| "uart_puts (c # cs) u = bind_res (uart_putc c u) (uart_puts cs)"

definition uart_getc :: "uart \<Rightarrow> (i32 \<times> uart) res" where
  "uart_getc u =
     (case lsr_reads u of
        [] \<Rightarrow> Hang
      | v # vs \<Rightarrow>
          let u = u\<lparr>lsr_reads := vs\<rparr> in
          if v AND LSR_RX_READY \<noteq> 0
          then (case rhr_reads u of [] \<Rightarrow> Hang | c # cs \<Rightarrow> Ok (ucast c, u\<lparr>rhr_reads := cs\<rparr>))
          else Ok (- 1, u))"

section \<open>The console\<close>

definition BACKSPACE :: i32 where "BACKSPACE = 0x100"

definition console_putc :: "i32 \<Rightarrow> uart \<Rightarrow> uart res" where
  "console_putc c u =
     (if c = BACKSPACE
      then bind_res (uart_putc 8 u) (\<lambda>u. bind_res (uart_putc 32 u) (uart_putc 8))
      else uart_putc (ucast c) u)"

primrec console_puts :: "u8 list \<Rightarrow> uart \<Rightarrow> uart res" where
  "console_puts [] u = Ok u"
| "console_puts (c # cs) u = bind_res (console_putc (ucast c) u) (console_puts cs)"

definition clear_screen :: "uart \<Rightarrow> uart res" where
  "clear_screen u =
     bind_res (console_puts [0x1b, 0x5b, 0x32, 0x4a] u) (console_puts [0x1b, 0x5b, 0x48])"

section \<open>Sending to a UART that is ready\<close>

text \<open>
  The UART accepts at least \<open>n\<close> more bytes: \<open>n\<close> of the coming reads of the line status
  register have the idle bit.
\<close>

definition accepts :: "nat \<Rightarrow> uart \<Rightarrow> bool" where
  "accepts n u \<longleftrightarrow> n \<le> length (filter (\<lambda>v. v AND LSR_TX_IDLE \<noteq> 0) (lsr_reads u))"

lemma tx_wait_accepts:
  "0 < length (filter (\<lambda>v. v AND LSR_TX_IDLE \<noteq> 0) vs) \<Longrightarrow>
    \<exists>ws. tx_wait vs = Some ws \<and> length (filter (\<lambda>v. v AND LSR_TX_IDLE \<noteq> 0) vs) = Suc (length (filter (\<lambda>v. v AND LSR_TX_IDLE \<noteq> 0) ws))"
  by (induction vs) auto

lemma uart_putc_accepts:
  assumes "accepts (Suc n) u"
  shows "\<exists>u'. uart_putc c u = Ok u' \<and> tx_bytes u' = tx_bytes u @ [c] \<and> accepts n u'"
proof -
  obtain ws where ws: "tx_wait (lsr_reads u) = Some ws"
      "length (filter (\<lambda>v. v AND LSR_TX_IDLE \<noteq> 0) (lsr_reads u)) = Suc (length (filter (\<lambda>v. v AND LSR_TX_IDLE \<noteq> 0) ws))"
    using tx_wait_accepts[of "lsr_reads u"] assms unfolding accepts_def by force
  then show ?thesis using assms by (simp add: uart_putc_def accepts_def)
qed

lemma console_putc_byte: "console_putc (ucast (c :: u8)) u = uart_putc c u"
proof -
  have "(ucast c :: i32) \<noteq> BACKSPACE"
  proof
    assume "(ucast c :: i32) = BACKSPACE"
    then have "unat (ucast c :: i32) = 256" by (simp add: BACKSPACE_def)
    moreover have "unat (ucast c :: i32) = unat c"
      using unat_u8_less[of c] by (simp add: unsigned_ucast_eq take_bit_nat_eq_self_iff)
    ultimately show False using unat_u8_less[of c] by simp
  qed
  moreover have "(ucast (ucast c :: i32) :: u8) = c" by (rule bit_word_eqI) (simp add: bit_simps)
  ultimately show ?thesis by (simp add: console_putc_def)
qed

text \<open>\<open>console_puts\<close> sends the bytes of the string, in order.\<close>

lemma console_puts_accepts:
  "accepts (length cs + n) u \<Longrightarrow> \<exists>u'. console_puts cs u = Ok u' \<and> tx_bytes u' = tx_bytes u @ cs \<and> accepts n u'"
proof (induction cs arbitrary: u)
  case (Cons c cs)
  then obtain u1 where "uart_putc c u = Ok u1" "tx_bytes u1 = tx_bytes u @ [c]" "accepts (length cs + n) u1"
    using uart_putc_accepts[of "length cs + n" u c] by auto
  then show ?case using Cons.IH[of u1] by (auto simp: console_putc_byte)
qed simp

lemma console_puts_no_panic: "console_puts cs u \<noteq> Panic e"
proof (induction cs arbitrary: u)
  case (Cons c cs)
  then show ?case by (auto simp: console_putc_byte uart_putc_def split: option.splits)
qed simp

lemma accepts_le: "accepts n u \<Longrightarrow> m \<le> n \<Longrightarrow> accepts m u"
  by (simp add: accepts_def)

end
