(* ===== verification/Printf.thy ===== *)
theory Printf
  imports Console
begin

text \<open>
  kernel/lib/printf.c: \<open>print_int\<close>, \<open>print_ptr\<close> and the formatted output of \<open>printf\<close>, which
  send their bytes to the console. A store outside \<open>buf[20]\<close> of \<open>print_int\<close>, or an argument
  the caller did not pass, is undefined in C; the model ends there with \<open>Panic ''undefined''\<close>.

  The variable arguments are a list of eight-byte slots or strings. The negation \<open>-xx\<close> wraps.
\<close>

section \<open>Numbers\<close>

definition digits :: "u8 list" where
  "digits = [0x30, 0x31, 0x32, 0x33, 0x34, 0x35, 0x36, 0x37, 0x38, 0x39, 0x61, 0x62, 0x63, 0x64, 0x65, 0x66, 0]"

definition digit :: "u64 \<Rightarrow> u8 res" where
  "digit i = (if unat i < length digits then Ok (digits ! unat i) else Panic ''undefined'')"

definition PRINT_BUF :: nat where "PRINT_BUF = 20"

text \<open>
  \<open>do buf[i++] = digits[x % base]; while ((x /= base) != 0);\<close> with \<open>r\<close> bytes of \<open>buf\<close> left.
\<close>

primrec digit_loop :: "nat \<Rightarrow> u64 \<Rightarrow> u64 \<Rightarrow> u8 list \<Rightarrow> u8 list res" where
  "digit_loop 0 base x buf = Panic ''undefined''"
| "digit_loop (Suc r) base x buf =
     bind_res (digit (x mod base)) (\<lambda>c.
     if x div base \<noteq> 0 then digit_loop r base (x div base) (buf @ [c]) else Ok (buf @ [c]))"

definition print_int :: "u64 \<Rightarrow> i32 \<Rightarrow> i32 \<Rightarrow> uart \<Rightarrow> uart res" where
  "print_int xx base sg u =
     (let neg = sg \<noteq> 0 \<and> sint xx < 0;
          x = (if neg then - xx else xx)
      in bind_res (digit_loop PRINT_BUF (scast base) x []) (\<lambda>buf.
         bind_res (if neg
                   then if length buf < PRINT_BUF then Ok (buf @ [0x2d]) else Panic ''undefined''
                   else Ok buf) (\<lambda>buf.
         console_puts (rev buf) u)))"

primrec ptr_loop :: "nat \<Rightarrow> u64 \<Rightarrow> uart \<Rightarrow> uart res" where
  "ptr_loop 0 x u = Ok u"
| "ptr_loop (Suc k) x u =
     bind_res (digit (drop_bit 60 x)) (\<lambda>c.
     bind_res (console_putc (ucast c) u) (\<lambda>u.
     ptr_loop k (push_bit 4 x) u))"

definition print_ptr :: "u64 \<Rightarrow> uart \<Rightarrow> uart res" where
  "print_ptr x u =
     bind_res (console_putc 0x30 u) (\<lambda>u.
     bind_res (console_putc 0x78 u) (\<lambda>u.
     ptr_loop 16 x u))"

section \<open>Formats\<close>

datatype varg = Slot u64 | Str "u8 list option"

datatype conversion =
    Int_d | Long_d | Int_u | Long_u | Int_x | Long_x | Ptr_p | Char_c | Str_s | Percent | End_of_format | Unknown u8

text \<open>The tests of \<open>c0\<close>, \<open>c1\<close>, \<open>c2\<close> in order, with what the branch adds to \<open>i\<close>.\<close>

definition conversion :: "u8 \<Rightarrow> u8 \<Rightarrow> u8 \<Rightarrow> conversion \<times> nat" where
  "conversion c0 c1 c2 =
     (if c0 = 0x64 then (Int_d, 0)
      else if c0 = 0x6c \<and> c1 = 0x64 then (Long_d, 1)
      else if c0 = 0x6c \<and> c1 = 0x6c \<and> c2 = 0x64 then (Long_d, 0)
      else if c0 = 0x75 then (Int_u, 0)
      else if c0 = 0x6c \<and> c1 = 0x75 then (Long_u, 1)
      else if c0 = 0x6c \<and> c1 = 0x6c \<and> c2 = 0x75 then (Long_u, 2)
      else if c0 = 0x78 then (Int_x, 0)
      else if c0 = 0x6c \<and> c1 = 0x78 then (Long_x, 1)
      else if c0 = 0x6c \<and> c1 = 0x6c \<and> c2 = 0x78 then (Long_x, 2)
      else if c0 = 0x70 then (Ptr_p, 0)
      else if c0 = 0x63 then (Char_c, 0)
      else if c0 = 0x73 then (Str_s, 0)
      else if c0 = 0x25 then (Percent, 0)
      else if c0 = 0 then (End_of_format, 0)
      else (Unknown c0, 0))"

text \<open>\<open>va_arg\<close> for a number and for a string.\<close>

definition va_slot :: "varg list \<Rightarrow> (u64 \<times> varg list) res" where
  "va_slot ap = (case ap of Slot v # ap \<Rightarrow> Ok (v, ap) | _ \<Rightarrow> Panic ''undefined'')"

definition va_str :: "varg list \<Rightarrow> (u8 list option \<times> varg list) res" where
  "va_str ap = (case ap of Str s # ap \<Rightarrow> Ok (s, ap) | _ \<Rightarrow> Panic ''undefined'')"

definition print_conversion :: "conversion \<Rightarrow> varg list \<Rightarrow> uart \<Rightarrow> (varg list \<times> uart) res" where
  "print_conversion cv ap u =
     (let num = (\<lambda>f base sg. bind_res (va_slot ap) (\<lambda>(v, ap). bind_res (print_int (f v) base sg u) (\<lambda>u. Ok (ap, u))))
      in case cv of
        Int_d \<Rightarrow> num (\<lambda>v. scast (ucast v :: i32)) 10 1
      | Long_d \<Rightarrow> num (\<lambda>v. v) 10 1
      | Int_u \<Rightarrow> num (\<lambda>v. ucast (ucast v :: u32)) 10 0
      | Long_u \<Rightarrow> num (\<lambda>v. v) 10 0
      | Int_x \<Rightarrow> num (\<lambda>v. ucast (ucast v :: u32)) 16 0
      | Long_x \<Rightarrow> num (\<lambda>v. v) 16 0
      | Ptr_p \<Rightarrow> bind_res (va_slot ap) (\<lambda>(v, ap). bind_res (print_ptr v u) (\<lambda>u. Ok (ap, u)))
      | Char_c \<Rightarrow> bind_res (va_slot ap) (\<lambda>(v, ap). bind_res (console_putc (ucast v) u) (\<lambda>u. Ok (ap, u)))
      | Str_s \<Rightarrow>
          bind_res (va_str ap) (\<lambda>(s, ap).
          let bytes = (case s of None \<Rightarrow> [0x28, 0x6e, 0x75, 0x6c, 0x6c, 0x29] | Some bytes \<Rightarrow> bytes)
          in bind_res (console_puts bytes u) (\<lambda>u. Ok (ap, u)))
      | Percent \<Rightarrow> bind_res (console_putc 0x25 u) (\<lambda>u. Ok (ap, u))
      | End_of_format \<Rightarrow> Ok (ap, u)
      | Unknown c \<Rightarrow> bind_res (console_putc 0x25 u) (\<lambda>u. bind_res (console_putc (ucast c) u) (\<lambda>u. Ok (ap, u))))"

text \<open>The byte at index \<open>i\<close> of the rest of the format, the NUL included.\<close>

definition fmt_at :: "u8 list \<Rightarrow> nat \<Rightarrow> u8" where
  "fmt_at fmt i = (if i < length fmt then fmt ! i else 0)"

function printf_loop :: "u8 list \<Rightarrow> varg list \<Rightarrow> uart \<Rightarrow> uart res" where
  "printf_loop fmt ap u =
     (case fmt of
        [] \<Rightarrow> Ok u
      | cx # fmt \<Rightarrow>
          if cx \<noteq> 0x25 then bind_res (console_putc (ucast cx) u) (printf_loop fmt ap)
          else
            let c0 = fmt_at fmt 0;
                c1 = (if c0 \<noteq> 0 then fmt_at fmt 1 else 0);
                c2 = (if c1 \<noteq> 0 then fmt_at fmt 2 else 0);
                (cv, k) = conversion c0 c1 c2
            in if cv = End_of_format then Ok u
               else bind_res (print_conversion cv ap u) (\<lambda>(ap, u). printf_loop (drop (Suc k) fmt) ap u))"
  by pat_completeness auto
termination
  by (relation "measure (\<lambda>(fmt, ap, u). length fmt)") auto

declare printf_loop.simps [simp del]

definition printf :: "u8 list \<Rightarrow> varg list \<Rightarrow> uart \<Rightarrow> (i32 \<times> uart) res" where
  "printf fmt ap u = bind_res (printf_loop fmt ap u) (\<lambda>u. Ok (0, u))"

section \<open>What the numbers print as\<close>

text \<open>Reading the digits back.\<close>

definition digit_value :: "u8 \<Rightarrow> nat" where
  "digit_value c = (if c \<le> 0x39 then unat c - 48 else unat c - 87)"

definition read_digits :: "nat \<Rightarrow> u8 list \<Rightarrow> nat" where
  "read_digits b cs = fold (\<lambda>c n. n * b + digit_value c) cs 0"

definition read_int :: "u8 list \<Rightarrow> int" where
  "read_int cs = (if cs \<noteq> [] \<and> hd cs = 0x2d then - int (read_digits 10 (tl cs)) else int (read_digits 10 cs))"

lemma read_digits_snoc: "read_digits b (cs @ [c]) = read_digits b cs * b + digit_value c"
  by (simp add: read_digits_def)

lemma digit_ok:
  assumes "unat i < 16"
  shows "\<exists>c. digit i = Ok c \<and> digit_value c = unat i \<and> c \<noteq> 0x2d"
proof -
  have "\<forall>k \<in> set [0..<16]. digit_value (digits ! k) = k \<and> digits ! k \<noteq> 0x2d" by code_simp
  then have "digit_value (digits ! unat i) = unat i \<and> digits ! unat i \<noteq> 0x2d" using assms by simp
  then show ?thesis using assms by (simp add: digit_def digits_def)
qed

lemma digit_loop_spec:
  assumes "unat base = b" "2 \<le> b" "b \<le> 16" "unat x < b ^ r" "0 < r" "r \<le> n"
  shows "\<exists>ds. digit_loop n base x buf = Ok (buf @ ds) \<and> ds \<noteq> [] \<and> length ds \<le> r
    \<and> read_digits b (rev ds) = unat x \<and> 0x2d \<notin> set ds"
  using assms(4-6)
proof (induction n arbitrary: x r buf)
  case (Suc n)
  have "unat (x mod base) < 16" using assms(1-3) by (simp add: unat_mod_distrib less_le_trans[of _ b])
  then obtain c where c: "digit (x mod base) = Ok c" "digit_value c = unat x mod b" "c \<noteq> 0x2d"
    using digit_ok[of "x mod base"] assms(1) by (auto simp: unat_mod_distrib)
  have d: "unat (x div base) = unat x div b" using assms(1) by (simp add: unat_div_distrib)
  show ?case
  proof (cases "x div base = 0")
    case True
    then have "unat x div b = 0" using d by simp
    then have "unat x < b" using assms(2) by (simp add: div_eq_0_iff)
    then show ?thesis using True c Suc.prems(2) by (intro exI[of _ "[c]"]) (simp add: read_digits_def)
  next
    case False
    then have "unat x div b \<noteq> 0" using d by (metis unat_eq_0)
    then have "b \<le> unat x" using assms(2) by (simp add: div_eq_0_iff)
    then have "b ^ 1 < b ^ r" using Suc.prems(1) by simp
    then have r: "1 < r" by (metis assms(2) nat_power_less_imp_less less_le_trans zero_less_numeral)
    have "unat x < b * b ^ (r - 1)" using Suc.prems(1) r by (metis less_trans zero_less_one power_eq_if not_less_zero)
    then have "unat x div b < b ^ (r - 1)" using assms(2) by (simp add: less_mult_imp_div_less mult.commute)
    moreover have "r - 1 \<le> n" using Suc.prems(3) by simp
    ultimately obtain ds where ds: "digit_loop n base (x div base) (buf @ [c]) = Ok ((buf @ [c]) @ ds)" "ds \<noteq> []" "length ds \<le> r - 1"
        "read_digits b (rev ds) = unat x div b" "0x2d \<notin> set ds"
      using Suc.IH[of "x div base" "r - 1" "buf @ [c]"] r d by auto
    then show ?thesis using False c r by (intro exI[of _ "c # ds"]) (auto simp: read_digits_snoc)
  qed
qed simp

lemma magnitude:
  assumes "sint (xx :: u64) < 0"
  shows "int (unat (- xx)) = - sint xx" "- sint xx \<le> 2 ^ 63"
proof -
  have "uint (of_int (- sint xx) :: u64) = (- sint xx) mod 2 ^ 64" by (simp only: uint_word_of_int) simp
  then have "uint (- xx) = (- sint xx) mod 2 ^ 64" by simp
  moreover show le: "- sint xx \<le> 2 ^ 63" using sint_ge[of xx] by simp
  ultimately show "int (unat (- xx)) = - sint xx" using assms by simp
qed

lemma nonneg_sint:
  assumes "\<not> sint (xx :: u64) < 0"
  shows "sint xx = uint xx"
proof -
  have "uint (of_int (sint xx) :: u64) = sint xx mod 2 ^ 64" by (simp only: uint_word_of_int) simp
  then show ?thesis using assms sint_lt[of xx] by simp
qed

lemma print_buf_spec:
  assumes "base = 10 \<or> base = 16" "b = unat base"
  shows "\<exists>bs. print_int xx base sg u = console_puts bs u \<and> length bs \<le> PRINT_BUF
    \<and> (if sg \<noteq> 0 \<and> sint xx < 0 then hd bs = 0x2d \<and> read_digits b (tl bs) = unat (- xx) \<and> bs \<noteq> []
       else read_digits b bs = unat xx \<and> 0x2d \<notin> set bs)"
proof -
  have b: "unat (scast base :: u64) = b" "2 \<le> b" "b \<le> 16" "10 \<le> b" using assms by auto
  show ?thesis
  proof (cases "sg \<noteq> 0 \<and> sint xx < 0")
    case True
    have "int (unat (- xx)) \<le> int (2 ^ 63)" using magnitude[of xx] True by simp
    then have "unat (- xx) \<le> 2 ^ 63" by (simp only: of_nat_le_iff)
    also have "2 ^ 63 < (10 ^ 19 :: nat)" by simp
    finally have "unat (- xx) < 10 ^ 19" .
    also have "10 ^ 19 \<le> b ^ 19" using b(4) by (intro power_mono) simp_all
    finally obtain ds where "digit_loop PRINT_BUF (scast base) (- xx) [] = Ok ([] @ ds)" "ds \<noteq> []" "length ds \<le> 19" "read_digits b (rev ds) = unat (- xx)"
      using digit_loop_spec[OF b(1-3), of "- xx" 19 PRINT_BUF "[]"] by (auto simp: PRINT_BUF_def)
    then show ?thesis using True by (intro exI[of _ "0x2d # rev ds"]) (simp add: print_int_def PRINT_BUF_def)
  next
    case False
    have "unat xx < 10 ^ 20" using unat_u64_less[of xx] by simp
    also have "10 ^ 20 \<le> b ^ 20" using b(4) by (intro power_mono) simp_all
    finally obtain ds where "digit_loop PRINT_BUF (scast base) xx [] = Ok ([] @ ds)" "ds \<noteq> []" "length ds \<le> 20" "read_digits b (rev ds) = unat xx" "0x2d \<notin> set ds"
      using digit_loop_spec[OF b(1-3), of xx 20 PRINT_BUF "[]"] by (auto simp: PRINT_BUF_def)
    then show ?thesis using False by (intro exI[of _ "rev ds"]) (auto simp: print_int_def PRINT_BUF_def)
  qed
qed

text \<open>On a UART that accepts the bytes.\<close>

lemma print_buf_sent:
  assumes "accepts (PRINT_BUF + n) u" "length bs \<le> PRINT_BUF"
  shows "\<exists>u'. console_puts bs u = Ok u' \<and> tx_bytes u' = tx_bytes u @ bs \<and> accepts n u'"
  using console_puts_accepts[of bs n u] accepts_le[OF assms(1), of "length bs + n"] assms(2) by simp

lemma print_int_sent:
  assumes "accepts (PRINT_BUF + n) u"
  shows "\<exists>u' bs. print_int xx 10 sg u = Ok u' \<and> tx_bytes u' = tx_bytes u @ bs \<and> accepts n u'
    \<and> read_int bs = (if sg = 0 then uint xx else sint xx)"
proof -
  obtain bs where bs: "print_int xx 10 sg u = console_puts bs u" "length bs \<le> PRINT_BUF"
      "if sg \<noteq> 0 \<and> sint xx < 0 then hd bs = 0x2d \<and> read_digits 10 (tl bs) = unat (- xx) \<and> bs \<noteq> []
       else read_digits 10 bs = unat xx \<and> 0x2d \<notin> set bs"
    using print_buf_spec[of 10 10 xx sg u] by simp blast
  have "read_int bs = (if sg = 0 then uint xx else sint xx)"
  proof (cases "sg \<noteq> 0 \<and> sint xx < 0")
    case True
    then show ?thesis using bs(3) magnitude(1)[of xx] by (simp add: read_int_def)
  next
    case False
    then have "read_int bs = uint xx" using bs(3) by (cases bs) (auto simp: read_int_def)
    then show ?thesis using False nonneg_sint[of xx] by auto
  qed
  then show ?thesis using bs(1) print_buf_sent[OF assms bs(2)] by auto
qed

lemma print_hex_sent:
  assumes "accepts PRINT_BUF u"
  shows "\<exists>u' bs. print_int xx 16 0 u = Ok u' \<and> tx_bytes u' = tx_bytes u @ bs \<and> read_digits 16 bs = unat xx"
proof -
  obtain bs where "print_int xx 16 0 u = console_puts bs u" "length bs \<le> PRINT_BUF" "read_digits 16 bs = unat xx"
    using print_buf_spec[of 16 16 xx 0 u] by (simp only: simp_thms if_False) auto
  then show ?thesis using print_buf_sent[of 0 u bs] assms by auto
qed

section \<open>Properties\<close>





lemma printf_text: "0x25 \<notin> set fmt \<Longrightarrow> printf_loop fmt ap = console_puts fmt"
proof (induction fmt)
  case (Cons c fmt)
  then show ?case by (intro ext) (simp add: printf_loop.simps[of "c # fmt"])
qed (simp add: fun_eq_iff printf_loop.simps)

text \<open>
  The branch for \<open>%lld\<close> does not advance over the two characters after the first \<open>l\<close>: after the number,
  the letters \<open>ld\<close> of the format are printed as text.
\<close>

theorem printf_lld_prints_ld:
  assumes "accepts (PRINT_BUF + Suc (Suc 0)) u"
  shows "\<exists>u' bs. printf [0x25, 0x6c, 0x6c, 0x64] [Slot v] u = Ok (0, u') \<and> tx_bytes u' = tx_bytes u @ bs @ [0x6c, 0x64] \<and> read_int bs = sint v"
proof -
  obtain u1 bs where u1: "print_int v 10 1 u = Ok u1" "tx_bytes u1 = tx_bytes u @ bs" "read_int bs = sint v" "accepts (Suc (Suc 0)) u1"
    using print_int_sent[OF assms, of v 1] by auto
  obtain u2 where u2: "console_puts [0x6c, 0x64] u1 = Ok u2" "tx_bytes u2 = tx_bytes u1 @ [0x6c, 0x64]"
    using console_puts_accepts[of "[0x6c, 0x64]" 0 u1] u1(4) by auto
  have "printf_loop [0x25, 0x6c, 0x6c, 0x64] [Slot v] u = console_puts [0x6c, 0x64] u1"
    using u1(1) by (simp add: printf_loop.simps fmt_at_def conversion_def print_conversion_def va_slot_def printf_text)
  then show ?thesis using u1 u2 by (simp add: printf_def)
qed

end
