(* ===== verification/Fs.thy ===== *)
theory Fs
  imports Pipe
begin

text \<open>
  kernel/fs/fs.c up to the directories: the super block, the bitmap of free blocks, inodes on
  disk and in the inode table, and the content of files. Every change of a block goes
  through \<open>log_write\<close>.

  An inode pointer is an index into \<open>itable.inode[]\<close>, null is \<open>None\<close>. A block number
  or a loop index that would overflow a C \<open>int\<close>, and an access outside an array, end with
  \<open>Panic ''undefined''\<close>. The data of buffer \<open>b\<close> is at the address \<open>k_bdata b\<close>; it is put there
  while the kernel copies from or to it. The lines \<open>balloc\<close> and \<open>ialloc\<close> print when they
  fail are left out.
\<close>

section \<open>State\<close>

definition ROOTINO :: u32 where "ROOTINO = 1"
definition FSMAGIC :: u32 where "FSMAGIC = 0x10203040"
definition NDIRECT :: nat where "NDIRECT = 12"
definition NINDIRECT :: nat where "NINDIRECT = BSIZE div 4"
definition MAXFILE :: nat where "MAXFILE = NDIRECT + NINDIRECT"
definition T_DIR :: u16 where "T_DIR = 1"
definition T_FILE :: u16 where "T_FILE = 2"
definition T_DEVICE :: u16 where "T_DEVICE = 3"
definition NINODE :: nat where "NINODE = 50"
definition ROOTDEV :: u32 where "ROOTDEV = 1"

record superblock =
  sb_magic :: u32
  sb_size :: u32
  sb_nblocks :: u32
  sb_ninodes :: u32
  sb_nlog :: u32
  sb_logstart :: u32
  sb_inodestart :: u32
  sb_bmapstart :: u32

record inode =
  i_dev :: u32
  i_inum :: u32
  i_ref :: i32
  i_valid :: i32
  i_type :: u16
  i_major :: u16
  i_minor :: u16
  i_nlink :: u16
  i_size :: u32
  i_addrs :: "u32 list"

record fs_state = pipe_state +
  sb :: superblock
  itable :: "inode list"
  k_bdata :: "nat \<Rightarrow> u64"
  k_de :: u64
  k_de_link :: u64
  k_namei :: u64

abbreviation the_inode :: "nat \<Rightarrow> 'z fs_state_scheme \<Rightarrow> inode" where
  "the_inode i s \<equiv> itable s ! i"

definition upd_inode :: "nat \<Rightarrow> (inode \<Rightarrow> inode) \<Rightarrow> 'z fs_state_scheme \<Rightarrow> 'z fs_state_scheme" where
  "upd_inode i f s = s\<lparr>itable := (itable s)[i := f (itable s ! i)]\<rparr>"

section \<open>The super block\<close>

definition superblock_at :: "block \<Rightarrow> superblock" where
  "superblock_at d = \<lparr>sb_magic = get32 0 d, sb_size = get32 4 d, sb_nblocks = get32 8 d, sb_ninodes = get32 12 d,
     sb_nlog = get32 16 d, sb_logstart = get32 20 d, sb_inodestart = get32 24 d, sb_bmapstart = get32 28 d\<rparr>"

definition readsb :: "i32 \<Rightarrow> 'z fs_state_scheme \<Rightarrow> 'z fs_state_scheme res" where
  "readsb dev s =
     bind_res (bread dev 1 s) (\<lambda>(bp, s).
     brelse bp (s\<lparr>sb := superblock_at (b_data (the_buf bp s))\<rparr>))"

definition fsinit :: "i32 \<Rightarrow> 'z fs_state_scheme \<Rightarrow> 'z fs_state_scheme res" where
  "fsinit dev s =
     bind_res (readsb dev s) (\<lambda>s.
     if sb_magic (sb s) \<noteq> FSMAGIC then Panic ''invalid file system''
     else initlog dev (sb_logstart (sb s)) s)"

section \<open>Blocks\<close>

definition bzero :: "u32 \<Rightarrow> u32 \<Rightarrow> 'z fs_state_scheme \<Rightarrow> 'z fs_state_scheme res" where
  "bzero dev bno s =
     bind_res (bread dev bno s) (\<lambda>(bp, s).
     bind_res (log_write bp (upd_buf bp (b_data_update (\<lambda>_. replicate BSIZE 0)) s)) (\<lambda>s.
     brelse bp s))"

definition BPB :: nat where "BPB = BSIZE * 8"

definition BBLOCK :: "u32 \<Rightarrow> superblock \<Rightarrow> u32" where
  "BBLOCK b sbk = b div of_nat BPB + sb_bmapstart sbk"

text \<open>The bit of block \<open>bi\<close> in the data of a bitmap block: tested, set, cleared.\<close>

definition bit_mask :: "nat \<Rightarrow> u8" where
  "bit_mask bi = push_bit (bi mod 8) 1"

definition bit_clear :: "nat \<Rightarrow> block \<Rightarrow> bool" where
  "bit_clear bi d \<longleftrightarrow> d ! (bi div 8) AND bit_mask bi = 0"

definition mark_used :: "nat \<Rightarrow> block \<Rightarrow> block" where
  "mark_used bi d = d[bi div 8 := d ! (bi div 8) OR bit_mask bi]"

definition mark_free :: "nat \<Rightarrow> block \<Rightarrow> block" where
  "mark_free bi d = d[bi div 8 := d ! (bi div 8) AND NOT (bit_mask bi)]"

text \<open>The inner loop of \<open>balloc\<close>: the first clear bit among the next \<open>k\<close>.\<close>

primrec first_clear :: "block \<Rightarrow> nat \<Rightarrow> nat \<Rightarrow> nat option" where
  "first_clear d bi 0 = None"
| "first_clear d bi (Suc k) = (if bit_clear bi d then Some bi else first_clear d (Suc bi) k)"

text \<open>The outer loop: \<open>b\<close> steps over the first blocks of the bitmap blocks.\<close>

primrec balloc_loop :: "u32 \<Rightarrow> nat list \<Rightarrow> 'z fs_state_scheme \<Rightarrow> (u32 \<times> 'z fs_state_scheme) res" where
  "balloc_loop dev [] s = Ok (0, s)"
| "balloc_loop dev (b # bs) s =
     (if 2 ^ 31 \<le> b then Panic ''undefined''
      else
        bind_res (bread dev (BBLOCK (of_nat b) (sb s)) s) (\<lambda>(bp, s).
        case first_clear (b_data (the_buf bp s)) 0 (min BPB (unat (sb_size (sb s)) - b)) of
          Some bi \<Rightarrow>
            bind_res (log_write bp (upd_buf bp (b_data_update (mark_used bi)) s)) (\<lambda>s.
            bind_res (brelse bp s) (\<lambda>s.
            bind_res (bzero dev (of_nat (b + bi)) s) (\<lambda>s.
            Ok (of_nat (b + bi), s))))
        | None \<Rightarrow> bind_res (brelse bp s) (balloc_loop dev bs)))"

definition bitmap_starts :: "nat \<Rightarrow> nat list" where
  "bitmap_starts n = map (\<lambda>i. BPB * i) [0..<(n + BPB - 1) div BPB]"

definition balloc :: "u32 \<Rightarrow> 'z fs_state_scheme \<Rightarrow> (u32 \<times> 'z fs_state_scheme) res" where
  "balloc dev s = balloc_loop dev (bitmap_starts (unat (sb_size (sb s)))) s"

definition bfree :: "u32 \<Rightarrow> u32 \<Rightarrow> 'z fs_state_scheme \<Rightarrow> 'z fs_state_scheme res" where
  "bfree dev b s =
     bind_res (bread dev (BBLOCK b (sb s)) s) (\<lambda>(bp, s).
     let bi = unat b mod BPB in
     if bit_clear bi (b_data (the_buf bp s)) then Panic ''freeing free block''
     else
       bind_res (log_write bp (upd_buf bp (b_data_update (mark_free bi)) s)) (\<lambda>s.
       brelse bp s))"

section \<open>Inodes\<close>

definition iinit :: "'z fs_state_scheme \<Rightarrow> 'z fs_state_scheme" where
  "iinit s =
     fold (\<lambda>i. initsleeplock (SL_inode i) ''inode'') [0..<NINODE]
       (s\<lparr>sy := initlock L_itable ''itable'' (sy s)\<rparr>)"

text \<open>\<open>struct dinode\<close>: 64 bytes, 16 to a block.\<close>

definition DINODE_SIZE :: nat where "DINODE_SIZE = 64"
definition IPB :: nat where "IPB = BSIZE div DINODE_SIZE"

definition IBLOCK :: "u32 \<Rightarrow> superblock \<Rightarrow> u32" where
  "IBLOCK i sbk = i div of_nat IPB + sb_inodestart sbk"

text \<open>The offset of \<open>dip\<close> in the block, and of a direct or indirect block number in the inode.\<close>

definition dinode_off :: "u32 \<Rightarrow> nat" where
  "dinode_off inum = DINODE_SIZE * (unat inum mod IPB)"

definition zero_dinode :: "nat \<Rightarrow> block \<Rightarrow> block" where
  "zero_dinode f d = take f d @ replicate DINODE_SIZE 0 @ drop (f + DINODE_SIZE) d"

definition get_addrs :: "nat \<Rightarrow> block \<Rightarrow> u32 list" where
  "get_addrs f d = map (\<lambda>i. get32 (f + 12 + 4 * i) d) [0..<NDIRECT + 1]"

definition put_addrs :: "nat \<Rightarrow> u32 list \<Rightarrow> block \<Rightarrow> block" where
  "put_addrs f as d = fold (\<lambda>i. put32 (f + 12 + 4 * i) (as ! i)) [0..<NDIRECT + 1] d"

text \<open>The assignments of \<open>iupdate\<close> and of \<open>ilock\<close>.\<close>

definition put_inode :: "nat \<Rightarrow> inode \<Rightarrow> block \<Rightarrow> block" where
  "put_inode f ip d =
     put_addrs f (i_addrs ip) (put32 (f + 8) (i_size ip) (put16 (f + 6) (i_nlink ip)
       (put16 (f + 4) (i_minor ip) (put16 (f + 2) (i_major ip) (put16 f (i_type ip) d)))))"

definition get_inode :: "nat \<Rightarrow> block \<Rightarrow> inode \<Rightarrow> inode" where
  "get_inode f d ip =
     ip\<lparr>i_type := get16 f d, i_major := get16 (f + 2) d, i_minor := get16 (f + 4) d, i_nlink := get16 (f + 6) d,
        i_size := get32 (f + 8) d, i_addrs := get_addrs f d\<rparr>"

definition iget_find :: "u32 \<Rightarrow> u32 \<Rightarrow> inode list \<Rightarrow> nat option" where
  "iget_find dev inum tab =
     find (\<lambda>i. 0 < sint (i_ref (tab ! i)) \<and> i_dev (tab ! i) = dev \<and> i_inum (tab ! i) = inum) [0..<NINODE]"

definition iget_empty :: "inode list \<Rightarrow> nat option" where
  "iget_empty tab = find (\<lambda>i. i_ref (tab ! i) = 0) [0..<NINODE]"

definition iget :: "u32 \<Rightarrow> u32 \<Rightarrow> 'z fs_state_scheme \<Rightarrow> (nat \<times> 'z fs_state_scheme) res" where
  "iget dev inum s =
     bind_res (kacquire L_itable s) (\<lambda>s.
     case iget_find dev inum (itable s) of
       Some i \<Rightarrow> bind_res (krelease L_itable (upd_inode i (\<lambda>ip. ip\<lparr>i_ref := i_ref ip + 1\<rparr>) s)) (\<lambda>s. Ok (i, s))
     | None \<Rightarrow>
         (case iget_empty (itable s) of
            None \<Rightarrow> Panic ''iget: no inodes''
          | Some i \<Rightarrow>
              bind_res (krelease L_itable
                (upd_inode i (\<lambda>ip. ip\<lparr>i_dev := dev, i_inum := inum, i_ref := 1, i_valid := 0\<rparr>) s)) (\<lambda>s. Ok (i, s))))"

primrec ialloc_loop :: "u32 \<Rightarrow> u16 \<Rightarrow> nat list \<Rightarrow> 'z fs_state_scheme \<Rightarrow> (nat option \<times> 'z fs_state_scheme) res" where
  "ialloc_loop dev typ [] s = Ok (None, s)"
| "ialloc_loop dev typ (inum # is) s =
     (if 2 ^ 31 \<le> inum then Panic ''undefined''
      else
        bind_res (bread dev (IBLOCK (of_nat inum) (sb s)) s) (\<lambda>(bp, s).
        let f = dinode_off (of_nat inum) in
        if get16 f (b_data (the_buf bp s)) = 0
        then
          bind_res (log_write bp (upd_buf bp (b_data_update (\<lambda>d. put16 f typ (zero_dinode f d))) s)) (\<lambda>s.
          bind_res (brelse bp s) (\<lambda>s.
          bind_res (iget dev (of_nat inum) s) (\<lambda>(i, s). Ok (Some i, s))))
        else bind_res (brelse bp s) (ialloc_loop dev typ is)))"

definition ialloc :: "u32 \<Rightarrow> u16 \<Rightarrow> 'z fs_state_scheme \<Rightarrow> (nat option \<times> 'z fs_state_scheme) res" where
  "ialloc dev typ s = ialloc_loop dev typ [1..<unat (sb_ninodes (sb s))] s"

definition iupdate :: "nat \<Rightarrow> 'z fs_state_scheme \<Rightarrow> 'z fs_state_scheme res" where
  "iupdate i s =
     (let ip = the_inode i s in
      bind_res (bread (i_dev ip) (IBLOCK (i_inum ip) (sb s)) s) (\<lambda>(bp, s).
      bind_res (log_write bp (upd_buf bp (b_data_update (put_inode (dinode_off (i_inum ip)) (the_inode i s))) s)) (\<lambda>s.
      brelse bp s)))"

definition idup :: "nat \<Rightarrow> 'z fs_state_scheme \<Rightarrow> (nat \<times> 'z fs_state_scheme) res" where
  "idup i s =
     bind_res (kacquire L_itable s) (\<lambda>s.
     bind_res (krelease L_itable (upd_inode i (\<lambda>ip. ip\<lparr>i_ref := i_ref ip + 1\<rparr>) s)) (\<lambda>s.
     Ok (i, s)))"

text \<open>\<open>ilock\<close>, entered with the sleep lock of the inode held.\<close>

definition ilock_read :: "nat \<Rightarrow> 'z fs_state_scheme \<Rightarrow> 'z fs_state_scheme res" where
  "ilock_read i s =
     (if i_valid (the_inode i s) \<noteq> 0 then Ok s
      else
        let ip = the_inode i s in
        bind_res (bread (i_dev ip) (IBLOCK (i_inum ip) (sb s)) s) (\<lambda>(bp, s).
        let s = upd_inode i (get_inode (dinode_off (i_inum ip)) (b_data (the_buf bp s))) s in
        bind_res (brelse bp s) (\<lambda>s.
        let s = upd_inode i (i_valid_update (\<lambda>_. 1)) s in
        if i_type (the_inode i s) = 0 then Panic ''ilock: no type'' else Ok s)))"

definition ilock :: "nat option \<Rightarrow> 'z fs_state_scheme \<Rightarrow> 'z fs_state_scheme res" where
  "ilock ip s =
     (case ip of
        None \<Rightarrow> Panic ''ilock''
      | Some i \<Rightarrow>
          if sint (i_ref (the_inode i s)) < 1 then Panic ''ilock''
          else bind_res (acquiresleep (SL_inode i) s) (ilock_read i))"

definition iunlock :: "nat option \<Rightarrow> 'z fs_state_scheme \<Rightarrow> 'z fs_state_scheme res" where
  "iunlock ip s =
     (case ip of
        None \<Rightarrow> Panic ''iunlock''
      | Some i \<Rightarrow>
          bind_res (holdingsleep (SL_inode i) s) (\<lambda>(h, s).
          if \<not> h \<or> sint (i_ref (the_inode i s)) < 1 then Panic ''iunlock''
          else releasesleep (SL_inode i) s))"

section \<open>The content of an inode\<close>

definition addr_get :: "nat \<Rightarrow> nat \<Rightarrow> 'z fs_state_scheme \<Rightarrow> u32" where
  "addr_get i k s = i_addrs (the_inode i s) ! k"

definition addr_set :: "nat \<Rightarrow> nat \<Rightarrow> u32 \<Rightarrow> 'z fs_state_scheme \<Rightarrow> 'z fs_state_scheme" where
  "addr_set i k a s = upd_inode i (i_addrs_update (\<lambda>as. as[k := a])) s"

text \<open>\<open>if ((addr = ip->addrs[k]) == 0) ...\<close>: the block number at index \<open>k\<close>, allocated if missing.\<close>

definition addr_or_alloc :: "nat \<Rightarrow> nat \<Rightarrow> 'z fs_state_scheme \<Rightarrow> (u32 \<times> 'z fs_state_scheme) res" where
  "addr_or_alloc i k s =
     (if addr_get i k s = 0
      then bind_res (balloc (i_dev (the_inode i s)) s) (\<lambda>(addr, s).
           if addr = 0 then Ok (0, s) else Ok (addr, addr_set i k addr s))
      else Ok (addr_get i k s, s))"

definition bmap :: "nat \<Rightarrow> u32 \<Rightarrow> 'z fs_state_scheme \<Rightarrow> (u32 \<times> 'z fs_state_scheme) res" where
  "bmap i bn s =
     (if unat bn < NDIRECT then addr_or_alloc i (unat bn) s
      else
        let k = unat bn - NDIRECT in
        if k < NINDIRECT
        then
          bind_res (addr_or_alloc i NDIRECT s) (\<lambda>(addr, s).
          if addr = 0 then Ok (0, s)
          else
            bind_res (bread (i_dev (the_inode i s)) addr s) (\<lambda>(bp, s).
            let a = get32 (4 * k) (b_data (the_buf bp s)) in
            bind_res
              (if a = 0
               then bind_res (balloc (i_dev (the_inode i s)) s) (\<lambda>(a, s).
                    if a \<noteq> 0
                    then bind_res (log_write bp (upd_buf bp (b_data_update (put32 (4 * k) a)) s)) (\<lambda>s. Ok (a, s))
                    else Ok (a, s))
               else Ok (a, s)) (\<lambda>(a, s).
            bind_res (brelse bp s) (\<lambda>s. Ok (a, s)))))
        else Panic ''bmap: out of range'')"

text \<open>The two loops of \<open>itrunc\<close>.\<close>

definition trunc_direct :: "nat \<Rightarrow> nat \<Rightarrow> 'z fs_state_scheme \<Rightarrow> 'z fs_state_scheme res" where
  "trunc_direct i k s =
     (if addr_get i k s \<noteq> 0
      then bind_res (bfree (i_dev (the_inode i s)) (addr_get i k s) s) (\<lambda>s. Ok (addr_set i k 0 s))
      else Ok s)"

definition trunc_indirect :: "nat \<Rightarrow> nat \<Rightarrow> nat \<Rightarrow> 'z fs_state_scheme \<Rightarrow> 'z fs_state_scheme res" where
  "trunc_indirect i bp j s =
     (let a = get32 (4 * j) (b_data (the_buf bp s)) in
      if a \<noteq> 0 then bfree (i_dev (the_inode i s)) a s else Ok s)"

definition itrunc :: "nat \<Rightarrow> 'z fs_state_scheme \<Rightarrow> 'z fs_state_scheme res" where
  "itrunc i s =
     bind_res (fold_res (trunc_direct i) [0..<NDIRECT] s) (\<lambda>s.
     bind_res
       (if addr_get i NDIRECT s \<noteq> 0
        then
          bind_res (bread (i_dev (the_inode i s)) (addr_get i NDIRECT s) s) (\<lambda>(bp, s).
          bind_res (fold_res (trunc_indirect i bp) [0..<NINDIRECT] s) (\<lambda>s.
          bind_res (brelse bp s) (\<lambda>s.
          bind_res (bfree (i_dev (the_inode i s)) (addr_get i NDIRECT s) s) (\<lambda>s.
          Ok (addr_set i NDIRECT 0 s)))))
        else Ok s) (\<lambda>s.
     iupdate i (upd_inode i (i_size_update (\<lambda>_. 0)) s)))"

definition iput :: "nat \<Rightarrow> 'z fs_state_scheme \<Rightarrow> 'z fs_state_scheme res" where
  "iput i s =
     bind_res (kacquire L_itable s) (\<lambda>s.
     bind_res
       (if i_ref (the_inode i s) = 1 \<and> i_valid (the_inode i s) \<noteq> 0 \<and> i_nlink (the_inode i s) = 0
        then
          bind_res (acquiresleep (SL_inode i) s) (\<lambda>s.
          bind_res (krelease L_itable s) (\<lambda>s.
          bind_res (itrunc i s) (\<lambda>s.
          bind_res (iupdate i (upd_inode i (i_type_update (\<lambda>_. 0)) s)) (\<lambda>s.
          bind_res (releasesleep (SL_inode i) (upd_inode i (i_valid_update (\<lambda>_. 0)) s)) (\<lambda>s.
          kacquire L_itable s)))))
        else Ok s) (\<lambda>s.
     krelease L_itable (upd_inode i (\<lambda>ip. ip\<lparr>i_ref := i_ref ip - 1\<rparr>) s)))"

definition iunlockput :: "nat \<Rightarrow> 'z fs_state_scheme \<Rightarrow> 'z fs_state_scheme res" where
  "iunlockput i s = bind_res (iunlock (Some i) s) (iput i)"

text \<open>\<open>struct stat\<close> in memory: \<open>dev\<close>, \<open>ino\<close>, \<open>type\<close>, \<open>nlink\<close>, four bytes of padding, \<open>size\<close>.\<close>

definition STAT_SIZE :: u64 where "STAT_SIZE = 24"

definition stati :: "nat \<Rightarrow> u64 \<Rightarrow> 'z fs_state_scheme \<Rightarrow> 'z fs_state_scheme" where
  "stati i st s =
     (let ip = the_inode i s in
      s\<lparr>mem := store64 (store16 (store16 (store32 (store32 (mem s) st (i_dev ip)) (st + 4) (i_inum ip))
           (st + 8) (i_type ip)) (st + 10) (i_nlink ip)) (st + 16) (ucast (i_size ip))\<rparr>)"

section \<open>Reading and writing\<close>

text \<open>The data of a buffer at its address, and what is at the address as the data of the buffer.\<close>

definition bdata_out :: "nat \<Rightarrow> 'z fs_state_scheme \<Rightarrow> 'z fs_state_scheme" where
  "bdata_out b s = s\<lparr>mem := set_bytes (k_bdata s b) (b_data (the_buf b s)) (mem s)\<rparr>"

definition bdata_in :: "nat \<Rightarrow> 'z fs_state_scheme \<Rightarrow> 'z fs_state_scheme" where
  "bdata_in b s = upd_buf b (b_data_update (\<lambda>_. bytes_at (mem s) (k_bdata s b) BSIZE)) s"

definition chunk_len :: "u32 \<Rightarrow> u32 \<Rightarrow> u32" where
  "chunk_len left off = min left (of_nat BSIZE - off mod of_nat BSIZE)"

lemma chunk_len_pos: "tot < n \<Longrightarrow> unat (n - (tot + chunk_len (n - tot) off)) < unat (n - tot)"
proof -
  assume l: "tot < n"
  let ?m = "chunk_len (n - tot) off"
  have "unat (off mod of_nat BSIZE) < BSIZE" by (simp add: unat_mod_distrib BSIZE_def)
  then have "off mod of_nat BSIZE < of_nat BSIZE" by (simp add: word_less_nat_alt BSIZE_def)
  then have "(0 :: u32) < of_nat BSIZE - off mod of_nat BSIZE" by (simp add: word_gt_0)
  moreover have "0 < n - tot" using l by (simp add: word_gt_0)
  ultimately have "0 < ?m" "?m \<le> n - tot" by (simp_all add: chunk_len_def)
  then show ?thesis using unat_sub[of ?m "n - tot"] by (simp add: word_less_nat_alt word_le_nat_alt diff_diff_eq)
qed

function readi_loop ::
    "nat \<Rightarrow> bool \<Rightarrow> u32 \<Rightarrow> u32 \<Rightarrow> u32 \<Rightarrow> u64 \<Rightarrow> 'z fs_state_scheme \<Rightarrow> (i32 \<times> 'z fs_state_scheme) res" where
  "readi_loop i user_dst n tot off dst s =
     (if tot < n
      then
        bind_res (bmap i (off div of_nat BSIZE) s) (\<lambda>(addr, s).
        if addr = 0 then Ok (tot, s)
        else
          bind_res (bread (i_dev (the_inode i s)) addr s) (\<lambda>(bp, s).
          let m = chunk_len (n - tot) off in
          bind_res (either_copyout user_dst dst (k_bdata s bp + ucast (off mod of_nat BSIZE)) (ucast m) (bdata_out bp s)) (\<lambda>(r, s).
          if r = - 1 then bind_res (brelse bp s) (\<lambda>s. Ok (- 1, s))
          else bind_res (brelse bp s) (\<lambda>s. readi_loop i user_dst n (tot + m) (off + m) (dst + ucast m) s))))
      else Ok (tot, s))"
  by pat_completeness auto
termination
  by (relation "measure (\<lambda>(i, user_dst, n, tot, off, dst, s). unat (n - tot))") (auto simp: chunk_len_pos)

declare readi_loop.simps [simp del]

definition readi :: "nat \<Rightarrow> bool \<Rightarrow> u64 \<Rightarrow> u32 \<Rightarrow> u32 \<Rightarrow> 'z fs_state_scheme \<Rightarrow> (i32 \<times> 'z fs_state_scheme) res" where
  "readi i user_dst dst off n s =
     (if i_size (the_inode i s) < off \<or> off + n < off then Ok (0, s)
      else
        let n = (if i_size (the_inode i s) < off + n then i_size (the_inode i s) - off else n)
        in readi_loop i user_dst n 0 off dst s)"

text \<open>The loop of \<open>writei\<close> returns \<open>tot\<close> and \<open>off\<close>.\<close>

function writei_loop ::
    "nat \<Rightarrow> bool \<Rightarrow> u32 \<Rightarrow> u32 \<Rightarrow> u32 \<Rightarrow> u64 \<Rightarrow> 'z fs_state_scheme \<Rightarrow> ((u32 \<times> u32) \<times> 'z fs_state_scheme) res" where
  "writei_loop i user_src n tot off src s =
     (if tot < n
      then
        bind_res (bmap i (off div of_nat BSIZE) s) (\<lambda>(addr, s).
        if addr = 0 then Ok ((tot, off), s)
        else
          bind_res (bread (i_dev (the_inode i s)) addr s) (\<lambda>(bp, s).
          let m = chunk_len (n - tot) off in
          bind_res (either_copyin (k_bdata s bp + ucast (off mod of_nat BSIZE)) user_src src (ucast m) (bdata_out bp s)) (\<lambda>(r, s).
          let s = bdata_in bp s in
          if r = - 1 then bind_res (brelse bp s) (\<lambda>s. Ok ((tot, off), s))
          else
            bind_res (log_write bp s) (\<lambda>s.
            bind_res (brelse bp s) (\<lambda>s.
            writei_loop i user_src n (tot + m) (off + m) (src + ucast m) s)))))
      else Ok ((tot, off), s))"
  by pat_completeness auto
termination
  by (relation "measure (\<lambda>(i, user_src, n, tot, off, src, s). unat (n - tot))") (auto simp: chunk_len_pos)

declare writei_loop.simps [simp del]

definition writei :: "nat \<Rightarrow> bool \<Rightarrow> u64 \<Rightarrow> u32 \<Rightarrow> u32 \<Rightarrow> 'z fs_state_scheme \<Rightarrow> (i32 \<times> 'z fs_state_scheme) res" where
  "writei i user_src src off n s =
     (if i_size (the_inode i s) < off \<or> off + n < off then Ok (- 1, s)
      else if MAXFILE * BSIZE < unat (off + n) then Ok (- 1, s)
      else
        bind_res (writei_loop i user_src n 0 off src s) (\<lambda>((tot, off), s).
        let s = (if i_size (the_inode i s) < off then upd_inode i (i_size_update (\<lambda>_. off)) s else s) in
        bind_res (iupdate i s) (\<lambda>s. Ok (tot, s))))"

end
