(* ===== verification/Fs_Alloc.thy ===== *)
theory Fs_Alloc
  imports Fs Log_Tx
begin

text \<open>
  The block allocator inside a transaction. \<open>V\<close> is what the transaction sees of the blocks, \<open>B\<close> the
  blocks it has logged, \<open>K\<close> the blocks whose buffers are held. \<open>balloc\<close> is first fit over the
  bitmap; \<open>bfree\<close> is its inverse.
\<close>

section \<open>Steps of a transaction and the file system's own state\<close>

text \<open>Inside a transaction on device \<open>dv\<close> with the log at \<open>st\<close>.\<close>

definition fs_tx :: "nat \<Rightarrow> u32 \<Rightarrow> u32 \<Rightarrow> 'z fs_state_scheme \<Rightarrow> (u32 \<Rightarrow> block) \<Rightarrow> u32 list \<Rightarrow> u32 set \<Rightarrow> bool" where
  "fs_tx p dv st s V B K \<longleftrightarrow> tx p s V B K \<and> log_dev s = dv \<and> log_start s = st"

definition logs :: "u32 \<Rightarrow> u32 list \<Rightarrow> u32 list" where
  "logs n B = (if n \<in> set B then B else B @ [n])"

lemma set_logs [simp]: "set (logs n B) = insert n (set B)"
  by (auto simp: logs_def)

lemma length_logs: "length (logs n B) \<le> Suc (length B)" "length B \<le> length (logs n B)"
  by (simp_all add: logs_def)

text \<open>There is room for \<open>k\<close> more blocks in the log and in the buffer cache.\<close>

definition room :: "nat \<Rightarrow> u32 list \<Rightarrow> u32 set \<Rightarrow> bool" where
  "room k B K \<longleftrightarrow> finite K \<and> length B + card K + k \<le> LOGBLOCKS"

lemma room_card:
  assumes "room (Suc k) B K"
  shows "card (set B \<union> K) < NBUF" "length B < LOGBLOCKS"
proof -
  have "card (set B \<union> K) \<le> length B + card K" using card_Un_le[of "set B" K] card_length[of B] by linarith
  then show "card (set B \<union> K) < NBUF" using assms by (simp add: room_def LOGBLOCKS_def NBUF_def)
  show "length B < LOGBLOCKS" using assms by (simp add: room_def)
qed

lemma room_less: "room k B K \<Longrightarrow> j \<le> k \<Longrightarrow> room j B K"
  by (simp add: room_def)

lemma room_logs: "room (Suc k) B K \<Longrightarrow> room k (logs n B) K"
  using length_logs(1)[of n B] by (simp add: room_def)

lemma room_hold: "room (Suc k) B K \<Longrightarrow> room k B (insert n K)"
  by (simp add: room_def card_insert_if)

lemma log_frame_refl: "log_frame s s"
  by (simp add: log_frame_def proc_state_same)

text \<open>What no operation on blocks changes.\<close>

lemma log_frame_fs:
  assumes "log_frame s s'"
  shows "sb s' = sb s" "itable s' = itable s" "mem s' = mem s" "k_bdata s' = k_bdata s" "k_de s' = k_de s" "k_de_link s' = k_de_link s"
    "k_namei s' = k_namei s" "slocks s' (SL_inode i) = slocks s (SL_inode i)"
proof -
  have e: "s' = s\<lparr>sy := sy s', ptable := ptable s', slocks := slocks s', bufs := bufs s', disk := disk s', dhist := dhist s', lh_n := lh_n s', lh_block := lh_block s'\<rparr>"
    using assms by (simp add: log_frame_def)
  show "sb s' = sb s" "itable s' = itable s" "mem s' = mem s" "k_bdata s' = k_bdata s" "k_de s' = k_de s" "k_de_link s' = k_de_link s" "k_namei s' = k_namei s"
    using arg_cong[OF e, of sb] arg_cong[OF e, of itable] arg_cong[OF e, of mem] arg_cong[OF e, of k_bdata] arg_cong[OF e, of k_de]
      arg_cong[OF e, of k_de_link] arg_cong[OF e, of k_namei] by simp_all
  show "slocks s' (SL_inode i) = slocks s (SL_inode i)" using assms by (simp add: log_frame_def)
qed

text \<open>Looking at a block, and changing one.\<close>

lemma fs_look:
  assumes "fs_tx p dv st s V B K" "n \<notin> K" "room 1 B K"
  shows "\<exists>b s1 s2. bread dv n s = Ok (b, s1) \<and> b_data (the_buf b s1) = V n \<and> brelse b s1 = Ok s2
    \<and> log_frame s s1 \<and> log_frame s s2 \<and> fs_tx p dv st s2 V B K \<and> disk s2 = disk s
    \<and> (\<forall>m i. m \<in> K \<longrightarrow> has_block dv s m i \<longrightarrow> has_block dv s2 m i)"
proof -
  have "tx p s V B K \<and> log_dev s = dv \<and> log_start s = st" using assms(1) by (simp add: fs_tx_def)
  from txn.look[OF this assms(2)] room_card(1)[of 0 B K] assms(3) show ?thesis unfolding fs_tx_def by simp
qed

lemma fs_modify:
  assumes "fs_tx p dv st s V B K" "n \<notin> K" "n \<notin> log_area st" "room 1 B K"
  shows "\<exists>b s1 s2 s3. bread dv n s = Ok (b, s1) \<and> b_data (the_buf b s1) = V n
    \<and> log_write b (upd_buf b (b_data_update f) s1) = Ok s2 \<and> brelse b s2 = Ok s3
    \<and> log_frame s s1 \<and> log_frame s s2 \<and> log_frame s s3 \<and> fs_tx p dv st s3 (V(n := f (V n))) (logs n B) K \<and> disk s3 = disk s
    \<and> (\<forall>m i. m \<in> K \<longrightarrow> has_block dv s m i \<longrightarrow> has_block dv s3 m i)"
proof -
  have t: "tx p s V B K \<and> log_dev s = dv \<and> log_start s = st" using assms(1) by (simp add: fs_tx_def)
  have c: "n \<in> set B \<or> card (set B \<union> K) < NBUF" "length B < LOGBLOCKS" using room_card[of 0 B K] assms(4) by simp_all
  obtain b s1 s2 s3 where "bread dv n s = Ok (b, s1)" and d: "b_data (the_buf b s1) = V n"
      and "log_write b (upd_buf b (b_data_update (\<lambda>_. f (V n))) s1) = Ok s2" "brelse b s2 = Ok s3"
      "log_frame s s1" "log_frame s s2" "log_frame s s3"
      "tx p s3 (V(n := f (V n))) (if n \<in> set B then B else B @ [n]) K \<and> log_dev s3 = dv \<and> log_start s3 = st" "disk s3 = disk s"
      "\<forall>m i. m \<in> K \<longrightarrow> has_block dv s m i \<longrightarrow> has_block dv s3 m i"
    using txn.modify[OF t assms(2) c(1) _ c(2), of "f (V n)"] assms(3) by auto
  moreover have "upd_buf b (b_data_update f) s1 = upd_buf b (b_data_update (\<lambda>_. f (V n))) s1"
    using upd_data_const[of b f s1] d by simp
  ultimately show ?thesis unfolding fs_tx_def logs_def by (intro exI[of _ b] exI[of _ s1] exI[of _ s2] exI[of _ s3]) simp
qed

section \<open>The bitmap\<close>

definition block_free :: "(u32 \<Rightarrow> block) \<Rightarrow> superblock \<Rightarrow> nat \<Rightarrow> bool" where
  "block_free V sbk b \<longleftrightarrow> bit_clear (b mod BPB) (V (BBLOCK (of_nat b) sbk))"

definition first_free :: "(u32 \<Rightarrow> block) \<Rightarrow> superblock \<Rightarrow> nat option" where
  "first_free V sbk = find (block_free V sbk) [0..<unat (sb_size sbk)]"

lemma BPB_eq: "BPB = 8192"
  by (simp add: BPB_def BSIZE_def)

lemma BBLOCK_eq:
  assumes "b < 2 ^ 32"
  shows "BBLOCK (of_nat b) sbk = of_nat (b div BPB) + sb_bmapstart sbk"
proof -
  have "unat (of_nat b div of_nat BPB :: u32) = b div BPB" using assms by (simp add: unat_div_distrib unat_of_nat take_bit_nat_eq_self BPB_eq)
  moreover have "unat (of_nat (b div BPB) :: u32) = b div BPB"
    using assms by (simp add: unat_of_nat take_bit_nat_eq_self less_le_trans[of _ b] div_le_dividend le_less_trans[OF div_le_dividend])
  ultimately have "(of_nat b div of_nat BPB :: u32) = of_nat (b div BPB)" by (simp only: word_unat_eq_iff)
  then show ?thesis by (simp add: BBLOCK_def)
qed

lemma first_clear_find: "first_clear d bi k = find (\<lambda>j. bit_clear j d) [bi..<bi + k]"
  by (induction k arbitrary: bi) (simp_all add: upt_conv_Cons del: upt_Suc)

lemma find_append: "find P (xs @ ys) = (case find P xs of None \<Rightarrow> find P ys | Some x \<Rightarrow> Some x)"
  by (induction xs) auto

lemma find_map: "find P (map f xs) = map_option f (find (P \<circ> f) xs)"
  by (induction xs) auto

lemma find_cong_set: "(\<And>x. x \<in> set xs \<Longrightarrow> P x = Q x) \<Longrightarrow> find P xs = find Q xs"
  by (induction xs) auto

text \<open>The free blocks of one bitmap block.\<close>

lemma find_bitmap_block:
  assumes "k \<le> BPB" "BPB * i + k \<le> 2 ^ 32"
  shows "find (block_free V sbk) [BPB * i..<BPB * i + k]
    = map_option (\<lambda>bi. BPB * i + bi) (first_clear (V (of_nat i + sb_bmapstart sbk)) 0 k)"
proof -
  have "[BPB * i..<BPB * i + k] = map (\<lambda>bi. BPB * i + bi) [0..<k]"
    using map_add_upt[of "BPB * i" k] by (simp add: add.commute)
  moreover have "block_free V sbk (BPB * i + bi) = bit_clear bi (V (of_nat i + sb_bmapstart sbk))" if "bi \<in> set [0..<k]" for bi
  proof -
    have "(BPB * i + bi) div BPB = i" "(BPB * i + bi) mod BPB = bi" using that assms(1) by (simp_all add: BPB_eq)
    moreover have "BPB * i + bi < 2 ^ 32" using that assms(2) by simp
    ultimately show ?thesis using BBLOCK_eq[of "BPB * i + bi" sbk] by (simp only: block_free_def)
  qed
  then have "find (block_free V sbk \<circ> (\<lambda>bi. BPB * i + bi)) [0..<k] = find (\<lambda>bi. bit_clear bi (V (of_nat i + sb_bmapstart sbk))) [0..<k]"
    by (intro find_cong_set) simp
  ultimately show ?thesis by (simp add: find_map first_clear_find)
qed

lemma find_bitmap_split:
  assumes "BPB * i < n" "n \<le> 2 ^ 32"
  shows "find (block_free V sbk) [BPB * i..<n]
    = (case first_clear (V (of_nat i + sb_bmapstart sbk)) 0 (min BPB (n - BPB * i)) of
         Some bi \<Rightarrow> Some (BPB * i + bi)
       | None \<Rightarrow> find (block_free V sbk) [BPB * Suc i..<n])"
proof -
  let ?k = "min BPB (n - BPB * i)"
  have "[BPB * i..<n] = [BPB * i..<BPB * i + ?k] @ [BPB * i + ?k..<n]"
    using upt_add_eq_append[of "BPB * i" "BPB * i + ?k" "n - (BPB * i + ?k)"] assms(1) by simp
  moreover have "[BPB * i + ?k..<n] = [BPB * Suc i..<n]" using assms(1) by (cases "n \<le> BPB * Suc i") (simp_all add: min_def add.commute)
  moreover have "BPB * i + ?k \<le> 2 ^ 32" using assms by simp
  ultimately show ?thesis using find_bitmap_block[of ?k i V sbk]
    by (simp add: find_append split: option.splits)
qed

section \<open>balloc and bfree\<close>

text \<open>What the transaction sees once \<open>balloc\<close> has taken block \<open>b\<close>: its bit set, its contents zeroed.\<close>

definition taken_block :: "superblock \<Rightarrow> nat \<Rightarrow> (u32 \<Rightarrow> block) \<Rightarrow> u32 \<Rightarrow> block" where
  "taken_block sbk b V =
     (V(BBLOCK (of_nat b) sbk := mark_used (b mod BPB) (V (BBLOCK (of_nat b) sbk))))(of_nat b := replicate BSIZE 0)"

text \<open>The bitmap and the free blocks are outside the log and are not in use.\<close>

definition bitmap_apart :: "u32 \<Rightarrow> u32 set \<Rightarrow> (u32 \<Rightarrow> block) \<Rightarrow> superblock \<Rightarrow> bool" where
  "bitmap_apart st K V sbk \<longleftrightarrow>
     unat (sb_size sbk) \<le> 2 ^ 31
     \<and> (\<forall>b < unat (sb_size sbk). BBLOCK (of_nat b) sbk \<notin> log_area st \<union> K)
     \<and> (\<forall>b < unat (sb_size sbk). block_free V sbk b \<longrightarrow> of_nat b \<notin> log_area st \<union> K)"

lemma bzero_spec:
  assumes "fs_tx p dv st s V B K" "n \<notin> K" "n \<notin> log_area st" "room 1 B K"
  shows "\<exists>s'. bzero dv n s = Ok s' \<and> log_frame s s' \<and> fs_tx p dv st s' (V(n := replicate BSIZE 0)) (logs n B) K \<and> disk s' = disk s
    \<and> (\<forall>m i. m \<in> K \<longrightarrow> has_block dv s m i \<longrightarrow> has_block dv s' m i)"
proof -
  obtain b s1 s2 s3 where "bread dv n s = Ok (b, s1)" "log_write b (upd_buf b (b_data_update (\<lambda>_. replicate BSIZE 0)) s1) = Ok s2" "brelse b s2 = Ok s3"
      "log_frame s s3" "fs_tx p dv st s3 (V(n := replicate BSIZE 0)) (logs n B) K" "disk s3 = disk s"
      "\<forall>m i. m \<in> K \<longrightarrow> has_block dv s m i \<longrightarrow> has_block dv s3 m i"
    using fs_modify[OF assms, of "\<lambda>_. replicate BSIZE 0"] by blast
  then show ?thesis by (simp add: bzero_def)
qed

text \<open>One bitmap block: either a block is taken from it or the state is as before.\<close>

lemma balloc_found:
  assumes t: "fs_tx p dv st s V B K" "room 2 B K" and a: "bitmap_apart st K V (sb s)"
    and b: "BPB * i + bi < unat (sb_size (sb s))" "bi < BPB" "block_free V (sb s) (BPB * i + bi)"
    and f: "first_clear (V (BBLOCK (of_nat (BPB * i)) (sb s))) 0 (min BPB (unat (sb_size (sb s)) - BPB * i)) = Some bi"
  shows "\<exists>s'. balloc_loop dv (BPB * i # bs) s = Ok (of_nat (BPB * i + bi), s') \<and> log_frame s s'
    \<and> fs_tx p dv st s' (taken_block (sb s) (BPB * i + bi) V) (logs (of_nat (BPB * i + bi)) (logs (BBLOCK (of_nat (BPB * i + bi)) (sb s)) B)) K \<and> disk s' = disk s
    \<and> (\<forall>m i. m \<in> K \<longrightarrow> has_block dv s m i \<longrightarrow> has_block dv s' m i)"
proof -
  let ?b = "BPB * i + bi" and ?m = "BBLOCK (of_nat (BPB * i)) (sb s)"
  have sz: "BPB * i < 2 ^ 31" "?b < 2 ^ 32" using a b(1) by (simp_all add: bitmap_apart_def)
  have bm: "BBLOCK (of_nat ?b) (sb s) = ?m" "?b mod BPB = bi"
    using BBLOCK_eq[of ?b "sb s"] BBLOCK_eq[of "BPB * i" "sb s"] sz b(2) by (simp_all add: BPB_eq)
  have ap: "?m \<notin> K" "?m \<notin> log_area st" "of_nat ?b \<notin> K" "of_nat ?b \<notin> log_area st"
    using a b bm(1) unfolding bitmap_apart_def by (metis UnCI)+
  obtain bp s1 s2 s3 where r: "bread dv ?m s = Ok (bp, s1)" "b_data (the_buf bp s1) = V ?m"
      "log_write bp (upd_buf bp (b_data_update (mark_used bi)) s1) = Ok s2" "brelse bp s2 = Ok s3" "log_frame s s1" "log_frame s s3"
      "fs_tx p dv st s3 (V(?m := mark_used bi (V ?m))) (logs ?m B) K" "disk s3 = disk s"
      "\<forall>m i. m \<in> K \<longrightarrow> has_block dv s m i \<longrightarrow> has_block dv s3 m i"
    using fs_modify[OF t(1) ap(1,2) room_less[OF t(2)], of "mark_used bi"] by auto
  have "room 1 (logs ?m B) K" using room_logs[of 1 B K ?m] t(2) by (simp add: numeral_2_eq_2)
  then obtain s' where z: "bzero dv (of_nat ?b) s3 = Ok s'" "log_frame s3 s'" "disk s' = disk s3"
      "fs_tx p dv st s' ((V(?m := mark_used bi (V ?m)))(of_nat ?b := replicate BSIZE 0)) (logs (of_nat ?b) (logs ?m B)) K"
      "\<forall>m i. m \<in> K \<longrightarrow> has_block dv s3 m i \<longrightarrow> has_block dv s' m i"
    using bzero_spec[OF r(7) ap(3,4)] by blast
  have "balloc_loop dv (BPB * i # bs) s = Ok (of_nat ?b, s')"
    using sz(1) r(1-4) z(1) f log_frame_fs(1)[OF r(5)] by simp
  moreover have "log_frame s s'" using r(6) z(2) log_frame_trans by blast
  moreover have "\<forall>m i. m \<in> K \<longrightarrow> has_block dv s m i \<longrightarrow> has_block dv s' m i" using r(9) z(5) by blast
  ultimately show ?thesis using z(3,4) r(8) bm by (intro exI[of _ s']) (simp add: taken_block_def)
qed

text \<open>The result of the search from bitmap block \<open>i\<close> on.\<close>

definition balloc_result :: "nat \<Rightarrow> u32 \<Rightarrow> u32 \<Rightarrow> 'z fs_state_scheme \<Rightarrow> (u32 \<Rightarrow> block) \<Rightarrow> u32 list \<Rightarrow> u32 set
    \<Rightarrow> nat option \<Rightarrow> u32 \<Rightarrow> 'z fs_state_scheme \<Rightarrow> bool" where
  "balloc_result p dv st s V B K r a s' \<longleftrightarrow> log_frame s s' \<and> disk s' = disk s
     \<and> (\<forall>m i. m \<in> K \<longrightarrow> has_block dv s m i \<longrightarrow> has_block dv s' m i)
     \<and> (case r of
          None \<Rightarrow> a = 0 \<and> fs_tx p dv st s' V B K
        | Some b \<Rightarrow> a = of_nat b
            \<and> fs_tx p dv st s' (taken_block (sb s) b V) (logs (of_nat b) (logs (BBLOCK (of_nat b) (sb s)) B)) K)"

lemma balloc_result_after:
  assumes "balloc_result p dv st s1 V B K r a s2" "log_frame s s1" "disk s1 = disk s"
    "\<forall>m i. m \<in> K \<longrightarrow> has_block dv s m i \<longrightarrow> has_block dv s1 m i"
  shows "balloc_result p dv st s V B K r a s2"
proof -
  have "log_frame s s2" using log_frame_trans[of s s1 s2] assms(1,2) by (simp add: balloc_result_def)
  then show ?thesis using assms(1,3,4) log_frame_fs(1)[OF assms(2)] by (cases r) (simp_all add: balloc_result_def)
qed

lemma first_clear_bounds: "first_clear d bi k = Some j \<Longrightarrow> bi \<le> j \<and> j < bi + k \<and> bit_clear j d"
  by (induction k arbitrary: bi) (fastforce split: if_splits)+

lemma balloc_step:
  fixes s :: "'z fs_state_scheme"
  assumes t: "fs_tx p dv st s V B K" "room 2 B K" and a: "bitmap_apart st K V (sb s)" and i: "BPB * i < unat (sb_size (sb s))"
    and rest: "\<And>s1 :: 'z fs_state_scheme. fs_tx p dv st s1 V B K \<Longrightarrow> sb s1 = sb s \<Longrightarrow>
      \<exists>x s'. balloc_loop dv bs s1 = Ok (x, s') \<and> balloc_result p dv st s1 V B K (find (block_free V (sb s)) [BPB * Suc i..<unat (sb_size (sb s))]) x s'"
  shows "\<exists>x s'. balloc_loop dv (BPB * i # bs) s = Ok (x, s') \<and> balloc_result p dv st s V B K (find (block_free V (sb s)) [BPB * i..<unat (sb_size (sb s))]) x s'"
proof -
  let ?m = "BBLOCK (of_nat (BPB * i)) (sb s)" and ?n = "unat (sb_size (sb s))"
  have n: "?n \<le> 2 ^ 31" using a by (simp add: bitmap_apart_def)
  have m: "?m = of_nat i + sb_bmapstart (sb s)" using BBLOCK_eq[of "BPB * i" "sb s"] i n by (simp add: BPB_eq)
  have f: "find (block_free V (sb s)) [BPB * i..<?n] = (case first_clear (V ?m) 0 (min BPB (?n - BPB * i)) of
         Some bi \<Rightarrow> Some (BPB * i + bi) | None \<Rightarrow> find (block_free V (sb s)) [BPB * Suc i..<?n])"
    using find_bitmap_split[OF i, of V "sb s"] n m by simp
  show ?thesis
  proof (cases "first_clear (V ?m) 0 (min BPB (?n - BPB * i))")
    case None
    have "?m \<notin> K" using a i unfolding bitmap_apart_def by blast
    then obtain bp s1 s2 where r: "bread dv ?m s = Ok (bp, s1)" "b_data (the_buf bp s1) = V ?m" "brelse bp s1 = Ok s2"
        "log_frame s s1" "log_frame s s2" "fs_tx p dv st s2 V B K" "disk s2 = disk s"
        "\<forall>m i. m \<in> K \<longrightarrow> has_block dv s m i \<longrightarrow> has_block dv s2 m i"
      using fs_look[OF t(1) _ room_less[OF t(2)], of ?m] by auto
    obtain x s' where x: "balloc_loop dv bs s2 = Ok (x, s')" "balloc_result p dv st s2 V B K (find (block_free V (sb s)) [BPB * Suc i..<?n]) x s'"
      using rest[OF r(6) log_frame_fs(1)[OF r(5)]] by blast
    have "balloc_loop dv (BPB * i # bs) s = Ok (x, s')"
      using i n r(1-3) x(1) None log_frame_fs(1)[OF r(4)] by simp
    then show ?thesis using balloc_result_after[OF x(2) r(5,7,8)] f None by simp
  next
    case (Some bi)
    have "bi < min BPB (?n - BPB * i)" and b3: "bit_clear bi (V ?m)" using first_clear_bounds[OF Some] by simp_all
    then have b: "bi < BPB" "BPB * i + bi < ?n" "bit_clear bi (V ?m)" using i b3 by linarith+
    have "(BPB * i + bi) mod BPB = bi" "BBLOCK (of_nat (BPB * i + bi)) (sb s) = ?m"
      using BBLOCK_eq[of "BPB * i + bi" "sb s"] m b n by (simp_all add: BPB_eq)
    then have "block_free V (sb s) (BPB * i + bi)" using b(3) by (simp add: block_free_def)
    from balloc_found[OF t a b(2,1) this Some, of bs] show ?thesis unfolding f Some balloc_result_def by auto
  qed
qed

lemma bitmap_blocks:
  assumes "N = (n + BPB - 1) div BPB"
  shows "n \<le> BPB * N" "i < N \<Longrightarrow> BPB * i < n"
proof -
  have "n + BPB - 1 = BPB * N + (n + BPB - 1) mod BPB" "(n + BPB - 1) mod BPB < BPB"
    using assms by (simp_all add: BPB_eq)
  then show "n \<le> BPB * N" by linarith
  show "BPB * i < n" if "i < N"
  proof -
    have "BPB * Suc i \<le> BPB * N" using that by (intro mult_le_mono) simp_all
    then show ?thesis using \<open>n + BPB - 1 = _\<close> by (simp add: BPB_eq)
  qed
qed

lemma balloc_loop_spec:
  fixes s :: "'z fs_state_scheme"
  assumes "room 2 B K" "bitmap_apart st K V sbk" "N = (unat (sb_size sbk) + BPB - 1) div BPB" "i \<le> N"
    "fs_tx p dv st s V B K" "sb s = sbk"
  shows "\<exists>x s'. balloc_loop dv (map (\<lambda>i. BPB * i) [i..<N]) s = Ok (x, s')
    \<and> balloc_result p dv st s V B K (find (block_free V sbk) [BPB * i..<unat (sb_size sbk)]) x s'"
  using assms(4-)
proof (induction "N - i" arbitrary: i s)
  case 0
  then have "i = N" by simp
  moreover have "unat (sb_size sbk) \<le> BPB * N" by (rule bitmap_blocks(1)[OF assms(3)])
  ultimately show ?case using 0 by (simp add: balloc_result_def log_frame_refl)
next
  case (Suc k)
  have l: "i < N" using Suc(2) by simp
  then have "BPB * i < unat (sb_size sbk)" by (rule bitmap_blocks(2)[OF assms(3)])
  then have i: "BPB * i < unat (sb_size (sb s))" using Suc(5) by simp
  have u: "map (\<lambda>i. BPB * i) [i..<N] = BPB * i # map (\<lambda>i. BPB * i) [Suc i..<N]" using l by (simp add: upt_conv_Cons)
  have a: "bitmap_apart st K V (sb s)" using assms(2) Suc(5) by simp
  have "\<exists>x s'. balloc_loop dv (map (\<lambda>i. BPB * i) [Suc i..<N]) s1 = Ok (x, s')
      \<and> balloc_result p dv st s1 V B K (find (block_free V (sb s)) [BPB * Suc i..<unat (sb_size (sb s))]) x s'"
    if "fs_tx p dv st s1 V B K" "sb s1 = sb s" for s1 :: "'z fs_state_scheme"
    using Suc(1)[of "Suc i" s1] Suc(2,5) l that by simp
  from balloc_step[OF Suc(4) assms(1) a i this] show ?case unfolding u Suc(5)[symmetric] by blast
qed

lemma balloc_spec:
  assumes "fs_tx p dv st s V B K" "room 2 B K" "bitmap_apart st K V (sb s)"
  shows "\<exists>x s'. balloc dv s = Ok (x, s') \<and> balloc_result p dv st s V B K (first_free V (sb s)) x s'"
  using balloc_loop_spec[OF assms(2,3) refl _ assms(1) refl, of 0] by (simp add: balloc_def bitmap_starts_def first_free_def)

lemma bfree_spec:
  assumes t: "fs_tx p dv st s V B K" "room 1 B K" and m: "BBLOCK b (sb s) \<notin> K" "BBLOCK b (sb s) \<notin> log_area st"
    and u: "\<not> block_free V (sb s) (unat b)"
  shows "\<exists>s'. bfree dv b s = Ok s' \<and> log_frame s s'
    \<and> fs_tx p dv st s' (V(BBLOCK b (sb s) := mark_free (unat b mod BPB) (V (BBLOCK b (sb s))))) (logs (BBLOCK b (sb s)) B) K \<and> disk s' = disk s
    \<and> (\<forall>m i. m \<in> K \<longrightarrow> has_block dv s m i \<longrightarrow> has_block dv s' m i)"
proof -
  obtain bp s1 s2 s3 where "bread dv (BBLOCK b (sb s)) s = Ok (bp, s1)" "b_data (the_buf bp s1) = V (BBLOCK b (sb s))"
      "log_write bp (upd_buf bp (b_data_update (mark_free (unat b mod BPB))) s1) = Ok s2" "brelse bp s2 = Ok s3" "log_frame s s3"
      "fs_tx p dv st s3 (V(BBLOCK b (sb s) := mark_free (unat b mod BPB) (V (BBLOCK b (sb s))))) (logs (BBLOCK b (sb s)) B) K" "disk s3 = disk s"
      "\<forall>m i. m \<in> K \<longrightarrow> has_block dv s m i \<longrightarrow> has_block dv s3 m i"
    using fs_modify[OF t(1) m t(2), of "mark_free (unat b mod BPB)"] by blast
  then show ?thesis using u by (simp add: bfree_def block_free_def)
qed

lemma bfree_free_block:
  assumes "fs_tx p dv st s V B K" "room 1 B K" "BBLOCK b (sb s) \<notin> K" "block_free V (sb s) (unat b)"
  shows "bfree dv b s = Panic ''freeing free block''"
proof -
  obtain bp s1 where "bread dv (BBLOCK b (sb s)) s = Ok (bp, s1)" "b_data (the_buf bp s1) = V (BBLOCK b (sb s))"
    using fs_look[OF assms(1,3,2)] by blast
  then show ?thesis using assms(4) by (simp add: bfree_def block_free_def)
qed

text \<open>Setting and clearing a bit.\<close>

lemma bit_mask_bit: "bit (bit_mask bi) n \<longleftrightarrow> n = bi mod 8"
proof -
  have "bit (push_bit (bi mod 8) 1 :: u8) n \<longleftrightarrow> bi mod 8 = n \<and> n < 8" by (simp add: bit_exp_iff) auto
  then show ?thesis using mod_less_divisor[of 8 bi] by (auto simp: bit_mask_def)
qed

lemma bit_clear_iff: "bit_clear bi d \<longleftrightarrow> \<not> bit (d ! (bi div 8)) (bi mod 8)"
proof -
  have "bit_clear bi d \<longleftrightarrow> (\<forall>n < 8. \<not> (bit (d ! (bi div 8)) n \<and> n = bi mod 8))"
    by (simp add: bit_clear_def bit_eq_iff[where 'a = u8] bit_and_iff bit_mask_bit)
  moreover have "bi mod 8 < 8" by simp
  ultimately show ?thesis by blast
qed

lemma bit_clear_mark_used:
  assumes "bi < BPB" "length d = BSIZE"
  shows "bit_clear j (mark_used bi d) \<longleftrightarrow> j \<noteq> bi \<and> bit_clear j d"
proof -
  have l: "bi div 8 < length d" using assms by (simp add: BPB_def)
  have "bit (mark_used bi d ! (j div 8)) (j mod 8) \<longleftrightarrow> j = bi \<or> bit (d ! (j div 8)) (j mod 8)"
  proof (cases "j div 8 = bi div 8")
    case True
    then have "j = bi \<longleftrightarrow> j mod 8 = bi mod 8" by (metis div_mult_mod_eq)
    then show ?thesis using True l by (auto simp: mark_used_def bit_or_iff bit_mask_bit)
  next
    case False
    then show ?thesis by (auto simp: mark_used_def)
  qed
  then show ?thesis by (auto simp: bit_clear_iff)
qed

lemma mark_free_used:
  assumes "bit_clear bi d" "bi < BPB" "length d = BSIZE"
  shows "mark_free bi (mark_used bi d) = d"
proof -
  have l: "bi div 8 < length d" using assms(2,3) by (simp add: BPB_def)
  have "(d ! (bi div 8) OR bit_mask bi) AND NOT (bit_mask bi) = d ! (bi div 8)"
    using assms(1) by (auto simp: bit_clear_iff bit_eq_iff[where 'a = u8] bit_or_iff bit_and_iff bit_not_iff bit_mask_bit)
  then show ?thesis using l by (simp add: mark_free_def mark_used_def)
qed

lemma first_free_None: "first_free V sbk = None \<longleftrightarrow> (\<forall>b < unat (sb_size sbk). \<not> block_free V sbk b)"
  by (auto simp: first_free_def find_None_iff)

lemma first_free_Some:
  "first_free V sbk = Some b \<longleftrightarrow> b < unat (sb_size sbk) \<and> block_free V sbk b \<and> (\<forall>b' < b. \<not> block_free V sbk b')"
  unfolding first_free_def find_Some_iff by (auto intro!: exI[of _ b])

text \<open>
  C6. Block allocation is first fit and zeroes what it hands out: in a transaction with two log slots left, \<open>balloc\<close>
  returns the lowest block whose bitmap bit is clear, with exactly that bit set and that block zeroed in the
  transaction's view and both changes logged, nothing yet on disk; when no bit below the file system's size is clear it
  returns 0 and changes no block.\<close>

theorem balloc_first_fit:
  assumes "fs_tx p dv st s V B K" "room 2 B K" "bitmap_apart st K V (sb s)"
  shows "\<exists>a s'. balloc dv s = Ok (a, s') \<and> log_frame s s' \<and> disk s' = disk s
    \<and> ((\<forall>b < unat (sb_size (sb s)). \<not> block_free V (sb s) b) \<longrightarrow> a = 0 \<and> fs_tx p dv st s' V B K)
    \<and> (\<forall>b < unat (sb_size (sb s)). block_free V (sb s) b \<longrightarrow> (\<forall>b' < b. \<not> block_free V (sb s) b') \<longrightarrow>
         a = of_nat b \<and> fs_tx p dv st s' (taken_block (sb s) b V) (logs (of_nat b) (logs (BBLOCK (of_nat b) (sb s)) B)) K)"
proof -
  obtain a s' where r: "balloc dv s = Ok (a, s')" "balloc_result p dv st s V B K (first_free V (sb s)) a s'"
    using balloc_spec[OF assms] by blast
  then have "log_frame s s'" "disk s' = disk s" by (simp_all add: balloc_result_def)
  moreover have "a = 0 \<and> fs_tx p dv st s' V B K" if "\<forall>b < unat (sb_size (sb s)). \<not> block_free V (sb s) b"
    using r(2) first_free_None[of V "sb s"] that by (simp add: balloc_result_def)
  moreover have "a = of_nat b \<and> fs_tx p dv st s' (taken_block (sb s) b V) (logs (of_nat b) (logs (BBLOCK (of_nat b) (sb s)) B)) K"
    if "b < unat (sb_size (sb s))" "block_free V (sb s) b" "\<forall>b' < b. \<not> block_free V (sb s) b'" for b
    using r(2) first_free_Some[of V "sb s" b] that by (simp add: balloc_result_def)
  ultimately show ?thesis using r(1) by blast
qed

text \<open>
  C19. Freeing undoes allocating: giving the block that \<open>balloc\<close> returned to \<open>bfree\<close> leaves the transaction's view of
  every other block, the bitmap included, as it was before the allocation, and freeing it a second time panics
  with "freeing free block".\<close>

theorem balloc_bfree_roundtrip:
  assumes "fs_tx p dv st s V B K" "room 3 B K" "bitmap_apart st K V (sb s)" "first_free V (sb s) = Some b"
    "length (V (BBLOCK (of_nat b) (sb s))) = BSIZE" "BBLOCK (of_nat b) (sb s) \<noteq> of_nat b"
  shows "\<exists>s1 s2 V' B'. balloc dv s = Ok (of_nat b, s1) \<and> bfree dv (of_nat b) s1 = Ok s2
    \<and> fs_tx p dv st s2 V' B' K \<and> (\<forall>n. n \<noteq> of_nat b \<longrightarrow> V' n = V n) \<and> bfree dv (of_nat b) s2 = Panic ''freeing free block''"
proof -
  let ?n = "of_nat b :: u32" and ?m = "BBLOCK (of_nat b) (sb s)"
  let ?V = "taken_block (sb s) b V" and ?B = "logs (of_nat b) (logs (BBLOCK (of_nat b) (sb s)) B)"
  have b: "b < unat (sb_size (sb s))" "block_free V (sb s) b" using assms(4) first_free_Some by blast+
  then have ub: "unat ?n = b" and ap: "?m \<notin> K" "?m \<notin> log_area st"
    using assms(3) by (auto simp: bitmap_apart_def unat_of_nat take_bit_nat_eq_self)
  have bc: "bit_clear (b mod BPB) (V ?m)" "b mod BPB < BPB" using b(2) by (simp_all add: block_free_def BPB_eq)
  have r2: "room 2 B K" using assms(2) by (rule room_less) simp
  have r1: "room 1 ?B K" using assms(2) room_logs[of 1 "logs ?m B" K ?n] room_logs[of 2 B K ?m] by (simp add: numeral_3_eq_3 numeral_2_eq_2)
  obtain s1 where s1: "balloc dv s = Ok (?n, s1)" "log_frame s s1" "fs_tx p dv st s1 ?V ?B K"
    using balloc_spec[OF assms(1) r2 assms(3)] assms(4) by (auto simp: balloc_result_def)
  have sb1: "sb s1 = sb s" by (rule log_frame_fs(1)[OF s1(2)])
  have vm: "?V ?m = mark_used (b mod BPB) (V ?m)" using assms(6) by (simp add: taken_block_def)
  then have "\<not> block_free ?V (sb s) b" using bit_clear_mark_used[OF bc(2) assms(5)] by (simp add: block_free_def)
  then obtain s2 where s2: "bfree dv ?n s1 = Ok s2" "log_frame s1 s2"
      "fs_tx p dv st s2 (?V(?m := mark_free (b mod BPB) (?V ?m))) (logs ?m ?B) K"
    using bfree_spec[OF s1(3) r1, of ?n] ap sb1 ub by auto
  have m: "mark_free (b mod BPB) (?V ?m) = V ?m" using mark_free_used[OF bc(1,2) assms(5)] vm by simp
  have "logs ?m ?B = ?B" unfolding logs_def by simp
  then have r: "room 1 (logs ?m ?B) K" using r1 by simp
  have "block_free (?V(?m := V ?m)) (sb s2) (unat ?n)"
    using b(2) ub sb1 log_frame_fs(1)[OF s2(2)] by (simp add: block_free_def)
  then have "bfree dv ?n s2 = Panic ''freeing free block''"
    using bfree_free_block[OF s2(3)[unfolded m] r, of ?n] ap(1) sb1 log_frame_fs(1)[OF s2(2)] by simp
  moreover have "(?V(?m := V ?m)) k = V k" if "k \<noteq> ?n" for k using that by (simp add: taken_block_def)
  ultimately show ?thesis using s1(1) s2(1) s2(3)[unfolded m] by blast
qed

section \<open>A small file system\<close>

text \<open>
  A machine whose log has been recovered, with the log at block 2, the inodes at block 33 and the bitmap in
  block 46, and a transaction that has written given blocks.
\<close>

definition small_sb :: superblock where
  "small_sb = \<lparr>sb_magic = FSMAGIC, sb_size = 64, sb_nblocks = 17, sb_ninodes = 200, sb_nlog = 30, sb_logstart = 2,
     sb_inodestart = 33, sb_bmapstart = 46\<rparr>"

definition small_bitmap :: block where
  "small_bitmap = replicate 6 0xFF @ replicate (BSIZE - 6) 0"

definition free_inode :: inode where
  "free_inode = \<lparr>i_dev = 0, i_inum = 0, i_ref = 0, i_valid = 0, i_type = 0, i_major = 0, i_minor = 0, i_nlink = 0, i_size = 0,
     i_addrs = replicate (Suc NDIRECT) 0\<rparr>"

definition small_fs :: "inode list \<Rightarrow> log_state \<Rightarrow> fs_state" where
  "small_fs is s = pipe_state.extend (log_state.extend s
     (pipe_state.fields (\<lambda>_. \<lparr>pi_data = [], pi_nread = 0, pi_nwrite = 0, pi_readopen = 0, pi_writeopen = 0\<rparr>) 0))
     (fs_state.fields small_sb is (\<lambda>_. 0) 0 0 0)"

lemma idle_cong:
  assumes "sy s' = sy s" "ptable s' = ptable s" "bufs s' = bufs s" "slocks s' = slocks s" "disk s' = disk s" "curproc s' = curproc s"
    "lh_n s' = lh_n s" "lh_block s' = lh_block s" "log_start s' = log_start s" "log_dev s' = log_dev s"
    "log_outstanding s' = log_outstanding s" "log_committing s' = log_committing s"
  shows "idle p s' = idle p s"
proof -
  have "cache d s' V R K = cache d s V R K" for d V R K using assms by (intro cache_cong) simp_all
  then show ?thesis using assms by (simp add: idle_def logged_def ready_def)
qed

lemma small_fs_fields:
  "idle p (small_fs is s) = idle p s" "log_start (small_fs is s) = log_start s" "log_dev (small_fs is s) = log_dev s"
  "sb (small_fs is s) = small_sb" "itable (small_fs is s) = is"
  by (intro idle_cong) (simp_all add: small_fs_def pipe_state.extend_def log_state.extend_def pipe_state.fields_def fs_state.fields_def)

lemma write_blocks:
  assumes "fs_tx p dv st s V B {}" "set (map fst ps) \<inter> log_area st = {}" "distinct (map fst ps)" "room (length ps) B {}"
  shows "\<exists>s' V' B'. fs_tx p dv st s' V' B' {} \<and> log_frame s s' \<and> length B' \<le> length B + length ps
    \<and> (\<forall>(n, d) \<in> set ps. V' n = d) \<and> (\<forall>n. n \<notin> fst ` set ps \<longrightarrow> V' n = V n)"
  using assms
proof (induction ps arbitrary: s V B)
  case Nil
  then show ?case using log_frame_refl by fastforce
next
  case (Cons a ps)
  obtain n d where a: "a = (n, d)" by (cases a)
  have h: "n \<notin> log_area st" "room 1 B {}" using Cons.prems(2,4) a by (auto intro: room_less)
  obtain s1 where s1: "fs_tx p dv st s1 (V(n := d)) (logs n B) {}" "log_frame s s1"
    using fs_modify[OF Cons.prems(1) _ h, of "\<lambda>_. d"] by auto
  have h2: "set (map fst ps) \<inter> log_area st = {}" "distinct (map fst ps)" "room (length ps) (logs n B) {}"
    using Cons.prems(2-4) room_logs[of "length ps" B "{}" n] by auto
  obtain s' V' B' where s': "fs_tx p dv st s' V' B' {}" "log_frame s1 s'" "length B' \<le> length (logs n B) + length ps"
      "\<forall>(n, d) \<in> set ps. V' n = d" "\<forall>m. m \<notin> fst ` set ps \<longrightarrow> V' m = (V(n := d)) m"
    using Cons.IH[OF s1(1) h2] by blast
  have "n \<notin> fst ` set ps" using Cons.prems(3) a by simp
  then have "V' n = d" "\<forall>m. m \<notin> fst ` set (a # ps) \<longrightarrow> V' m = V m" using s'(5) a by simp_all
  moreover have "length B' \<le> length B + length (a # ps)" using s'(3) length_logs(1)[of n B] by simp
  moreover have "log_frame s s'" using s1(2) s'(2) by (rule log_frame_trans)
  ultimately show ?case using s'(1,4) a by (intro exI[of _ s'] exI[of _ V'] exI[of _ B']) simp
qed

lemma small_fs_tx:
  assumes "set (map fst ps) \<inter> log_area 2 = {}" "distinct (map fst ps)" "length ps \<le> 5"
  shows "\<exists>(s :: fs_state) V B. fs_tx 0 1 2 s V B {} \<and> sb s = small_sb \<and> itable s = is \<and> room 20 B {} \<and> (\<forall>(n, d) \<in> set ps. V n = d)"
proof -
  obtain s0 :: log_state where s0: "idle 0 s0" "log_start s0 = 2" "log_dev s0 = 1" using running_log by blast
  then obtain z where "tx 0 ((small_fs is s0)\<lparr>sy := z, log_outstanding := 1\<rparr>) (disk (small_fs is s0)) [] {}"
    using begin_op_spec[of 0 "small_fs is s0"] small_fs_fields(1) by blast
  then have t: "fs_tx 0 1 2 ((small_fs is s0)\<lparr>sy := z, log_outstanding := 1\<rparr>) (disk (small_fs is s0)) [] {}"
    using s0 small_fs_fields(2,3) by (simp add: fs_tx_def)
  have "room (length ps) [] {}" using assms(3) by (simp add: room_def LOGBLOCKS_def MAXOPBLOCKS_def)
  from write_blocks[OF t assms(1,2) this] obtain s V B where "fs_tx 0 1 2 s V B {}" "\<forall>(n, d) \<in> set ps. V n = d" "length B \<le> length ps"
      and f: "log_frame ((small_fs is s0)\<lparr>sy := z, log_outstanding := 1\<rparr>) s" by auto
  moreover have "sb s = small_sb" "itable s = is" using log_frame_fs(1,2)[OF f] small_fs_fields(4,5) by simp_all
  moreover have "room 20 B {}" using \<open>length B \<le> length ps\<close> assms(3) by (simp add: room_def LOGBLOCKS_def MAXOPBLOCKS_def)
  ultimately show ?thesis by blast
qed

lemma log_area_2: "n \<in> log_area 2 \<Longrightarrow> unat n \<le> 32"
proof -
  assume "n \<in> log_area 2"
  then consider "n = 2" | i where "n = log_block 2 i" "i < 30" by (auto simp: log_area_def LOGBLOCKS_def MAXOPBLOCKS_def)
  then show ?thesis
  proof cases
    case 2
    then have "n = of_nat (i + 3)" by (simp add: log_block_def)
    then show ?thesis using 2(2) by (simp add: unat_of_nat take_bit_nat_eq_self del: of_nat_add)
  qed simp
qed

lemma small_bitmap_bits:
  assumes "b < 64"
  shows "bit_clear b small_bitmap \<longleftrightarrow> 48 \<le> b"
proof -
  have "b div 8 < BSIZE" using assms by (simp add: BSIZE_def)
  then have "small_bitmap ! (b div 8) = (if b < 48 then 0xFF else 0)"
    by (auto simp: small_bitmap_def nth_append less_mult_imp_div_less BSIZE_def)
  moreover have "bit (0xFF :: u8) (b mod 8)"
  proof -
    have "(0xFF :: u8) = mask 8" by (simp add: mask_eq_exp_minus_1)
    then show ?thesis by (simp only: bit_mask_iff) simp
  qed
  ultimately show ?thesis by (auto simp: bit_clear_iff)
qed

lemma small_block_free:
  assumes "V 46 = small_bitmap" "b < 64"
  shows "block_free V small_sb b \<longleftrightarrow> 48 \<le> b" "BBLOCK (of_nat b) small_sb = 46"
proof -
  show "BBLOCK (of_nat b) small_sb = 46" using BBLOCK_eq[of b small_sb] assms(2) by (simp add: BPB_eq small_sb_def)
  then show "block_free V small_sb b \<longleftrightarrow> 48 \<le> b" using small_bitmap_bits[OF assms(2)] assms by (simp add: block_free_def BPB_eq)
qed

lemma small_bitmap_ok:
  assumes "V 46 = small_bitmap"
  shows "bitmap_apart 2 {} V small_sb" "first_free V small_sb = Some 48"
proof -
  have sz: "unat (sb_size small_sb) = 64" by (simp add: small_sb_def)
  have a: "46 \<notin> log_area 2" using log_area_2[of 46] by auto
  have "of_nat b \<notin> log_area 2" if "b < 64" "48 \<le> b" for b
    using log_area_2[of "of_nat b"] that by (auto simp: unat_of_nat take_bit_nat_eq_self)
  then show "bitmap_apart 2 {} V small_sb" using a sz small_block_free[where V = V, OF assms] by (simp add: bitmap_apart_def)
  show "first_free V small_sb = Some 48" using sz small_block_free(1)[where V = V, OF assms] by (simp add: first_free_Some)
qed

theorem balloc_first_fit_witness:
  "\<exists>(s :: fs_state) V B. fs_tx 0 1 2 s V B {} \<and> block_free V (sb s) 48 \<and> \<not> block_free V (sb s) 47
    \<and> (\<exists>s' V' B'. balloc 1 s = Ok (48, s') \<and> fs_tx 0 1 2 s' V' B' {} \<and> V' 48 = replicate BSIZE 0)"
proof -
  have a: "46 \<notin> log_area 2" using log_area_2[of 46] by auto
  obtain s :: fs_state and V B where s: "fs_tx 0 1 2 s V B {}" "sb s = small_sb" "room 20 B {}" "V 46 = small_bitmap"
    using small_fs_tx[of "[(46, small_bitmap)]" "[]"] a by auto
  have r: "room 2 B {}" using s(3) by (rule room_less) simp
  have f: "block_free V small_sb 48" "\<forall>b < 48. \<not> block_free V small_sb b" "48 < unat (sb_size (sb s))"
    using small_block_free(1)[where V = V, OF s(4)] s(2) by (simp_all add: small_sb_def)
  obtain a s' where "balloc 1 s = Ok (a, s')"
      "\<forall>b < unat (sb_size (sb s)). block_free V (sb s) b \<longrightarrow> (\<forall>b' < b. \<not> block_free V (sb s) b') \<longrightarrow>
         a = of_nat b \<and> fs_tx 0 1 2 s' (taken_block (sb s) b V) (logs (of_nat b) (logs (BBLOCK (of_nat b) (sb s)) B)) {}"
    using balloc_first_fit[OF s(1) r] small_bitmap_ok(1)[where V = V, OF s(4)] s(2) by auto
  then have "balloc 1 s = Ok (48, s')" "fs_tx 0 1 2 s' (taken_block (sb s) 48 V) (logs (of_nat 48) (logs (BBLOCK (of_nat 48) (sb s)) B)) {}"
    using f s(2) by auto
  moreover have "taken_block (sb s) 48 V 48 = replicate BSIZE 0" by (simp add: taken_block_def)
  moreover have "\<not> block_free V (sb s) 47" "block_free V (sb s) 48" using f(1,2) s(2) by simp_all
  ultimately show ?thesis using s(1) by blast
qed

theorem balloc_bfree_roundtrip_witness:
  "\<exists>(s :: fs_state) s1 s2. balloc 1 s = Ok (48, s1) \<and> bfree 1 48 s1 = Ok s2 \<and> bfree 1 48 s2 = Panic ''freeing free block''"
proof -
  have a: "46 \<notin> log_area 2" using log_area_2[of 46] by auto
  obtain s :: fs_state and V B where s: "fs_tx 0 1 2 s V B {}" "sb s = small_sb" "room 20 B {}" "V 46 = small_bitmap"
    using small_fs_tx[of "[(46, small_bitmap)]" "[]"] a by auto
  have h: "room 3 B {}" "bitmap_apart 2 {} V (sb s)" "first_free V (sb s) = Some 48" "length (V (BBLOCK (of_nat 48) (sb s))) = BSIZE" "BBLOCK (of_nat 48) (sb s) \<noteq> of_nat 48"
    using room_less[OF s(3)] small_bitmap_ok[where V = V, OF s(4)] small_block_free(2)[where V = V and b = 48, OF s(4)] s(2,4) by (simp_all add: small_bitmap_def BSIZE_def)
  from balloc_bfree_roundtrip[OF s(1) h] show ?thesis by auto
qed

end
