(* ===== verification/Fs_Inode.thy ===== *)
theory Fs_Inode
  imports Fs_Alloc
begin

text \<open>
  Inodes in memory and on disk: the inode table holds one entry per inode in use, whatever
  \<open>iget\<close>, \<open>idup\<close> and \<open>iput\<close> do, and \<open>ilock\<close> reads back what \<open>iupdate\<close> wrote.
\<close>

section \<open>The identity of the table's entries\<close>

definition ikey :: "inode \<Rightarrow> u32 \<times> u32 \<times> i32" where
  "ikey ip = (i_dev ip, i_inum ip, i_ref ip)"

definition ikeys :: "'z fs_state_scheme \<Rightarrow> (u32 \<times> u32 \<times> i32) list" where
  "ikeys s = map ikey (itable s)"

lemma ikeys_upd_same: "(\<And>ip. ikey (f ip) = ikey ip) \<Longrightarrow> ikeys (upd_inode i f s) = ikeys s"
  by (cases "i < length (itable s)") (simp_all add: ikeys_def upd_inode_def map_update list_update_same_conv list_update_beyond)

lemma ikeys_upd: "i < length (itable s) \<Longrightarrow> ikeys (upd_inode i f s) = (ikeys s)[i := ikey (f (itable s ! i))]"
  by (simp add: ikeys_def upd_inode_def map_update)

text \<open>Whatever it returns, no operation on locks, buffers or the log changes an entry.\<close>

lemma itable_locks:
  "kacquire l s = Ok s' \<Longrightarrow> itable s' = itable s" "krelease l s = Ok s' \<Longrightarrow> itable s' = itable s" "myproc s = Ok (r, s') \<Longrightarrow> itable s' = itable s"
  by (auto simp: kacquire_def krelease_def myproc_def bind_res_eq_Ok Let_def)

lemma fold_res_keeps:
  assumes "\<And>i s s'. f i s = Ok s' \<Longrightarrow> g s' = g s" "fold_res f is s = Ok s'"
  shows "g s' = g s"
  using assms(2) by (induction "is" arbitrary: s) (auto simp: bind_res_eq_Ok dest!: assms(1))

lemma itable_wakeup: "wakeup c s = Ok s' \<Longrightarrow> itable s' = itable s"
  unfolding wakeup_def
  by (erule fold_res_keeps[rotated]) (auto simp: wakeup_one_def upd_proc_def bind_res_eq_Ok Let_def split: if_splits dest!: itable_locks)

lemma itable_slocks:
  "acquiresleep l s = Ok s' \<Longrightarrow> itable s' = itable s" "releasesleep l s = Ok s' \<Longrightarrow> itable s' = itable s"
  "holdingsleep l s = Ok (h, s') \<Longrightarrow> itable s' = itable s"
proof -
  show "itable s' = itable s" if "acquiresleep l s = Ok s'"
    using that by (auto simp: acquiresleep_def acquiresleep_start_def acquiresleep_loop_def upd_slock_def deref_def bind_res_eq_Ok Let_def
        split: if_splits option.splits wait_result.splits dest!: itable_locks)
  show "itable s' = itable s" if "releasesleep l s = Ok s'"
    using that by (auto simp: releasesleep_def upd_slock_def bind_res_eq_Ok Let_def dest!: itable_locks itable_wakeup)
  show "itable s' = itable s" if "holdingsleep l s = Ok (h, s')"
    using that by (auto simp: holdingsleep_def deref_def bind_res_eq_Ok split: if_splits option.splits dest!: itable_locks)
qed

lemma itable_upd_buf [simp]: "itable (upd_buf b f s) = itable s"
  by (simp add: upd_buf_def)

lemma itable_blocks:
  "bread dv n s = Ok (b, s') \<Longrightarrow> itable s' = itable s" "brelse b s = Ok s' \<Longrightarrow> itable s' = itable s" "log_write b s = Ok s' \<Longrightarrow> itable s' = itable s"
proof -
  have rw: "disk_rw b w s = Ok s' \<Longrightarrow> itable s' = itable s" for b w and s s' :: "'a fs_state_scheme"
    by (auto simp: disk_rw_def bind_res_eq_Ok Let_def split: if_splits dest!: itable_locks)
  have bget: "itable s' = itable s" if e: "bget dv n s = Ok (b, s')" for s s' :: "'a fs_state_scheme" and b
  proof -
    obtain x where "kacquire L_bcache s = Ok x" using e by (auto simp: bget_def bind_res_eq_Ok)
    then show ?thesis using e
      by (cases "find_cached (bufs x) dv n (b_next (the_buf NBUF x))"; cases "the (find_cached (bufs x) dv n (b_next (the_buf NBUF x)))";
          cases "find_free (bufs x) (b_prev (the_buf NBUF x))"; cases "the (find_free (bufs x) (b_prev (the_buf NBUF x)))")
        (auto simp: bget_def bind_res_eq_Ok Let_def dest!: itable_locks itable_slocks)
  qed
  show "itable s' = itable s" if "bread dv n s = Ok (b, s')"
    using that by (auto simp: bread_def bind_res_eq_Ok split: if_splits dest!: bget rw)
  show "itable s' = itable s" if "brelse b s = Ok s'"
    using that by (auto simp: brelse_def bind_res_eq_Ok Let_def split: if_splits dest!: itable_locks itable_slocks)
  have "bpin b s = Ok s' \<Longrightarrow> itable s' = itable s" for s s' :: "'a fs_state_scheme"
    by (auto simp: bpin_def bind_res_eq_Ok dest!: itable_locks)
  then show "itable s' = itable s" if "log_write b s = Ok s'"
    using that by (auto simp: log_write_def lh_set_def bind_res_eq_Ok Let_def split: if_splits dest!: itable_locks)
qed

lemma ikeys_itable: "itable s' = itable s \<Longrightarrow> ikeys s' = ikeys s"
  by (simp add: ikeys_def)

text \<open>Operations on one inode change neither its identity nor another entry's.\<close>

lemma bfree_ikeys: "bfree dv b s = Ok s' \<Longrightarrow> ikeys s' = ikeys s"
  by (rule ikeys_itable) (auto simp: bfree_def bind_res_eq_Ok Let_def split: if_splits dest!: itable_blocks)

lemma iupdate_ikeys: "iupdate i s = Ok s' \<Longrightarrow> ikeys s' = ikeys s"
  by (rule ikeys_itable) (auto simp: iupdate_def bind_res_eq_Ok Let_def dest!: itable_blocks)

lemma addr_set_ikeys [simp]: "ikeys (addr_set i k a s) = ikeys s"
  unfolding addr_set_def by (rule ikeys_upd_same) (simp add: ikey_def)

lemma itrunc_ikeys:
  assumes "itrunc i s = Ok s'"
  shows "ikeys s' = ikeys s"
proof -
  have d: "ikeys t' = ikeys t" if "fold_res (trunc_direct i) ks t = Ok t'" for ks and t t' :: "'a fs_state_scheme"
    using that by (rule fold_res_keeps[rotated]) (auto simp: trunc_direct_def bind_res_eq_Ok split: if_splits dest!: bfree_ikeys)
  have n: "ikeys t' = ikeys t" if "fold_res (trunc_indirect i b) ks t = Ok t'" for b ks and t t' :: "'a fs_state_scheme"
    using that by (rule fold_res_keeps[rotated]) (auto simp: trunc_indirect_def Let_def split: if_splits dest!: bfree_ikeys)
  have z: "ikeys (upd_inode i (i_size_update (\<lambda>_. 0)) t) = ikeys t" for t :: "'a fs_state_scheme"
    by (rule ikeys_upd_same) (simp add: ikey_def)
  show ?thesis using assms
    by (auto simp: itrunc_def bind_res_eq_Ok z split: if_splits dest!: d n iupdate_ikeys bfree_ikeys itable_blocks[THEN ikeys_itable])
qed

section \<open>One entry per inode\<close>

text \<open>The entries in use have distinct inodes and positive reference counts.\<close>

definition itable_ok :: "(u32 \<times> u32 \<times> i32) list \<Rightarrow> bool" where
  "itable_ok ks \<longleftrightarrow> length ks = NINODE \<and> (\<forall>(d, n, r) \<in> set ks. 0 \<le> sint r)
     \<and> (\<forall>i < NINODE. \<forall>j < NINODE. \<forall>d n r r'. ks ! i = (d, n, r) \<longrightarrow> ks ! j = (d, n, r') \<longrightarrow> r \<noteq> 0 \<longrightarrow> r' \<noteq> 0 \<longrightarrow> i = j)"

lemma itable_ok_update:
  assumes "itable_ok ks" "i < NINODE" "0 \<le> sint r"
    "\<And>j r'. j < NINODE \<Longrightarrow> j \<noteq> i \<Longrightarrow> ks ! j = (d, n, r') \<Longrightarrow> r = 0 \<or> r' = 0"
  shows "itable_ok (ks[i := (d, n, r)])"
  using assms set_update_subset_insert[of ks i "(d, n, r)"] unfolding itable_ok_def
  by (auto simp: nth_list_update split: if_splits)

lemma sint_succ: "sint (r :: i32) < 2 ^ 31 - 1 \<Longrightarrow> sint (r + 1) = sint r + 1"
  using sint_ge[of r] by (simp add: sint_word_ariths signed_take_bit_int_eq_self)

lemma sint_pred: "0 < sint (r :: i32) \<Longrightarrow> sint (r - 1) = sint r - 1"
  using sint_lt[of r] by (simp add: sint_word_ariths signed_take_bit_int_eq_self)

lemma itable_okD:
  assumes "itable_ok ks" "i < NINODE" "ks ! i = (d, n, r)"
  shows "0 \<le> sint r" "\<And>j r'. j < NINODE \<Longrightarrow> j \<noteq> i \<Longrightarrow> ks ! j = (d, n, r') \<Longrightarrow> r = 0 \<or> r' = 0"
proof -
  have "(d, n, r) \<in> set ks" using assms nth_mem[of i ks] by (simp add: itable_ok_def)
  then show "0 \<le> sint r" using assms(1) by (auto simp: itable_ok_def)
  show "r = 0 \<or> r' = 0" if "j < NINODE" "j \<noteq> i" "ks ! j = (d, n, r')" for j r'
    using assms that unfolding itable_ok_def by blast
qed

lemma ikeys_nth: "itable_ok (ikeys s) \<Longrightarrow> i < NINODE \<Longrightarrow> ikeys s ! i = (i_dev (itable s ! i), i_inum (itable s ! i), i_ref (itable s ! i))"
  by (simp add: ikeys_def itable_ok_def ikey_def)

lemma release_upd_ikeys:
  assumes "kacquire L_itable s = Ok x" "krelease L_itable (upd_inode i f x) = Ok s'" "itable_ok (ikeys s)" "i < NINODE"
  shows "ikeys s' = (ikeys s)[i := ikey (f (itable s ! i))]"
proof -
  have e: "itable x = itable s" "itable s' = itable (upd_inode i f x)" using assms(1,2) by (auto dest: itable_locks)
  have "i < length (itable x)" using assms(3,4) e(1) by (simp add: itable_ok_def ikeys_def)
  then show ?thesis using ikeys_itable[OF e(2)] ikeys_itable[OF e(1)] ikeys_upd e(1) by metis
qed

lemma iget_ikeys:
  assumes "iget dev inum s = Ok (i, s')" "itable_ok (ikeys s)" "\<forall>(d, n, r) \<in> set (ikeys s). sint r < 2 ^ 31 - 1"
  shows "itable_ok (ikeys s') \<and> i < NINODE \<and> (\<exists>r. ikeys s' = (ikeys s)[i := (dev, inum, r + 1)] \<and> (if r = 0 then snd (snd (ikeys s ! i)) = 0 else ikeys s ! i = (dev, inum, r)))"
proof -
  obtain x where x: "kacquire L_itable s = Ok x" "itable x = itable s" using assms(1) by (auto simp: iget_def bind_res_eq_Ok dest: itable_locks)
  have nn: "j < NINODE \<Longrightarrow> 0 \<le> sint (i_ref (itable s ! j))" for j using itable_okD(1)[OF assms(2) _ ikeys_nth[OF assms(2)]] by blast
  show ?thesis
  proof (cases "iget_find dev inum (itable s)")
    case (Some j)
    then have j: "j < NINODE" "0 < sint (i_ref (itable s ! j))" "i_dev (itable s ! j) = dev" "i_inum (itable s ! j) = inum"
      by (auto simp: iget_find_def find_Some_iff)
    let ?r = "i_ref (itable s ! j)"
    have k: "ikeys s ! j = (dev, inum, ?r)" using ikeys_nth[OF assms(2) j(1)] j by simp
    have "(dev, inum, ?r) \<in> set (ikeys s)" using nth_mem[of j "ikeys s"] k j(1) assms(2) by (simp add: itable_ok_def)
    then have r: "sint (?r + 1) = sint ?r + 1" using assms(3) by (intro sint_succ) auto
    obtain "i = j" and "krelease L_itable (upd_inode j (\<lambda>ip. ip\<lparr>i_ref := i_ref ip + 1\<rparr>) x) = Ok s'"
      using assms(1) x Some by (auto simp: iget_def bind_res_eq_Ok)
    then have e: "i = j" "ikeys s' = (ikeys s)[j := (dev, inum, ?r + 1)]"
      using release_upd_ikeys[OF x(1) _ assms(2) j(1)] j by (auto simp: ikey_def)
    have "?r \<noteq> 0" using j(2) by auto
    then have "r' = 0" if "l < NINODE" "l \<noteq> j" "ikeys s ! l = (dev, inum, r')" for l r' using itable_okD(2)[OF assms(2) j(1) k that] by simp
    then have "itable_ok (ikeys s')" unfolding e(2) using r j(2) by (intro itable_ok_update[OF assms(2) j(1)]) auto
    then show ?thesis using e k j(1) \<open>?r \<noteq> 0\<close> by (intro conjI exI[of _ ?r]) simp_all
  next
    case None
    then have none: "\<not> (0 < sint (i_ref (itable s ! l)) \<and> i_dev (itable s ! l) = dev \<and> i_inum (itable s ! l) = inum)" if "l < NINODE" for l
      using that unfolding iget_find_def find_None_iff by auto
    obtain j where j: "iget_empty (itable s) = Some j" "i = j"
        and "krelease L_itable (upd_inode j (\<lambda>ip. ip\<lparr>i_dev := dev, i_inum := inum, i_ref := 1, i_valid := 0\<rparr>) x) = Ok s'"
      using assms(1) x None by (auto simp: iget_def bind_res_eq_Ok split: option.split_asm)
    moreover have jn: "j < NINODE" "i_ref (itable s ! j) = 0" using j(1) by (auto simp: iget_empty_def find_Some_iff)
    ultimately have e: "ikeys s' = (ikeys s)[j := (dev, inum, 1)]"
      using release_upd_ikeys[OF x(1) _ assms(2) jn(1)] by (auto simp: ikey_def)
    have "r' = 0" if "l < NINODE" "l \<noteq> j" "ikeys s ! l = (dev, inum, r')" for l r'
    proof -
      have "sint r' = 0" using none[OF that(1)] nn[OF that(1)] ikeys_nth[OF assms(2) that(1)] that(3) by force
      then show ?thesis by (metis signed_0 signed_word_eqI)
    qed
    then have "itable_ok (ikeys s')" unfolding e by (intro itable_ok_update[OF assms(2) jn(1)]) auto
    then show ?thesis using e j(2) jn ikeys_nth[OF assms(2) jn(1)] by (intro conjI exI[of _ 0]) simp_all
  qed
qed

lemma idup_ikeys:
  assumes "idup i s = Ok (i', s')" "itable_ok (ikeys s)" "i < NINODE" "ikeys s ! i = (d, n, r)" "r \<noteq> 0" "sint r < 2 ^ 31 - 1"
  shows "itable_ok (ikeys s') \<and> i' = i \<and> ikeys s' = (ikeys s)[i := (d, n, r + 1)]"
proof -
  obtain x where "i' = i" "kacquire L_itable s = Ok x" "krelease L_itable (upd_inode i (\<lambda>ip. ip\<lparr>i_ref := i_ref ip + 1\<rparr>) x) = Ok s'"
    using assms(1) by (auto simp: idup_def bind_res_eq_Ok)
  then have e: "i' = i" "ikeys s' = (ikeys s)[i := (d, n, r + 1)]"
    using release_upd_ikeys[of s x i _ s'] assms(2-4) ikeys_nth[OF assms(2,3)] by (auto simp: ikey_def)
  have "r' = 0" if "l < NINODE" "l \<noteq> i" "ikeys s ! l = (d, n, r')" for l r' using itable_okD(2)[OF assms(2-4) that] assms(5) by simp
  then have "itable_ok (ikeys s')" unfolding e(2)
    using sint_succ[OF assms(6)] itable_okD(1)[OF assms(2-4)] by (intro itable_ok_update[OF assms(2,3)]) auto
  then show ?thesis using e by simp
qed

lemma iput_ikeys:
  assumes "iput i s = Ok s'" "itable_ok (ikeys s)" "i < NINODE" "ikeys s ! i = (d, n, r)" "r \<noteq> 0"
  shows "itable_ok (ikeys s') \<and> ikeys s' = (ikeys s)[i := (d, n, r - 1)]"
proof -
  let ?dec = "\<lambda>ip. ip\<lparr>i_ref := i_ref ip - 1\<rparr>"
  have ty: "ikeys (upd_inode i (i_type_update (\<lambda>_. 0)) t) = ikeys t" "ikeys (upd_inode i (i_valid_update (\<lambda>_. 0)) t) = ikeys t" for t :: "'a fs_state_scheme"
    by (rule ikeys_upd_same, simp add: ikey_def)+
  obtain x y where x: "kacquire L_itable s = Ok x" and z: "krelease L_itable (upd_inode i ?dec y) = Ok s'"
      and m: "(if i_ref (the_inode i x) = 1 \<and> i_valid (the_inode i x) \<noteq> 0 \<and> i_nlink (the_inode i x) = 0
        then bind_res (acquiresleep (SL_inode i) x) (\<lambda>s. bind_res (krelease L_itable s) (\<lambda>s. bind_res (itrunc i s) (\<lambda>s.
          bind_res (iupdate i (upd_inode i (i_type_update (\<lambda>_. 0)) s)) (\<lambda>s.
          bind_res (releasesleep (SL_inode i) (upd_inode i (i_valid_update (\<lambda>_. 0)) s)) (\<lambda>s. kacquire L_itable s)))))
        else Ok x) = Ok y"
    using assms(1) unfolding iput_def bind_res_eq_Ok[where r = "kacquire L_itable s"] bind_res_eq_Ok[where r = "if _ then _ else _"] by blast
  have y: "ikeys s' = ikeys (upd_inode i ?dec y)" using ikeys_itable[OF itable_locks(2)[OF z]] .
  have "ikeys y = ikeys x" using m by (auto simp: bind_res_eq_Ok ty split: if_splits
        dest!: itrunc_ikeys iupdate_ikeys itable_locks[THEN ikeys_itable] itable_slocks[THEN ikeys_itable])
  then have ks: "ikeys y = ikeys s" using ikeys_itable[OF itable_locks(1)[OF x]] by simp
  have "itable_ok (ikeys y)" using ks assms(2) by simp
  then have "i < length (itable y)" "itable y ! i = itable y ! i" using assms(3) by (simp_all add: itable_ok_def ikeys_def)
  then have "ikeys (upd_inode i ?dec y) = (ikeys s)[i := (d, n, r - 1)]"
    using ks assms(4) ikeys_nth[OF \<open>itable_ok (ikeys y)\<close> assms(3)] ikeys_upd[of i y ?dec] by (simp add: ikey_def)
  then have e: "ikeys s' = (ikeys s)[i := (d, n, r - 1)]" using y by simp
  have r: "0 < sint r"
  proof -
    have "sint r \<noteq> 0" using assms(5) by (metis signed_0 signed_word_eqI)
    then show ?thesis using itable_okD(1)[OF assms(2-4)] by simp
  qed
  have "r' = 0" if "l < NINODE" "l \<noteq> i" "ikeys s ! l = (d, n, r')" for l r' using itable_okD(2)[OF assms(2-4) that] assms(5) by simp
  then have "itable_ok (ikeys s')" unfolding e using sint_pred[OF r] r by (intro itable_ok_update[OF assms(2,3)]) auto
  then show ?thesis using e by simp
qed

lemma iget_returns:
  assumes "kheld {} s" "k < NINODE" "i_ref (itable s ! k) = 0"
  shows "\<exists>i s'. iget dev inum s = Ok (i, s') \<and> kheld {} s' \<and> sb s' = sb s"
proof -
  obtain y where y: "kacquire L_itable s = Ok (s\<lparr>sy := y\<rparr>)" "same_cpu {L_itable} (sy s) y"
    using kacquire_same[OF assms(1), of L_itable] by auto
  have r: "\<exists>s'. krelease L_itable (upd_inode j f (s\<lparr>sy := y\<rparr>)) = Ok s' \<and> kheld {} s' \<and> sb s' = sb s" for j f
  proof -
    obtain z where "krelease L_itable (upd_inode j f (s\<lparr>sy := y\<rparr>)) = Ok ((upd_inode j f (s\<lparr>sy := y\<rparr>))\<lparr>sy := z\<rparr>)" "held {} z"
      using krelease_same[of "{L_itable}" "upd_inode j f (s\<lparr>sy := y\<rparr>)" L_itable] same_cpuD[OF y(2)] by (auto simp: upd_inode_def same_cpu_def)
    then show ?thesis by (simp add: upd_inode_def)
  qed
  have "iget_empty (itable s) \<noteq> None" using assms(2,3) by (auto simp: iget_empty_def find_None_iff)
  then obtain j where j: "iget_empty (itable s) = Some j" by blast
  show ?thesis
  proof (cases "iget_find dev inum (itable s)")
    case None
    then show ?thesis using y(1) j r[of j "\<lambda>ip. ip\<lparr>i_dev := dev, i_inum := inum, i_ref := 1, i_valid := 0\<rparr>"] by (auto simp: iget_def)
  next
    case (Some k)
    then show ?thesis using y(1) r[of k "\<lambda>ip. ip\<lparr>i_ref := i_ref ip + 1\<rparr>"] by (auto simp: iget_def)
  qed
qed

text \<open>
  C7. The inode table never has two entries in use for one inode: if the entries in use have distinct device and
  inode numbers and non-negative counts, this is so after \<open>iget\<close>, \<open>idup\<close> and \<open>iput\<close> (its truncating branch included).
  \<open>iget\<close> adds one to the count of the inode's entry or takes an entry with count 0, \<open>idup\<close> adds one, \<open>iput\<close> takes one
  away, and no other entry changes; with the table's lock free and an unused entry \<open>iget\<close> does return.\<close>

theorem inode_table_unique:
  assumes "itable_ok (ikeys s)" "\<forall>(d, n, r) \<in> set (ikeys s). sint r < 2 ^ 31 - 1"
  shows "(\<forall>dev inum i s'. iget dev inum s = Ok (i, s') \<longrightarrow> itable_ok (ikeys s') \<and> i < NINODE
      \<and> (\<exists>r. ikeys s' = (ikeys s)[i := (dev, inum, r + 1)] \<and> (if r = 0 then snd (snd (ikeys s ! i)) = 0 else ikeys s ! i = (dev, inum, r))))
    \<and> (\<forall>i j s' d n r. idup i s = Ok (j, s') \<longrightarrow> i < NINODE \<longrightarrow> ikeys s ! i = (d, n, r) \<longrightarrow> r \<noteq> 0 \<longrightarrow>
        itable_ok (ikeys s') \<and> j = i \<and> ikeys s' = (ikeys s)[i := (d, n, r + 1)])
    \<and> (\<forall>i s' d n r. iput i s = Ok s' \<longrightarrow> i < NINODE \<longrightarrow> ikeys s ! i = (d, n, r) \<longrightarrow> r \<noteq> 0 \<longrightarrow>
        itable_ok (ikeys s') \<and> ikeys s' = (ikeys s)[i := (d, n, r - 1)])
    \<and> (kheld {} s \<longrightarrow> (\<exists>k < NINODE. i_ref (itable s ! k) = 0) \<longrightarrow> (\<forall>dev inum. \<exists>i s'. iget dev inum s = Ok (i, s')))"
proof (intro conjI allI impI)
  show "itable_ok (ikeys s')" "i < NINODE"
      "\<exists>r. ikeys s' = (ikeys s)[i := (dev, inum, r + 1)] \<and> (if r = 0 then snd (snd (ikeys s ! i)) = 0 else ikeys s ! i = (dev, inum, r))"
    if "iget dev inum s = Ok (i, s')" for dev inum i s'
    using iget_ikeys[OF that assms] by blast+
  have lt: "sint r < 2 ^ 31 - 1" if "i < NINODE" "ikeys s ! i = (d, n, r)" for i d n r
    using assms nth_mem[of i "ikeys s"] that by (auto simp: itable_ok_def)
  show "itable_ok (ikeys s')" "j = i" "ikeys s' = (ikeys s)[i := (d, n, r + 1)]"
    if "idup i s = Ok (j, s')" "i < NINODE" "ikeys s ! i = (d, n, r)" "r \<noteq> 0" for i j s' d n r
    using idup_ikeys[OF that(1) assms(1) that(2-4) lt[OF that(2,3)]] by blast+
  show "itable_ok (ikeys s')" "ikeys s' = (ikeys s)[i := (d, n, r - 1)]"
    if "iput i s = Ok s'" "i < NINODE" "ikeys s ! i = (d, n, r)" "r \<noteq> 0" for i s' d n r
    using iput_ikeys[OF that(1) assms(1) that(2-4)] by blast+
  show "\<exists>i s'. iget dev inum s = Ok (i, s')" if "kheld {} s" "\<exists>k < NINODE. i_ref (itable s ! k) = 0" for dev inum
    using iget_returns[OF that(1)] that(2) by blast
qed

theorem inode_table_unique_witness:
  "\<exists>(s :: fs_state) i s' r. kheld {} s \<and> iget 1 1 s = Ok (i, s') \<and> itable_ok (ikeys s') \<and> ikeys s' ! i = (1, 1, r + 1)"
proof -
  obtain s :: fs_state and V B where s: "fs_tx 0 1 2 s V B {}" "itable s = replicate NINODE free_inode"
    using small_fs_tx[of "[]" "replicate NINODE free_inode"] by auto
  have h: "kheld {} s" using s(1) txD(2)[of 0 s V B "{}"] by (simp add: fs_tx_def ready_def)
  have k: "ikeys s = replicate NINODE (0, 0, 0)" using s(2) by (simp add: ikeys_def ikey_def free_inode_def)
  have ok: "itable_ok (ikeys s)" "\<forall>(d, n, r) \<in> set (ikeys s). sint r < 2 ^ 31 - 1" unfolding k itable_ok_def by auto
  have "\<exists>k < NINODE. i_ref (itable s ! k) = 0" using s(2) by (intro exI[of _ 0]) (simp add: free_inode_def NINODE_def)
  then obtain i s' where g: "iget 1 1 s = Ok (i, s')" using inode_table_unique[OF ok] h by blast
  then obtain r where "itable_ok (ikeys s')" "i < NINODE" "ikeys s' = (ikeys s)[i := (1, 1, r + 1)]" using inode_table_unique[OF ok] by blast
  then show ?thesis using h g k by (intro exI[of _ s] exI[of _ i] exI[of _ s'] exI[of _ r]) simp
qed

section \<open>The inode on disk\<close>

lemma length_put_addrs [simp]: "length (fold (\<lambda>i. put32 (f + 12 + 4 * i) (as ! i)) is d) = length d"
  by (induction "is" arbitrary: d) simp_all

lemma length_put_inode [simp]: "length (put_inode f ip d) = length d"
  by (simp add: put_inode_def put_addrs_def)

lemma put_addrs_outside:
  "j + 2 \<le> f + 12 \<Longrightarrow> get16 j (fold (\<lambda>i. put32 (f + 12 + 4 * i) (as ! i)) is d) = get16 j d"
  "j + 4 \<le> f + 12 \<Longrightarrow> get32 j (fold (\<lambda>i. put32 (f + 12 + 4 * i) (as ! i)) is d) = get32 j d"
  by (induction "is" arbitrary: d) simp_all

lemma put_addrs_at:
  assumes "k < n" "f + 12 + 4 * n \<le> length d"
  shows "get32 (f + 12 + 4 * k) (fold (\<lambda>i. put32 (f + 12 + 4 * i) (as ! i)) [0..<n] d) = as ! k"
  using assms
proof (induction n)
  case (Suc n)
  show ?case
  proof (cases "k = n")
    case True
    then show ?thesis using Suc.prems by simp
  next
    case False
    then show ?thesis using Suc by simp
  qed
qed simp

lemma get_put_inode:
  assumes "f + DINODE_SIZE \<le> length d" "length (i_addrs ip) = NDIRECT + 1"
  shows "get_inode f (put_inode f ip d) jp = jp\<lparr>i_type := i_type ip, i_major := i_major ip, i_minor := i_minor ip,
    i_nlink := i_nlink ip, i_size := i_size ip, i_addrs := i_addrs ip\<rparr>"
proof -
  have l: "f + 12 + 4 * (NDIRECT + 1) \<le> length d" using assms(1) by (simp add: DINODE_SIZE_def NDIRECT_def)
  have "get_addrs f (put_inode f ip d) = i_addrs ip"
    using assms(2) l by (intro nth_equalityI) (simp_all add: get_addrs_def put_inode_def put_addrs_def put_addrs_at del: upt_Suc)
  then show ?thesis using l by (simp add: get_inode_def) (simp add: put_inode_def put_addrs_def put_addrs_outside del: upt_Suc)
qed

text \<open>A transaction does not see the inode table or the inodes' sleep locks.\<close>

lemma fs_tx_cong:
  assumes "fs_tx p dv st s V B K" "held {} (sy s')" "curproc s' = Some p" "ptable s' = ptable s" "bufs s' = bufs s" "disk s' = disk s"
    "\<And>i. slocks s' (SL_buf i) = slocks s (SL_buf i)" "lh_n s' = lh_n s" "lh_block s' = lh_block s" "log_start s' = log_start s"
    "log_dev s' = log_dev s" "log_outstanding s' = log_outstanding s" "log_committing s' = log_committing s"
  shows "fs_tx p dv st s' V B K"
proof -
  have t: "tx p s V B K" using assms(1) by (simp add: fs_tx_def)
  have "curproc s = Some p" using txD(2)[OF t] by (simp add: ready_def)
  then have "cache d s' V R K = cache d s V R K" for d R using assms by (simp add: cache_def buf_ok_def has_block_def)
  then show ?thesis using assms t txD(2)[OF t] by (simp add: fs_tx_def tx_def logged_def ready_def)
qed

lemma fs_tx_upd_inode: "fs_tx p dv st s V B K \<Longrightarrow> fs_tx p dv st (upd_inode i f s) V B K"
proof -
  assume t: "fs_tx p dv st s V B K"
  then have "kheld {} s" "curproc s = Some p" using txD(2)[of p s V B K] by (simp_all add: fs_tx_def ready_def)
  then show ?thesis by (intro fs_tx_cong[OF t]) (simp_all add: upd_inode_def)
qed

lemma iupdate_spec:
  assumes "fs_tx p dv st s V B K" "i_dev (the_inode i s) = dv" "n = IBLOCK (i_inum (the_inode i s)) (sb s)" "n \<notin> K" "n \<notin> log_area st" "room 1 B K"
  shows "\<exists>s'. iupdate i s = Ok s' \<and> log_frame s s' \<and> disk s' = disk s
    \<and> fs_tx p dv st s' (V(n := put_inode (dinode_off (i_inum (the_inode i s))) (the_inode i s) (V n))) (logs n B) K"
proof -
  let ?f = "put_inode (dinode_off (i_inum (the_inode i s))) (the_inode i s)"
  obtain b s1 s2 s3 where r: "bread dv n s = Ok (b, s1)" "log_write b (upd_buf b (b_data_update ?f) s1) = Ok s2" "brelse b s2 = Ok s3"
      "log_frame s s1" "log_frame s s3" "fs_tx p dv st s3 (V(n := ?f (V n))) (logs n B) K" "disk s3 = disk s"
    using fs_modify[OF assms(1,4,5,6), of ?f] by blast
  have "itable s1 = itable s" by (rule log_frame_fs(2)[OF r(4)])
  then have "iupdate i s = Ok s3" using r(1-3) assms(2,3) by (simp add: iupdate_def)
  then show ?thesis using r(5-7) by blast
qed

text \<open>Holding a buffer while the inode changes.\<close>

lemma fs_hold:
  assumes "fs_tx p dv st s V B K" "n \<notin> K" "room 1 B K"
  shows "\<exists>b s1. bread dv n s = Ok (b, s1) \<and> b_data (the_buf b s1) = V n \<and> log_frame s s1 \<and> fs_tx p dv st s1 V B (insert n K)
    \<and> has_block dv s1 n b \<and> (n \<in> set B \<or> V n = disk s1 n)"
proof -
  have t: "tx p s V B K \<and> log_dev s = dv \<and> log_start s = st" using assms(1) by (simp add: fs_tx_def)
  obtain b s1 where s1: "bread dv n s = Ok (b, s1)" "log_frame s s1" "tx p s1 V B (insert n K) \<and> log_dev s1 = dv \<and> log_start s1 = st"
      "has_block dv s1 n b" "b_data (the_buf b s1) = V n" "disk s1 = disk s"
    using txn.rd_law[OF t assms(2)] room_card(1)[of 0 B K] assms(3) by auto
  moreover have "n \<in> set B \<or> V n = disk s1 n" using tx_clean[of p s V B K n] t assms(2) s1(6) by auto
  ultimately show ?thesis by (simp add: fs_tx_def)
qed

lemma fs_drop:
  assumes "fs_tx p dv st s V B (insert n K)" "has_block dv s n b" "n \<notin> K" "n \<in> set B \<or> V n = disk s n"
  shows "\<exists>s'. brelse b s = Ok s' \<and> log_frame s s' \<and> fs_tx p dv st s' V B K"
proof -
  have t: "tx p s V B (insert n K) \<and> log_dev s = dv \<and> log_start s = st" using assms(1) by (simp add: fs_tx_def)
  have "insert n K - {n} = K" using assms(3) by blast
  then show ?thesis using txn.rel_law[OF t assms(2)] assms(4) by (auto simp: fs_tx_def)
qed

text \<open>The lock of an inode that nobody holds.\<close>

lemma acquire_inode:
  assumes "fs_tx p dv st s V B K" "sl_locked (slocks s (SL_inode i)) = 0"
  shows "\<exists>s'. acquiresleep (SL_inode i) s = Ok s' \<and> fs_tx p dv st s' V B K \<and> itable s' = itable s \<and> sb s' = sb s
    \<and> sl_locked (slocks s' (SL_inode i)) = 1"
proof -
  have rd: "kheld {} s" "curproc s = Some p" using assms(1) txD(2)[of p s V B K] by (simp_all add: fs_tx_def ready_def)
  obtain y where y: "acquiresleep (SL_inode i) s = Ok (s\<lparr>sy := y,
      slocks := (slocks s)(SL_inode i := (slocks s (SL_inode i))\<lparr>sl_locked := 1, sl_pid := p_pid (the_proc p s)\<rparr>)\<rparr>)" "same_cpu {} (sy s) y"
    using acquiresleep_free[OF rd(1) _ _ rd(2) assms(2)] by auto
  moreover have "fs_tx p dv st (s\<lparr>sy := y,
      slocks := (slocks s)(SL_inode i := (slocks s (SL_inode i))\<lparr>sl_locked := 1, sl_pid := p_pid (the_proc p s)\<rparr>)\<rparr>) V B K"
    using same_cpuD[OF y(2)] rd by (intro fs_tx_cong[OF assms(1)]) simp_all
  ultimately show ?thesis by simp
qed

lemma ilock_spec:
  assumes "fs_tx p dv st s V B K" "i < length (itable s)" "i_dev (the_inode i s) = dv" "i_valid (the_inode i s) = 0" "1 \<le> sint (i_ref (the_inode i s))"
    "sl_locked (slocks s (SL_inode i)) = 0" "n = IBLOCK (i_inum (the_inode i s)) (sb s)" "n \<notin> K" "room 1 B K"
    "jp = (get_inode (dinode_off (i_inum (the_inode i s))) (V n) (the_inode i s))\<lparr>i_valid := 1\<rparr>"
  shows "if i_type jp = 0 then ilock (Some i) s = Panic ''ilock: no type''
    else \<exists>s'. ilock (Some i) s = Ok s' \<and> fs_tx p dv st s' V B K \<and> itable s' = (itable s)[i := jp] \<and> sl_locked (slocks s' (SL_inode i)) = 1"
proof -
  obtain s0 where s0: "acquiresleep (SL_inode i) s = Ok s0" "fs_tx p dv st s0 V B K" "itable s0 = itable s" "sb s0 = sb s" "sl_locked (slocks s0 (SL_inode i)) = 1"
    using acquire_inode[OF assms(1,6)] by blast
  obtain b s1 where r: "bread dv n s0 = Ok (b, s1)" "b_data (the_buf b s1) = V n" "log_frame s0 s1" "fs_tx p dv st s1 V B (insert n K)"
      "has_block dv s1 n b" "n \<in> set B \<or> V n = disk s1 n"
    using fs_hold[OF s0(2) assms(8,9)] by blast
  let ?g = "get_inode (dinode_off (i_inum (the_inode i s))) (V n)"
  have s1: "itable s1 = itable s" "sl_locked (slocks s1 (SL_inode i)) = 1" using log_frame_fs(2,8)[OF r(3)] s0(3,5) by simp_all
  let ?t = "upd_inode i ?g s1"
  have "has_block dv ?t n b" "n \<in> set B \<or> V n = disk ?t n" using r(5,6) by (simp_all add: has_block_def upd_inode_def)
  then obtain s2 where s2: "brelse b ?t = Ok s2" "log_frame ?t s2" "fs_tx p dv st s2 V B K"
    using fs_drop[OF fs_tx_upd_inode[OF r(4)] _ assms(8)] by blast
  let ?u = "upd_inode i (i_valid_update (\<lambda>_. 1)) s2"
  have u: "itable ?u = (itable s)[i := jp]" "sl_locked (slocks ?u (SL_inode i)) = 1"
    using log_frame_fs(2,8)[OF s2(2)] s1 assms(2,10) by (simp_all add: upd_inode_def)
  have "ilock_read i s0 = (if i_type jp = 0 then Panic ''ilock: no type'' else Ok ?u)"
    using r(1,2) s2(1) s0(3,4) assms(2,3,4,7) u(1) by (simp add: ilock_read_def)
  moreover have "fs_tx p dv st ?u V B K" by (rule fs_tx_upd_inode[OF s2(3)])
  ultimately show ?thesis using assms(5) s0(1) u by (simp add: ilock_def)
qed

lemma dinode_off_bound: "dinode_off inum + DINODE_SIZE \<le> BSIZE"
proof -
  have "unat inum mod IPB < IPB" by (simp add: IPB_def BSIZE_def DINODE_SIZE_def)
  then show ?thesis by (simp add: dinode_off_def IPB_def BSIZE_def DINODE_SIZE_def)
qed

text \<open>
  C8. An inode survives its trip to disk: \<open>iupdate\<close> logs a change of the inode's own block only, and from any later
  point at which the blocks are as it left them, \<open>ilock\<close> on a table entry that \<open>iget\<close> has set up for the same inode
  returns with the entry locked, valid, and holding the type, device numbers, link count, size and all thirteen block
  addresses that were written; the other entries of the table are untouched.\<close>

theorem iupdate_ilock_roundtrip:
  fixes s :: "'z fs_state_scheme"
  assumes "fs_tx p dv st s V B K" "room 1 B K" "ip = the_inode i s" "i_dev ip = dv" "n = IBLOCK (i_inum ip) (sb s)" "n \<notin> K" "n \<notin> log_area st"
    "length (V n) = BSIZE" "length (i_addrs ip) = NDIRECT + 1" "i_type ip \<noteq> 0"
  shows "\<exists>s' V'. iupdate i s = Ok s' \<and> log_frame s s' \<and> fs_tx p dv st s' V' (logs n B) K \<and> (\<forall>m. m \<noteq> n \<longrightarrow> V' m = V m)
    \<and> (\<forall>(t :: 'z fs_state_scheme) B' j jp. fs_tx p dv st t V' B' K \<longrightarrow> room 1 B' K \<longrightarrow> sb t = sb s \<longrightarrow> j < length (itable t) \<longrightarrow> jp = the_inode j t
        \<longrightarrow> i_dev jp = dv \<longrightarrow> i_inum jp = i_inum ip \<longrightarrow> i_valid jp = 0 \<longrightarrow> 1 \<le> sint (i_ref jp) \<longrightarrow> sl_locked (slocks t (SL_inode j)) = 0 \<longrightarrow>
        (\<exists>t'. ilock (Some j) t = Ok t' \<and> fs_tx p dv st t' V' B' K \<and> sl_locked (slocks t' (SL_inode j)) = 1
          \<and> itable t' = (itable t)[j := jp\<lparr>i_type := i_type ip, i_major := i_major ip, i_minor := i_minor ip, i_nlink := i_nlink ip,
              i_size := i_size ip, i_addrs := i_addrs ip, i_valid := 1\<rparr>]))"
proof -
  let ?V = "V(n := put_inode (dinode_off (i_inum ip)) ip (V n))"
  obtain s' where s': "iupdate i s = Ok s'" "log_frame s s'" "fs_tx p dv st s' ?V (logs n B) K"
    using iupdate_spec[OF assms(1) _ _ assms(6,7,2), of i] assms(3,4,5) by blast
  have "\<exists>t'. ilock (Some j) t = Ok t' \<and> fs_tx p dv st t' ?V B' K \<and> sl_locked (slocks t' (SL_inode j)) = 1
      \<and> itable t' = (itable t)[j := jp\<lparr>i_type := i_type ip, i_major := i_major ip, i_minor := i_minor ip, i_nlink := i_nlink ip,
          i_size := i_size ip, i_addrs := i_addrs ip, i_valid := 1\<rparr>]"
    if t: "fs_tx p dv st t ?V B' K" "room 1 B' K" "sb t = sb s" "j < length (itable t)" "jp = the_inode j t" "i_dev jp = dv" "i_inum jp = i_inum ip"
      "i_valid jp = 0" "1 \<le> sint (i_ref jp)" "sl_locked (slocks t (SL_inode j)) = 0" for t :: "'z fs_state_scheme" and B' j jp
  proof -
    let ?kp = "jp\<lparr>i_type := i_type ip, i_major := i_major ip, i_minor := i_minor ip, i_nlink := i_nlink ip, i_size := i_size ip, i_addrs := i_addrs ip\<rparr>"
    have g: "get_inode (dinode_off (i_inum ip)) (?V n) jp = ?kp"
      using get_put_inode[of "dinode_off (i_inum ip)" "V n" ip jp] assms(8,9) dinode_off_bound[of "i_inum ip"] by simp
    have n: "n = IBLOCK (i_inum (the_inode j t)) (sb t)" "?kp\<lparr>i_valid := 1\<rparr> = (get_inode (dinode_off (i_inum (the_inode j t))) (?V n) (the_inode j t))\<lparr>i_valid := 1\<rparr>"
      using assms(5) t(3,5,7) g by simp_all
    show ?thesis using ilock_spec[OF t(1,4) _ _ _ t(10) n(1) assms(6) t(2) n(2)] t(5,6,8,9) assms(10) by auto
  qed
  moreover have "\<forall>m. m \<noteq> n \<longrightarrow> ?V m = V m" by simp
  ultimately show ?thesis using s' by blast
qed

definition sample_inode :: inode where
  "sample_inode = \<lparr>i_dev = 1, i_inum = 1, i_ref = 1, i_valid = 1, i_type = T_DIR, i_major = 0, i_minor = 0, i_nlink = 2, i_size = 1024,
     i_addrs = 47 # replicate NDIRECT 0\<rparr>"

theorem iupdate_ilock_roundtrip_witness:
  "\<exists>(s :: fs_state) t t'. itable s = [sample_inode] \<and> iupdate 0 s = Ok t
    \<and> ilock (Some 0) (upd_inode 0 (\<lambda>_. free_inode\<lparr>i_dev := 1, i_inum := 1, i_ref := 1\<rparr>) t\<lparr>slocks := (slocks t)(SL_inode 0 := (slocks t (SL_inode 0))\<lparr>sl_locked := 0\<rparr>)\<rparr>) = Ok t'
    \<and> itable t' = [sample_inode]"
proof -
  have a: "33 \<notin> log_area 2" using log_area_2[of 33] by auto
  obtain s :: fs_state and V B where s: "fs_tx 0 1 2 s V B {}" "sb s = small_sb" "itable s = [sample_inode]" "room 20 B {}" "V 33 = replicate BSIZE 0"
    using small_fs_tx[of "[(33, replicate BSIZE 0)]" "[sample_inode]"] a by auto
  have ib: "IBLOCK (i_inum sample_inode) (sb s) = 33" using s(2) by (simp add: IBLOCK_def small_sb_def sample_inode_def IPB_def BSIZE_def DINODE_SIZE_def)
  have h: "room 1 B {}" "sample_inode = the_inode 0 s" "i_dev sample_inode = 1" "33 = IBLOCK (i_inum sample_inode) (sb s)" "33 \<notin> ({} :: u32 set)"
      "length (V 33) = BSIZE" "length (i_addrs sample_inode) = NDIRECT + 1" "i_type sample_inode \<noteq> 0"
    using room_less[OF s(4)] s(3,5) ib by (simp_all add: sample_inode_def T_DIR_def)
  obtain t V' where t: "iupdate 0 s = Ok t" "fs_tx 0 1 2 t V' (logs 33 B) {}" and fr: "log_frame s t"
      and k: "\<forall>(t :: fs_state) B' j jp. fs_tx 0 1 2 t V' B' {} \<longrightarrow> room 1 B' {} \<longrightarrow> sb t = sb s \<longrightarrow> j < length (itable t) \<longrightarrow> jp = the_inode j t
        \<longrightarrow> i_dev jp = 1 \<longrightarrow> i_inum jp = i_inum sample_inode \<longrightarrow> i_valid jp = 0 \<longrightarrow> 1 \<le> sint (i_ref jp) \<longrightarrow> sl_locked (slocks t (SL_inode j)) = 0 \<longrightarrow>
        (\<exists>t'. ilock (Some j) t = Ok t' \<and> fs_tx 0 1 2 t' V' B' {} \<and> sl_locked (slocks t' (SL_inode j)) = 1
          \<and> itable t' = (itable t)[j := jp\<lparr>i_type := i_type sample_inode, i_major := i_major sample_inode, i_minor := i_minor sample_inode,
              i_nlink := i_nlink sample_inode, i_size := i_size sample_inode, i_addrs := i_addrs sample_inode, i_valid := 1\<rparr>])"
    using iupdate_ilock_roundtrip[OF s(1) h(1-5) a h(6-8)] by blast
  let ?ip = "free_inode\<lparr>i_dev := 1, i_inum := 1, i_ref := 1\<rparr>"
  let ?u = "upd_inode 0 (\<lambda>_. ?ip) t\<lparr>slocks := (slocks t)(SL_inode 0 := (slocks t (SL_inode 0))\<lparr>sl_locked := 0\<rparr>)\<rparr>"
  have rd: "kheld {} t" "curproc t = Some 0" using t(2) txD(2)[of 0 t V' "logs 33 B" "{}"] by (simp_all add: fs_tx_def ready_def)
  have it: "itable t = [sample_inode]" "sb t = sb s" using log_frame_fs(1,2)[OF fr] s(3) by simp_all
  have tu: "fs_tx 0 1 2 ?u V' (logs 33 B) {}" using rd by (intro fs_tx_cong[OF t(2)]) (simp_all add: upd_inode_def)
  have ju: "itable ?u = [?ip]" "sb ?u = sb s" using it by (simp_all add: upd_inode_def)
  have "room 1 (logs 33 B) {}" using room_logs[of 1 B "{}" 33] room_less[OF s(4), of 2] by (simp add: numeral_2_eq_2)
  then obtain t' where "ilock (Some 0) ?u = Ok t'" "itable t' = [?ip\<lparr>i_type := i_type sample_inode, i_major := i_major sample_inode, i_minor := i_minor sample_inode,
              i_nlink := i_nlink sample_inode, i_size := i_size sample_inode, i_addrs := i_addrs sample_inode, i_valid := 1\<rparr>]"
    using k[rule_format, OF tu, of 0 "the_inode 0 ?u"] ju it by (auto simp: sample_inode_def free_inode_def upd_inode_def)
  moreover have "?ip\<lparr>i_type := i_type sample_inode, i_major := i_major sample_inode, i_minor := i_minor sample_inode,
              i_nlink := i_nlink sample_inode, i_size := i_size sample_inode, i_addrs := i_addrs sample_inode, i_valid := 1\<rparr> = sample_inode"
    by (simp add: sample_inode_def free_inode_def)
  ultimately show ?thesis using s(3) t(1) by (intro exI[of _ s] exI[of _ t] exI[of _ t']) simp
qed

end
