(* ===== verification/Fs_Name.thy ===== *)
theory Fs_Name
  imports Fs
begin

text \<open>
  kernel/fs/fs.c, directories and path names. A path and a name are C strings at an address
  of memory; a directory is a file of 16-byte entries, read one by one into the local
  variable \<open>de\<close> at \<open>k_de\<close> (\<open>k_de_link\<close> in \<open>dirlink\<close>). A scan of memory that never meets the
  character it looks for hangs.
\<close>

section \<open>Directories\<close>

definition DIRSIZ :: nat where "DIRSIZ = 14"
definition DIRENT_SIZE :: nat where "DIRENT_SIZE = 16"

text \<open>The characters from an address on.\<close>

definition chars_at :: "memory \<Rightarrow> u64 \<Rightarrow> nat \<Rightarrow> u8" where
  "chars_at m a k = m (a + of_nat k)"

definition namecmp :: "memory \<Rightarrow> u64 \<Rightarrow> u64 \<Rightarrow> int" where
  "namecmp m s t = strncmp (chars_at m s) (chars_at m t) (of_nat DIRSIZ)"

definition DE_name :: u64 where "DE_name = 2"

text \<open>
  The offsets a loop \<open>for (off = ...; off < size; off += sizeof(de))\<close> visits. When the size
  is within 15 bytes of the largest 32-bit number, the offset wraps and the loop does not end.
\<close>

definition dirent_offs :: "nat \<Rightarrow> u32 \<Rightarrow> u32 list" where
  "dirent_offs from sz = map (\<lambda>k. of_nat (DIRENT_SIZE * k)) [from..<(unat sz + 15) div DIRENT_SIZE]"

definition offs_wrap :: "u32 \<Rightarrow> bool" where
  "offs_wrap sz \<longleftrightarrow> 2 ^ 32 - DIRENT_SIZE < unat sz"

primrec dirlookup_loop :: "nat \<Rightarrow> u64 \<Rightarrow> u64 \<Rightarrow> u32 list \<Rightarrow> 'z fs_state_scheme \<Rightarrow> (nat option \<times> 'z fs_state_scheme) res" where
  "dirlookup_loop dp name poff [] s = (if offs_wrap (i_size (the_inode dp s)) then Hang else Ok (None, s))"
| "dirlookup_loop dp name poff (off # offs) s =
     bind_res (readi dp False (k_de s) off (of_nat DIRENT_SIZE) s) (\<lambda>(r, s).
     if r \<noteq> of_nat DIRENT_SIZE then Panic ''dirlookup read''
     else if load16 (mem s) (k_de s) = 0 then dirlookup_loop dp name poff offs s
     else if namecmp (mem s) name (k_de s + DE_name) = 0
     then
       let s = (if poff \<noteq> 0 then s\<lparr>mem := store32 (mem s) poff off\<rparr> else s) in
       bind_res (iget (i_dev (the_inode dp s)) (ucast (load16 (mem s) (k_de s))) s) (\<lambda>(i, s). Ok (Some i, s))
     else dirlookup_loop dp name poff offs s)"

definition dirlookup :: "nat \<Rightarrow> u64 \<Rightarrow> u64 \<Rightarrow> 'z fs_state_scheme \<Rightarrow> (nat option \<times> 'z fs_state_scheme) res" where
  "dirlookup dp name poff s =
     (if i_type (the_inode dp s) \<noteq> T_DIR then Panic ''dirlookup not DIR''
      else dirlookup_loop dp name poff (dirent_offs 0 (i_size (the_inode dp s))) s)"

text \<open>
  The second loop of \<open>dirlink\<close>: the offset of the first entry with inode number 0, or of the end.
  Its \<open>off\<close> is an \<open>int\<close>.
\<close>

primrec free_dirent :: "nat \<Rightarrow> u32 list \<Rightarrow> 'z fs_state_scheme \<Rightarrow> (u32 \<times> 'z fs_state_scheme) res" where
  "free_dirent dp [] s =
     (let off = DIRENT_SIZE * ((unat (i_size (the_inode dp s)) + 15) div DIRENT_SIZE)
      in if 2 ^ 31 \<le> off then Panic ''undefined'' else Ok (of_nat off, s))"
| "free_dirent dp (off # offs) s =
     (if 2 ^ 31 \<le> unat off then Panic ''undefined''
      else
        bind_res (readi dp False (k_de_link s) off (of_nat DIRENT_SIZE) s) (\<lambda>(r, s).
        if r \<noteq> of_nat DIRENT_SIZE then Panic ''dirlink read''
        else if load16 (mem s) (k_de_link s) = 0 then Ok (off, s)
        else free_dirent dp offs s))"

definition dirlink :: "nat \<Rightarrow> u64 \<Rightarrow> u32 \<Rightarrow> 'z fs_state_scheme \<Rightarrow> (i32 \<times> 'z fs_state_scheme) res" where
  "dirlink dp name inum s =
     bind_res (dirlookup dp name 0 s) (\<lambda>(r, s).
     case r of
       Some i \<Rightarrow> bind_res (iput i s) (\<lambda>s. Ok (- 1, s))
     | None \<Rightarrow>
         bind_res (free_dirent dp (dirent_offs 0 (i_size (the_inode dp s))) s) (\<lambda>(off, s).
         let m = strncpy (mem s) (k_de_link s + DE_name) name (of_nat DIRSIZ);
             s = s\<lparr>mem := store16 m (k_de_link s) (ucast inum)\<rparr>
         in bind_res (writei dp False (k_de_link s) off (of_nat DIRENT_SIZE) s) (\<lambda>(r, s).
            if r \<noteq> of_nat DIRENT_SIZE then Ok (- 1, s) else Ok (0, s))))"

section \<open>Paths\<close>

definition SLASH :: u8 where "SLASH = 0x2f"

text \<open>\<open>while (*path == '/') path++;\<close> and \<open>while (*path != '/' && *path != 0) path++;\<close>\<close>

partial_function (option) skip_slashes :: "memory \<Rightarrow> u64 \<Rightarrow> u64 option" where
  "skip_slashes m path = (if m path = SLASH then skip_slashes m (path + 1) else Some path)"

partial_function (option) skip_name :: "memory \<Rightarrow> u64 \<Rightarrow> u64 option" where
  "skip_name m path = (if m path \<noteq> SLASH \<and> m path \<noteq> 0 then skip_name m (path + 1) else Some path)"

text \<open>A scan that does not end hangs.\<close>

definition or_hang :: "'a option \<Rightarrow> 'a res" where
  "or_hang x = (case x of None \<Rightarrow> Hang | Some y \<Rightarrow> Ok y)"

text \<open>The copy of the element from \<open>s\<close> to \<open>path\<close> into \<open>name\<close>.\<close>

definition copy_elem :: "memory \<Rightarrow> u64 \<Rightarrow> u64 \<Rightarrow> u64 \<Rightarrow> memory" where
  "copy_elem m name s path =
     (let len = ucast (path - s) :: i32 in
      if int DIRSIZ \<le> sint len then memmove m name s (of_nat DIRSIZ)
      else (memmove m name s len)(name + scast len := 0))"

definition skipelem :: "u64 \<Rightarrow> u64 \<Rightarrow> memory \<Rightarrow> (u64 \<times> memory) res" where
  "skipelem path name m =
     bind_res (or_hang (skip_slashes m path)) (\<lambda>path.
     if m path = 0 then Ok (0, m)
     else
       bind_res (or_hang (skip_name m path)) (\<lambda>path'.
       let m = copy_elem m name path path' in
       bind_res (or_hang (skip_slashes m path')) (\<lambda>path'. Ok (path', m))))"

text \<open>
  The loop of \<open>namex\<close>. Every round passes at least one character of the path; the paths
  of the kernel are in buffers of \<open>MAXPATH\<close> bytes, so \<open>MAXPATH\<close> rounds are enough.
\<close>

definition MAXPATH :: nat where "MAXPATH = 128"

primrec namex_loop :: "nat \<Rightarrow> nat \<Rightarrow> u64 \<Rightarrow> bool \<Rightarrow> u64 \<Rightarrow> 'z fs_state_scheme \<Rightarrow> (nat option \<times> 'z fs_state_scheme) res" where
  "namex_loop 0 ip path parent name s = Hang"
| "namex_loop (Suc k) ip path parent name s =
     bind_res (skipelem path name (mem s)) (\<lambda>(path, m).
     let s = s\<lparr>mem := m\<rparr> in
     if path = 0
     then (if parent then bind_res (iput ip s) (\<lambda>s. Ok (None, s)) else Ok (Some ip, s))
     else
       bind_res (ilock (Some ip) s) (\<lambda>s.
       if i_type (the_inode ip s) \<noteq> T_DIR then bind_res (iunlockput ip s) (\<lambda>s. Ok (None, s))
       else if parent \<and> mem s path = 0 then bind_res (iunlock (Some ip) s) (\<lambda>s. Ok (Some ip, s))
       else
         bind_res (dirlookup ip name 0 s) (\<lambda>(r, s).
         case r of
           None \<Rightarrow> bind_res (iunlockput ip s) (\<lambda>s. Ok (None, s))
         | Some i \<Rightarrow> bind_res (iunlockput ip s) (\<lambda>s. namex_loop k i path parent name s))))"

definition namex :: "u64 \<Rightarrow> bool \<Rightarrow> u64 \<Rightarrow> 'z fs_state_scheme \<Rightarrow> (nat option \<times> 'z fs_state_scheme) res" where
  "namex path parent name s =
     bind_res
       (if mem s path = SLASH then iget ROOTDEV ROOTINO s
        else bind_res (myproc s) (\<lambda>(r, s). deref r (\<lambda>p. deref (p_cwd (the_proc p s)) (\<lambda>i. idup i s)))) (\<lambda>(ip, s).
     namex_loop (Suc MAXPATH) ip path parent name s)"

definition namei :: "u64 \<Rightarrow> 'z fs_state_scheme \<Rightarrow> (nat option \<times> 'z fs_state_scheme) res" where
  "namei path s = namex path False (k_namei s) s"

definition nameiparent :: "u64 \<Rightarrow> u64 \<Rightarrow> 'z fs_state_scheme \<Rightarrow> (nat option \<times> 'z fs_state_scheme) res" where
  "nameiparent path name s = namex path True name s"

end
