(* ===== verification/Fs_Path.thy ===== *)
theory Fs_Path
  imports Fs_Name Log_Tx
begin

text \<open>
  Path names: \<open>skipelem\<close> agrees with splitting the list of characters at the slashes.
\<close>

section \<open>C strings in memory\<close>

primrec cstr :: "memory \<Rightarrow> u64 \<Rightarrow> u8 list \<Rightarrow> bool" where
  "cstr m p [] \<longleftrightarrow> m p = 0"
| "cstr m p (x # xs) \<longleftrightarrow> m p = x \<and> x \<noteq> 0 \<and> cstr m (p + 1) xs"

lemma cstr_append: "cstr m p (xs @ ys) \<Longrightarrow> cstr m (p + of_nat (length xs)) ys"
proof (induction xs arbitrary: p)
  case (Cons x xs)
  then have "cstr m (p + 1 + of_nat (length xs)) ys" by simp
  then show ?case by (simp add: add.assoc)
qed simp

lemma cstr_bytes: "cstr m p (xs @ ys) \<Longrightarrow> bytes_at m p (length xs) = xs"
proof (induction xs arbitrary: p)
  case Nil
  then show ?case by (simp add: bytes_at_def)
next
  case (Cons x xs)
  have "bytes_at m p (length (x # xs)) = m p # bytes_at m (p + 1) (length xs)"
    by (simp add: bytes_at_def upt_conv_Cons map_Suc_upt[symmetric] add.assoc del: upt_Suc)
  then show ?case using Cons by simp
qed

lemma cstr_cong:
  assumes "cstr m p xs" "\<And>i. i \<le> length xs \<Longrightarrow> m' (p + of_nat i) = m (p + of_nat i)"
  shows "cstr m' p xs"
  using assms
proof (induction xs arbitrary: p)
  case Nil
  then show ?case using Nil(2)[of 0] by simp
next
  case (Cons x xs)
  have "m' (p + 1 + of_nat i) = m (p + 1 + of_nat i)" if "i \<le> length xs" for i
    using Cons.prems(2)[of "Suc i"] that by (simp add: add.assoc)
  then show ?case using Cons.IH[of "p + 1"] Cons.prems(1) Cons.prems(2)[of 0] by simp
qed

lemma skip_slashes_cstr:
  "cstr m p xs \<Longrightarrow> skip_slashes m p = Some (p + of_nat (length (takeWhile (\<lambda>c. c = SLASH) xs)))"
proof (induction xs arbitrary: p)
  case Nil
  then show ?case by (subst skip_slashes.simps) (simp add: SLASH_def)
next
  case (Cons x xs)
  then show ?case by (subst skip_slashes.simps) (simp add: add.assoc)
qed

lemma skip_name_cstr:
  "cstr m p xs \<Longrightarrow> skip_name m p = Some (p + of_nat (length (takeWhile (\<lambda>c. c \<noteq> SLASH) xs)))"
proof (induction xs arbitrary: p)
  case Nil
  then show ?case by (subst skip_name.simps) simp
next
  case (Cons x xs)
  then show ?case by (subst skip_name.simps) (simp add: add.assoc)
qed

section \<open>One element\<close>

text \<open>
  The reference: the first element of a path, cut to \<open>DIRSIZ\<close> characters and NUL-terminated
  when shorter, and what follows it without its leading slashes.
\<close>

definition elem_bytes :: "u8 list \<Rightarrow> u8 list" where
  "elem_bytes e = take DIRSIZ e @ (if length e < DIRSIZ then [0] else [])"

definition split_path :: "u8 list \<Rightarrow> (u8 list \<times> u8 list) option" where
  "split_path xs =
     (let ys = dropWhile (\<lambda>c. c = SLASH) xs in
      if ys = [] then None
      else Some (takeWhile (\<lambda>c. c \<noteq> SLASH) ys, dropWhile (\<lambda>c. c = SLASH) (dropWhile (\<lambda>c. c \<noteq> SLASH) ys)))"

text \<open>What \<open>set_bytes\<close> leaves at each address.\<close>

lemma set_bytes_at:
  assumes "length bs < 2 ^ 64"
  shows "set_bytes a bs m x = (if in_region a (length bs) x then bs ! unat (x - a) else m x)"
proof (cases "in_region a (length bs) x")
  case True
  then have i: "unat (x - a) < length bs" by (simp add: in_region_def)
  have "bytes_at (set_bytes a bs m) a (length bs) ! unat (x - a) = set_bytes a bs m (a + of_nat (unat (x - a)))"
    using i by (rule nth_bytes_at)
  then show ?thesis using True bytes_at_set_bytes[OF assms, of a m] by simp
qed (simp add: set_bytes_outside[OF assms])

lemma memmove_set_bytes:
  assumes "unat src + unat n < 2 ^ 64" "unat dst + unat n \<le> 2 ^ 64" "bytes_at m src (unat n) = bs"
  shows "memmove m dst src n = set_bytes dst bs m"
proof
  fix x
  have l: "length bs = unat n" using assms(3) by auto
  have "length bs < 2 ^ 64" using l assms(1) by simp
  moreover have "bs ! unat (x - dst) = m (src + (x - dst))" if "in_region dst (unat n) x"
    using that assms(3) nth_bytes_at[of "unat (x - dst)" "unat n" m src] by (simp add: in_region_def)
  ultimately show "memmove m dst src n x = set_bytes dst bs m x"
    using memmove_eq[OF assms(1,2), of m] l by (simp add: set_bytes_at)
qed

lemma set_bytes_snoc:
  assumes "length bs < 2 ^ 64 - 1"
  shows "(set_bytes a bs m)(a + of_nat (length bs) := b) = set_bytes a (bs @ [b]) m"
proof -
  have "set_bytes a (bs @ [b]) m = set_bytes (a + of_nat (length bs)) [b] (set_bytes a bs m)"
    by (induction bs arbitrary: a m) (simp_all add: add.assoc)
  then show ?thesis by simp
qed

lemma copy_elem_spec:
  assumes "bytes_at m src (length e) = e" "length e < 2 ^ 31" "unat src + length e < 2 ^ 64" "unat name + DIRSIZ \<le> 2 ^ 64"
  shows "copy_elem m name src (src + of_nat (length e)) = set_bytes name (elem_bytes e) m"
proof -
  let ?l = "of_nat (length e) :: i32"
  have u: "unat ?l = length e" "unat (of_nat (length e) :: u64) = length e"
    using assms(2) by (simp_all add: unat_of_nat take_bit_nat_eq_self)
  have sl: "sint ?l = int (length e)" using assms(2) by (rule sint_small)
  have l: "ucast (src + of_nat (length e) - src) = ?l" "scast ?l = (of_nat (length e) :: u64)"
    using assms(2) by (simp_all add: unsigned_of_nat signed_of_nat take_bit_nat_eq_self signed_take_bit_int_eq_self)
  show ?thesis
  proof (cases "DIRSIZ \<le> length e")
    case True
    have "bytes_at m src (unat (of_nat DIRSIZ :: u32)) = take DIRSIZ e"
    proof (rule nth_equalityI)
      show "length (bytes_at m src (unat (of_nat DIRSIZ :: u32))) = length (take DIRSIZ e)" using True by (simp add: DIRSIZ_def)
      show "bytes_at m src (unat (of_nat DIRSIZ :: u32)) ! i = take DIRSIZ e ! i" if "i < length (bytes_at m src (unat (of_nat DIRSIZ :: u32)))" for i
        using that True assms(1) nth_bytes_at[of i "length e" m src] by (simp add: DIRSIZ_def)
    qed
    then have "memmove m name src (of_nat DIRSIZ) = set_bytes name (take DIRSIZ e) m"
      using assms(3,4) True by (intro memmove_set_bytes) (simp_all add: DIRSIZ_def)
    then show ?thesis using True sl unfolding copy_elem_def l(1) by (simp add: elem_bytes_def)
  next
    case False
    have "memmove m name src ?l = set_bytes name e m"
      using assms False u by (intro memmove_set_bytes) simp_all
    moreover have "(set_bytes name e m)(name + of_nat (length e) := 0) = set_bytes name (e @ [0]) m"
      using assms(2) by (intro set_bytes_snoc) simp
    ultimately show ?thesis using False sl unfolding copy_elem_def l(1) Let_def l(2) by (simp add: elem_bytes_def)
  qed
qed

lemma split_path_Some:
  assumes "split_path xs = Some (e, rest)"
  obtains pre mid where "xs = pre @ e @ mid @ rest" "e \<noteq> []"
    "length pre = length (takeWhile (\<lambda>c. c = SLASH) xs)" "mid = takeWhile (\<lambda>c. c = SLASH) (mid @ rest)"
    "e = takeWhile (\<lambda>c. c \<noteq> SLASH) (e @ mid @ rest)"
proof -
  let ?ys = "dropWhile (\<lambda>c. c = SLASH) xs"
  let ?zs = "dropWhile (\<lambda>c. c \<noteq> SLASH) ?ys"
  have r: "?ys \<noteq> []" "e = takeWhile (\<lambda>c. c \<noteq> SLASH) ?ys" "rest = dropWhile (\<lambda>c. c = SLASH) ?zs"
    using assms by (auto simp: split_path_def Let_def split: if_splits)
  have m: "takeWhile (\<lambda>c. c = SLASH) ?zs @ rest = ?zs" using r(3) by simp
  have y: "e @ ?zs = ?ys" using r(2) by simp
  have "xs = takeWhile (\<lambda>c. c = SLASH) xs @ e @ takeWhile (\<lambda>c. c = SLASH) ?zs @ rest" using m y by simp
  moreover have "e \<noteq> []" using r(1,2) hd_dropWhile[of "\<lambda>c. c = SLASH" xs] by (cases ?ys) auto
  moreover have "takeWhile (\<lambda>c. c = SLASH) ?zs = takeWhile (\<lambda>c. c = SLASH) (takeWhile (\<lambda>c. c = SLASH) ?zs @ rest)" using m by simp
  moreover have "e = takeWhile (\<lambda>c. c \<noteq> SLASH) (e @ takeWhile (\<lambda>c. c = SLASH) ?zs @ rest)" using m y r(2) by simp
  ultimately show ?thesis using that by blast
qed

text \<open>
  C18. \<open>skipelem\<close> computes the reference split of a path: on a NUL-terminated path of fewer than 2^31 bytes that
  the buffer \<open>name\<close> does not overlap, it returns 0 and writes nothing when only slashes are left, and otherwise
  copies the first element, cut to 14 bytes and NUL-terminated when shorter, into \<open>name\<close>, writes nothing
  else, and returns a non-zero pointer at which the rest of the path stands without its leading slashes.\<close>

theorem skipelem_splits_path:
  assumes "cstr m path xs" "length xs < 2 ^ 31" "unat path + length xs < 2 ^ 64" "unat name + DIRSIZ \<le> 2 ^ 64"
    "\<forall>i \<le> length xs. \<not> in_region name DIRSIZ (path + of_nat i)"
  shows "case split_path xs of
      None \<Rightarrow> skipelem path name m = Ok (0, m)
    | Some (e, rest) \<Rightarrow> \<exists>path'. skipelem path name m = Ok (path', set_bytes name (elem_bytes e) m) \<and> path' \<noteq> 0
        \<and> path' = path + of_nat (length xs - length rest) \<and> cstr (set_bytes name (elem_bytes e) m) path' rest \<and> length rest < length xs"
proof (cases "split_path xs")
  case None
  then have "takeWhile (\<lambda>c. c = SLASH) xs = xs" by (simp add: split_path_def Let_def split: if_splits)
  then have "skip_slashes m path = Some (path + of_nat (length xs))" using skip_slashes_cstr[OF assms(1)] by (simp only:)
  moreover have "m (path + of_nat (length xs)) = 0" using cstr_append[of m path xs "[]"] assms(1) by simp
  ultimately show ?thesis using None by (simp add: skipelem_def or_hang_def)
next
  case (Some er)
  obtain e rest where er: "er = (e, rest)" by (cases er)
  obtain pre mid where x: "xs = pre @ e @ mid @ rest" "e \<noteq> []" "length pre = length (takeWhile (\<lambda>c. c = SLASH) xs)"
      "mid = takeWhile (\<lambda>c. c = SLASH) (mid @ rest)" "e = takeWhile (\<lambda>c. c \<noteq> SLASH) (e @ mid @ rest)"
    using split_path_Some[of xs e rest] Some er by blast
  let ?p = "path + of_nat (length pre)" and ?m = "set_bytes name (elem_bytes e) m"
  let ?q = "?p + of_nat (length e)"
  have c: "cstr m ?p (e @ mid @ rest)" "cstr m ?q (mid @ rest)"
    using cstr_append[of m path pre] cstr_append[of m ?p e] assms(1) x(1) by simp_all
  have "?m (path + of_nat i) = m (path + of_nat i)" if "i \<le> length xs" for i
  proof -
    have "\<not> in_region name (length (elem_bytes e)) (path + of_nat i)"
      using assms(5) that by (auto simp: in_region_def elem_bytes_def DIRSIZ_def)
    then show ?thesis by (intro set_bytes_outside) (auto simp: elem_bytes_def DIRSIZ_def)
  qed
  then have c': "cstr ?m path xs" by (rule cstr_cong[OF assms(1)])
  then have d: "cstr ?m ?q (mid @ rest)" using cstr_append[of ?m path "pre @ e" "mid @ rest"] x(1) by (simp add: add.assoc)
  have s1: "skip_slashes m path = Some ?p" using skip_slashes_cstr[OF assms(1)] x(3) by simp
  have s2: "skip_name m ?p = Some ?q" using skip_name_cstr[OF c(1)] x(5) by simp
  have s3: "skip_slashes ?m ?q = Some (?q + of_nat (length mid))" using skip_slashes_cstr[OF d] x(4) by simp
  have "m ?p \<noteq> 0" using c(1) x(2) by (cases e) auto
  moreover have "unat ?p = unat path + length pre"
    using assms(3) x(1) by (subst unat_word_ariths(1)) (simp add: unat_of_nat take_bit_nat_eq_self)
  then have "copy_elem m name ?p ?q = ?m"
    using cstr_bytes[OF c(1)] assms(2,3,4) x(1) by (intro copy_elem_spec) simp_all
  ultimately have r: "skipelem path name m = Ok (?q + of_nat (length mid), ?m)"
    using s1 s2 s3 by (simp add: skipelem_def or_hang_def)
  have p: "?q + of_nat (length mid) = path + of_nat (length xs - length rest)" using x(1) by (simp add: add.assoc)
  have "unat (path + of_nat (length xs - length rest)) = unat path + (length xs - length rest)"
    using assms(3) by (subst unat_word_ariths(1)) (simp add: unat_of_nat take_bit_nat_eq_self)
  moreover have lt: "length rest < length xs" using x(1,2) by simp
  ultimately have "path + of_nat (length xs - length rest) \<noteq> 0" by (metis add_is_0 diff_is_0_eq leD unat_0)
  moreover have "cstr ?m (?q + of_nat (length mid)) rest" using cstr_append[OF d] .
  ultimately show ?thesis using Some er r p lt by simp
qed

text \<open>The path \<open>/usr//bin\<close>.\<close>

theorem skipelem_splits_path_witness:
  "\<exists>m'. skipelem 0x1000 0x2000 (set_bytes 0x1000 [0x2f, 0x75, 0x73, 0x72, 0x2f, 0x2f, 0x62, 0x69, 0x6e] (\<lambda>_. 0)) = Ok (0x1006, m')
    \<and> bytes_at m' 0x2000 4 = [0x75, 0x73, 0x72, 0]"
proof -
  let ?xs = "[0x2f, 0x75, 0x73, 0x72, 0x2f, 0x2f, 0x62, 0x69, 0x6e] :: u8 list"
  let ?m = "set_bytes 0x1000 ?xs (\<lambda>_. 0)"
  have c: "cstr ?m 0x1000 ?xs" by simp
  have s: "split_path ?xs = Some ([0x75, 0x73, 0x72], [0x62, 0x69, 0x6e])" by (simp add: split_path_def SLASH_def)
  have "unat (0x1000 + of_nat i - 0x2000 :: u64) \<ge> 14" if "i \<le> 9" for i
  proof -
    have "i \<in> {0, 1, 2, 3, 4, 5, 6, 7, 8, 9}" using that by auto
    then show ?thesis by auto
  qed
  then have "\<not> in_region 0x2000 DIRSIZ (0x1000 + of_nat i)" if "i \<le> 9" for i
    using that unfolding in_region_def DIRSIZ_def not_less by blast
  moreover have "length ?xs = 9" by simp
  ultimately have d: "\<forall>i \<le> length ?xs. \<not> in_region 0x2000 DIRSIZ (0x1000 + of_nat i)" by (simp only:) blast
  have b: "length ?xs < 2 ^ 31" "unat (0x1000 :: u64) + length ?xs < 2 ^ 64" "unat (0x2000 :: u64) + DIRSIZ \<le> 2 ^ 64" by (simp_all add: DIRSIZ_def)
  have l: "0x1000 + of_nat (length ?xs - length [0x62, 0x69, 0x6e :: u8]) = (0x1006 :: u64)" by simp
  have "skipelem 0x1000 0x2000 ?m = Ok (0x1006, set_bytes 0x2000 (elem_bytes [0x75, 0x73, 0x72]) ?m)"
    using skipelem_splits_path[OF c b d] unfolding s option.case prod.case l by (elim exE conjE) (simp only:)
  moreover have e: "elem_bytes [0x75, 0x73, 0x72] = [0x75, 0x73, 0x72, 0]" "length [0x75, 0x73, 0x72, 0 :: u8] = 4"
    by (simp_all add: elem_bytes_def DIRSIZ_def)
  have "bytes_at (set_bytes 0x2000 [0x75, 0x73, 0x72, 0] ?m) 0x2000 (length [0x75, 0x73, 0x72, 0 :: u8]) = [0x75, 0x73, 0x72, 0]"
    by (rule bytes_at_set_bytes) simp
  then have "bytes_at (set_bytes 0x2000 (elem_bytes [0x75, 0x73, 0x72]) ?m) 0x2000 4 = [0x75, 0x73, 0x72, 0]" unfolding e .
  ultimately show ?thesis by (intro exI conjI)
qed

end
