(* ===== verification/Virtio.thy ===== *)
theory Virtio
  imports Bio_Cache
begin

text \<open>
  kernel/driver/virtio_disk.c: the driver of the virtio block device. The descriptor table and the
  two rings, which the driver shares with the device, are parts of the record \<open>vdisk\<close>; a
  DMA address is the object it points to. The device is outside: the values its
  registers deliver are the input \<open>vio_reads\<close>, what the driver writes to them the output \<open>vio_writes\<close>.

  \<open>virtio_disk_rw\<close> is cut where it sleeps: for descriptors, and for the device.
\<close>

section \<open>State\<close>

definition NUM :: nat where "NUM = 8"
definition VRING_DESC_F_NEXT :: u16 where "VRING_DESC_F_NEXT = 1"
definition VRING_DESC_F_WRITE :: u16 where "VRING_DESC_F_WRITE = 2"
definition VIRTIO_BLK_T_IN :: u32 where "VIRTIO_BLK_T_IN = 0"
definition VIRTIO_BLK_T_OUT :: u32 where "VIRTIO_BLK_T_OUT = 1"

datatype dma = D_null | D_ops nat | D_data nat | D_status nat

record virtq_desc =
  d_addr :: dma
  d_len :: u32
  d_flags :: u16
  d_next :: u16

record virtio_blk_req =
  rq_type :: u32
  rq_reserved :: u32
  rq_sector :: u64

record vdisk =
  desc :: "virtq_desc list"
  avail_idx :: u16
  avail_ring :: "u16 list"
  used_ring_idx :: u16
  used_ring :: "u32 list"
  vfree :: "u8 list"
  used_idx :: u16
  info_b :: "nat option list"
  info_status :: "u8 list"
  ops :: "virtio_blk_req list"

record virtio_state = bio_state +
  vd :: vdisk
  vio_reads :: "u32 list"
  vio_writes :: "(nat \<times> u32) list"

definition upd_vd :: "(vdisk \<Rightarrow> vdisk) \<Rightarrow> 'z virtio_state_scheme \<Rightarrow> 'z virtio_state_scheme" where
  "upd_vd f s = s\<lparr>vd := f (vd s)\<rparr>"

section \<open>Initialisation\<close>

definition vio_read :: "'z virtio_state_scheme \<Rightarrow> (u32 \<times> 'z virtio_state_scheme) res" where
  "vio_read s = (case vio_reads s of [] \<Rightarrow> Hang | v # vs \<Rightarrow> Ok (v, s\<lparr>vio_reads := vs\<rparr>))"

definition vio_write :: "nat \<Rightarrow> u32 \<Rightarrow> 'z virtio_state_scheme \<Rightarrow> 'z virtio_state_scheme" where
  "vio_write r v s = s\<lparr>vio_writes := vio_writes s @ [(r, v)]\<rparr>"

text \<open>The tests of the four identification registers, in the order of the \<open>||\<close>.\<close>

primrec vio_expect :: "u32 list \<Rightarrow> 'z virtio_state_scheme \<Rightarrow> (bool \<times> 'z virtio_state_scheme) res" where
  "vio_expect [] s = Ok (True, s)"
| "vio_expect (x # xs) s = bind_res (vio_read s) (\<lambda>(v, s). if v \<noteq> x then Ok (False, s) else vio_expect xs s)"

definition no_feature :: "u64 \<Rightarrow> nat \<Rightarrow> u64" where
  "no_feature features n = features AND NOT (push_bit n 1)"

text \<open>The feature bits the driver clears.\<close>

definition driver_features :: "u32 \<Rightarrow> u64" where
  "driver_features offered = foldl no_feature (ucast offered) [5, 7, 11, 12, 27, 29, 28]"

text \<open>From the check of the queue on.\<close>

definition virtio_queue_init :: "u32 \<Rightarrow> 'z virtio_state_scheme \<Rightarrow> 'z virtio_state_scheme res" where
  "virtio_queue_init status s =
     (let s = vio_write 0x030 0 s in
      bind_res (vio_read s) (\<lambda>(ready, s).
      if ready \<noteq> 0 then Panic ''virtio disk should not be ready''
      else
      bind_res (vio_read s) (\<lambda>(mx, s).
      if mx = 0 then Panic ''virtio disk has no queue 0''
      else if mx < of_nat NUM then Panic ''virtio disk max queue too short''
      else
      bind_res (alloc_page s) (\<lambda>(d, s).
      bind_res (alloc_page s) (\<lambda>(a, s).
      bind_res (alloc_page s) (\<lambda>(u, s).
      if d = 0 \<or> a = 0 \<or> u = 0 then Panic ''virtio disk kalloc''
      else
        let s = s\<lparr>mem := memset (memset (memset (mem s) d 0 4096) a 0 4096) u 0 4096\<rparr>;
            s = upd_vd (\<lambda>v. v\<lparr>desc := replicate NUM \<lparr>d_addr = D_null, d_len = 0, d_flags = 0, d_next = 0\<rparr>,
                  avail_idx := 0, avail_ring := replicate NUM 0, used_ring_idx := 0, used_ring := replicate NUM 0\<rparr>) s;
            s = vio_write 0x038 (of_nat NUM) s;
            s = vio_write 0x080 (ucast d) s;
            s = vio_write 0x084 (ucast (drop_bit 32 d)) s;
            s = vio_write 0x090 (ucast a) s;
            s = vio_write 0x094 (ucast (drop_bit 32 a)) s;
            s = vio_write 0x0a0 (ucast u) s;
            s = vio_write 0x0a4 (ucast (drop_bit 32 u)) s;
            s = vio_write 0x044 1 s;
            s = upd_vd (\<lambda>v. v\<lparr>vfree := replicate NUM 1\<rparr>) s
        in Ok (vio_write 0x070 (status OR 4) s)))))))"

definition virtio_disk_init :: "'z virtio_state_scheme \<Rightarrow> 'z virtio_state_scheme res" where
  "virtio_disk_init s =
     (let s = s\<lparr>sy := initlock L_vdisk ''virtio_disk'' (sy s)\<rparr> in
      bind_res (vio_expect [0x74726976, 2, 2, 0x554d4551] s) (\<lambda>(found, s).
      if \<not> found then Panic ''could not find virtio disk''
      else
        let s = vio_write 0x070 0 s;
            s = vio_write 0x070 1 s;
            s = vio_write 0x070 3 s
        in
        bind_res (vio_read s) (\<lambda>(offered, s).
        let s = vio_write 0x020 (ucast (driver_features offered)) s;
            s = vio_write 0x070 11 s
        in
        bind_res (vio_read s) (\<lambda>(status, s).
        if status AND 8 = 0 then Panic ''virtio disk FEATURES_OK unset''
        else virtio_queue_init status s))))"

section \<open>Descriptors\<close>

definition alloc_desc :: "vdisk \<Rightarrow> nat option \<times> vdisk" where
  "alloc_desc v =
     (case find (\<lambda>i. vfree v ! i \<noteq> 0) [0..<NUM] of
        Some i \<Rightarrow> (Some i, v\<lparr>vfree := (vfree v)[i := 0]\<rparr>)
      | None \<Rightarrow> (None, v))"

definition zero_desc :: virtq_desc where
  "zero_desc = \<lparr>d_addr = D_null, d_len = 0, d_flags = 0, d_next = 0\<rparr>"

definition free_desc :: "nat \<Rightarrow> 'z virtio_state_scheme \<Rightarrow> 'z virtio_state_scheme res" where
  "free_desc i s =
     (if NUM \<le> i then Panic ''free_desc 1''
      else if vfree (vd s) ! i \<noteq> 0 then Panic ''free_desc 2''
      else wakeup (Some C_desc) (upd_vd (\<lambda>v. v\<lparr>desc := (desc v)[i := zero_desc], vfree := (vfree v)[i := 1]\<rparr>) s))"

text \<open>
  Every round of \<open>free_chain\<close> frees a descriptor or panics; \<open>NUM + 1\<close> rounds are enough.
\<close>

primrec free_chain_loop :: "nat \<Rightarrow> nat \<Rightarrow> 'z virtio_state_scheme \<Rightarrow> 'z virtio_state_scheme res" where
  "free_chain_loop 0 i s = Hang"
| "free_chain_loop (Suc k) i s =
     (if NUM \<le> i then Panic ''undefined''
      else
        let flag = d_flags (desc (vd s) ! i);
            nxt = unat (d_next (desc (vd s) ! i))
        in bind_res (free_desc i s) (\<lambda>s.
           if flag AND VRING_DESC_F_NEXT \<noteq> 0 then free_chain_loop k nxt s else Ok s))"

definition free_chain :: "nat \<Rightarrow> 'z virtio_state_scheme \<Rightarrow> 'z virtio_state_scheme res" where
  "free_chain i s = free_chain_loop (Suc NUM) i s"

text \<open>\<open>k\<close> descriptors more; \<open>idx\<close> are those taken so far, freed again when there are no more.\<close>

primrec alloc_some :: "nat \<Rightarrow> nat list \<Rightarrow> 'z virtio_state_scheme \<Rightarrow> (nat list option \<times> 'z virtio_state_scheme) res" where
  "alloc_some 0 idx s = Ok (Some idx, s)"
| "alloc_some (Suc k) idx s =
     (let (r, v) = alloc_desc (vd s);
          s = s\<lparr>vd := v\<rparr>
      in case r of
           Some i \<Rightarrow> alloc_some k (idx @ [i]) s
         | None \<Rightarrow> bind_res (fold_res free_desc idx s) (\<lambda>s. Ok (None, s)))"

definition alloc3_desc :: "'z virtio_state_scheme \<Rightarrow> (nat list option \<times> 'z virtio_state_scheme) res" where
  "alloc3_desc s = alloc_some 3 [] s"

section \<open>Requests\<close>

text \<open>The three descriptors, the request header, and the entry of the available ring.\<close>

definition format_request :: "nat \<Rightarrow> bool \<Rightarrow> u64 \<Rightarrow> nat \<Rightarrow> nat \<Rightarrow> nat \<Rightarrow> vdisk \<Rightarrow> vdisk" where
  "format_request b write sector i0 i1 i2 v =
     (let v = v\<lparr>ops := (ops v)[i0 := \<lparr>rq_type = (if write then VIRTIO_BLK_T_OUT else VIRTIO_BLK_T_IN),
                rq_reserved = 0, rq_sector = sector\<rparr>]\<rparr>;
          v = v\<lparr>desc := (desc v)[i0 := \<lparr>d_addr = D_ops i0, d_len = 16, d_flags = VRING_DESC_F_NEXT, d_next = of_nat i1\<rparr>]\<rparr>;
          v = v\<lparr>desc := (desc v)[i1 := \<lparr>d_addr = D_data b, d_len = of_nat BSIZE,
                d_flags = (if write then 0 else VRING_DESC_F_WRITE) OR VRING_DESC_F_NEXT, d_next = of_nat i2\<rparr>]\<rparr>;
          v = v\<lparr>info_status := (info_status v)[i0 := 0xff]\<rparr>;
          v = v\<lparr>desc := (desc v)[i2 := \<lparr>d_addr = D_status i0, d_len = 1, d_flags = VRING_DESC_F_WRITE, d_next = 0\<rparr>]\<rparr>
      in v\<lparr>info_b := (info_b v)[i0 := Some b]\<rparr>)"

definition notify_device :: "nat \<Rightarrow> vdisk \<Rightarrow> vdisk" where
  "notify_device i0 v =
     v\<lparr>avail_ring := (avail_ring v)[unat (avail_idx v) mod NUM := of_nat i0], avail_idx := avail_idx v + 1\<rparr>"

definition submit :: "nat \<Rightarrow> bool \<Rightarrow> nat \<Rightarrow> nat \<Rightarrow> nat \<Rightarrow> 'z virtio_state_scheme \<Rightarrow> 'z virtio_state_scheme" where
  "submit b write i0 i1 i2 s =
     (let sector = ucast (b_blockno (the_buf b s) * of_nat (BSIZE div 512));
          s = upd_vd (format_request b write sector i0 i1 i2) s;
          s = upd_buf b (b_disk_update (\<lambda>_. 1)) s;
          s = upd_vd (notify_device i0) s
      in vio_write 0x050 0 s)"

datatype rw_result = Rw_done | Rw_needs_desc u32 | Rw_waits u32 nat

text \<open>\<open>while (b->disk == 1) sleep(b, &disk.vdisk_lock);\<close> and what follows.\<close>

definition rw_wait :: "nat \<Rightarrow> nat \<Rightarrow> 'z virtio_state_scheme \<Rightarrow> (rw_result \<times> 'z virtio_state_scheme) res" where
  "rw_wait b i0 s =
     (if b_disk (the_buf b s) = 1
      then bind_res (sleep_out (Some (C_buf b)) L_vdisk s) (\<lambda>(ie, s). Ok (Rw_waits ie i0, s))
      else
        bind_res (free_chain i0 (upd_vd (\<lambda>v. v\<lparr>info_b := (info_b v)[i0 := None]\<rparr>) s)) (\<lambda>s.
        bind_res (krelease L_vdisk s) (\<lambda>s. Ok (Rw_done, s))))"

text \<open>The loop that takes three descriptors, entered with the lock held.\<close>

definition rw_loop :: "nat \<Rightarrow> bool \<Rightarrow> 'z virtio_state_scheme \<Rightarrow> (rw_result \<times> 'z virtio_state_scheme) res" where
  "rw_loop b write s =
     bind_res (alloc3_desc s) (\<lambda>(r, s).
     case r of
       Some [i0, i1, i2] \<Rightarrow> rw_wait b i0 (submit b write i0 i1 i2 s)
     | _ \<Rightarrow> bind_res (sleep_out (Some C_desc) L_vdisk s) (\<lambda>(ie, s). Ok (Rw_needs_desc ie, s)))"

definition virtio_disk_rw :: "nat \<Rightarrow> bool \<Rightarrow> 'z virtio_state_scheme \<Rightarrow> (rw_result \<times> 'z virtio_state_scheme) res" where
  "virtio_disk_rw b write s = bind_res (kacquire L_vdisk s) (rw_loop b write)"

definition rw_desc_resume :: "nat \<Rightarrow> nat \<Rightarrow> bool \<Rightarrow> u32 \<Rightarrow> 'z virtio_state_scheme \<Rightarrow> (rw_result \<times> 'z virtio_state_scheme) res" where
  "rw_desc_resume p b write ie s = bind_res (sleep_in p L_vdisk ie s) (rw_loop b write)"

definition rw_resume :: "nat \<Rightarrow> nat \<Rightarrow> nat \<Rightarrow> u32 \<Rightarrow> 'z virtio_state_scheme \<Rightarrow> (rw_result \<times> 'z virtio_state_scheme) res" where
  "rw_resume p b i0 ie s = bind_res (sleep_in p L_vdisk ie s) (rw_wait b i0)"

section \<open>Interrupts\<close>

text \<open>
  One completion, and the loop over them: the distance of the 16-bit indices is the number of
  rounds.
\<close>

definition intr_one :: "'z virtio_state_scheme \<Rightarrow> 'z virtio_state_scheme res" where
  "intr_one s =
     (let id = unat (used_ring (vd s) ! (unat (used_idx (vd s)) mod NUM)) in
      if NUM \<le> id then Panic ''undefined''
      else if info_status (vd s) ! id \<noteq> 0 then Panic ''virtio_disk_intr status''
      else
        deref (info_b (vd s) ! id) (\<lambda>b.
        bind_res (wakeup (Some (C_buf b)) (upd_buf b (b_disk_update (\<lambda>_. 0)) s)) (\<lambda>s.
        Ok (upd_vd (\<lambda>v. v\<lparr>used_idx := used_idx v + 1\<rparr>) s))))"

definition virtio_disk_intr :: "'z virtio_state_scheme \<Rightarrow> 'z virtio_state_scheme res" where
  "virtio_disk_intr s =
     bind_res (kacquire L_vdisk s) (\<lambda>s.
     bind_res (vio_read s) (\<lambda>(st, s).
     let s = vio_write 0x064 (st AND 3) s in
     bind_res (fold_res (\<lambda>_. intr_one) [0..<unat (used_ring_idx (vd s) - used_idx (vd s))] s) (\<lambda>s.
     krelease L_vdisk s)))"

end
