(* ===== verification/Virtio_Io.thy ===== *)
theory Virtio_Io
  imports Virtio Block_Cache
begin

text \<open>
  A request of the virtio disk driver from submission to completion: with a device that
  serves requests as the virtio specification says, \<open>virtio_disk_rw\<close> and \<open>virtio_disk_intr\<close>
  together do what the buffer cache assumes of a disk transfer, and give their
  descriptors back.
\<close>

section \<open>The device\<close>

text \<open>
  A request for block \<open>n\<close> in the chain of descriptors at \<open>h\<close>: a header, the data of buffer \<open>b\<close>,
  a status byte \<open>st\<close>. A block is two sectors.
\<close>

definition is_request :: "vdisk \<Rightarrow> nat \<Rightarrow> bool \<Rightarrow> nat \<Rightarrow> u32 \<Rightarrow> nat \<Rightarrow> bool" where
  "is_request v h write b n st \<longleftrightarrow>
     (let d0 = desc v ! h; d1 = desc v ! unat (d_next d0); d2 = desc v ! unat (d_next d1) in
      d_len d0 = 16 \<and> d_flags d0 = VRING_DESC_F_NEXT
      \<and> d_addr d1 = D_data b \<and> d_len d1 = of_nat BSIZE
      \<and> d_flags d1 = (if write then 0 else VRING_DESC_F_WRITE) OR VRING_DESC_F_NEXT
      \<and> d_addr d2 = D_status st \<and> d_len d2 = 1 \<and> d_flags d2 = VRING_DESC_F_WRITE
      \<and> (\<exists>k. d_addr d0 = D_ops k \<and> rq_type (ops v ! k) = (if write then VIRTIO_BLK_T_OUT else VIRTIO_BLK_T_IN)
           \<and> rq_sector (ops v ! k) = 2 * ucast n))"

text \<open>What a device has done when it has served the request: the transfer, the status, the used ring.\<close>

definition served :: "nat \<Rightarrow> bool \<Rightarrow> nat \<Rightarrow> u32 \<Rightarrow> nat \<Rightarrow> 'z virtio_state_scheme \<Rightarrow> 'z virtio_state_scheme" where
  "served h write b n st s =
     upd_vd (\<lambda>v. v\<lparr>info_status := (info_status v)[st := 0],
         used_ring := (used_ring v)[unat (used_ring_idx v) mod NUM := of_nat h], used_ring_idx := used_ring_idx v + 1\<rparr>)
       (if write
        then s\<lparr>disk := (disk s)(n := b_data (the_buf b s)), dhist := dhist s @ [(n, b_data (the_buf b s))]\<rparr>
        else upd_buf b (b_data_update (\<lambda>_. disk s n)) s)"

definition virtio_device :: "('z virtio_state_scheme \<Rightarrow> 'z virtio_state_scheme) \<Rightarrow> bool" where
  "virtio_device dev \<longleftrightarrow>
     (\<forall>s h write b n st. avail_idx (vd s) = used_ring_idx (vd s) + 1
        \<longrightarrow> h = unat (avail_ring (vd s) ! (unat (used_ring_idx (vd s)) mod NUM))
        \<longrightarrow> is_request (vd s) h write b n st \<longrightarrow> dev s = served h write b n st s)"

section \<open>Descriptors\<close>

text \<open>The queue between two requests.\<close>

definition vq_idle :: "vdisk \<Rightarrow> bool" where
  "vq_idle v \<longleftrightarrow> length (desc v) = NUM \<and> length (avail_ring v) = NUM \<and> length (used_ring v) = NUM \<and> length (vfree v) = NUM
     \<and> length (info_b v) = NUM \<and> length (info_status v) = NUM \<and> length (ops v) = NUM
     \<and> (\<forall>i < NUM. vfree v ! i = 0 \<or> vfree v ! i = 1) \<and> used_idx v = used_ring_idx v \<and> avail_idx v = used_ring_idx v"

definition free_descs :: "vdisk \<Rightarrow> nat list" where
  "free_descs v = filter (\<lambda>i. vfree v ! i \<noteq> 0) [0..<NUM]"

lemma find_filter: "find P xs = (case filter P xs of [] \<Rightarrow> None | x # _ \<Rightarrow> Some x)"
  by (induction xs) auto

lemma alloc_desc_first:
  assumes "free_descs v = i # is" "length (vfree v) = NUM"
  shows "alloc_desc v = (Some i, v\<lparr>vfree := (vfree v)[i := 0]\<rparr>)" "free_descs (v\<lparr>vfree := (vfree v)[i := 0]\<rparr>) = is"
    "i < NUM" "vfree v ! i \<noteq> 0" "i \<notin> set is"
proof -
  show "alloc_desc v = (Some i, v\<lparr>vfree := (vfree v)[i := 0]\<rparr>)"
    using assms(1) by (simp add: alloc_desc_def find_filter free_descs_def)
  have "i \<in> set (free_descs v)" using assms(1) by simp
  then show i: "i < NUM" "vfree v ! i \<noteq> 0" by (auto simp: free_descs_def)
  have "distinct (free_descs v)" by (simp add: free_descs_def)
  then show n: "i \<notin> set is" using assms(1) by simp
  have "filter (\<lambda>j. (vfree v)[i := 0] ! j \<noteq> 0) [0..<NUM] = filter (\<lambda>j. j \<noteq> i) (filter (\<lambda>j. vfree v ! j \<noteq> 0) [0..<NUM])"
    unfolding filter_filter using i(1) assms(2) by (intro filter_cong) (auto simp: nth_list_update)
  also have "\<dots> = is" using assms(1) n by (auto simp: free_descs_def filter_id_conv)
  finally show "free_descs (v\<lparr>vfree := (vfree v)[i := 0]\<rparr>) = is" by (simp add: free_descs_def)
qed

lemma alloc3_spec:
  assumes "free_descs (vd s) = i0 # i1 # i2 # is" "length (vfree (vd s)) = NUM"
  shows "alloc3_desc s = Ok (Some [i0, i1, i2], s\<lparr>vd := (vd s)\<lparr>vfree := (vfree (vd s))[i0 := 0, i1 := 0, i2 := 0]\<rparr>\<rparr>)"
    "i0 < NUM" "i1 < NUM" "i2 < NUM" "distinct [i0, i1, i2]" "vfree (vd s) ! i0 \<noteq> 0" "vfree (vd s) ! i1 \<noteq> 0" "vfree (vd s) ! i2 \<noteq> 0"
proof -
  let ?v1 = "(vd s)\<lparr>vfree := (vfree (vd s))[i0 := 0]\<rparr>" and ?v2 = "(vd s)\<lparr>vfree := (vfree (vd s))[i0 := 0, i1 := 0]\<rparr>"
  note a0 = alloc_desc_first[OF assms]
  have l1: "length (vfree ?v1) = NUM" "length (vfree ?v2) = NUM" using assms(2) by simp_all
  note a1 = alloc_desc_first[OF a0(2) l1(1)]
  have f2: "free_descs ?v2 = i2 # is" using a1(2) by simp
  note a2 = alloc_desc_first[OF f2 l1(2)]
  show "alloc3_desc s = Ok (Some [i0, i1, i2], s\<lparr>vd := (vd s)\<lparr>vfree := (vfree (vd s))[i0 := 0, i1 := 0, i2 := 0]\<rparr>\<rparr>)"
    using a0(1) a1(1) a2(1) by (simp add: alloc3_desc_def numeral_3_eq_3)
  show "i0 < NUM" "i1 < NUM" "i2 < NUM" using a0(3) a1(3) a2(3) .
  show d: "distinct [i0, i1, i2]" using a0(5) a1(5) by auto
  show "vfree (vd s) ! i0 \<noteq> 0" "vfree (vd s) ! i1 \<noteq> 0" "vfree (vd s) ! i2 \<noteq> 0" using a0(4) a1(4) a2(4) d by simp_all
qed

text \<open>Giving a chain of three back.\<close>

lemma free_desc_spec:
  assumes "kheld H s" "\<And>j. L_proc j \<notin> H" "length (ptable s) = NPROC" "i < NUM" "vfree (vd s) ! i = 0"
  shows "\<exists>y pt. free_desc i s = Ok (s\<lparr>sy := y, ptable := pt, vd := (vd s)\<lparr>desc := (desc (vd s))[i := zero_desc], vfree := (vfree (vd s))[i := 1]\<rparr>\<rparr>)
    \<and> same_cpu H (sy s) y \<and> length pt = NPROC"
proof -
  let ?s = "upd_vd (\<lambda>v. v\<lparr>desc := (desc v)[i := zero_desc], vfree := (vfree v)[i := 1]\<rparr>) s"
  have "kheld H ?s" "length (ptable ?s) = NPROC" using assms(1,3) by (simp_all add: upd_vd_def)
  then obtain y where "wakeup (Some C_desc) ?s = Ok (?s\<lparr>sy := y, ptable := woken (Some C_desc) (curproc ?s) (ptable ?s)\<rparr>)" "same_cpu H (sy s) y"
    using wakeup_held[of H ?s "Some C_desc"] assms(2) by (auto simp: same_cpu_def upd_vd_def)
  then show ?thesis using assms(3,4,5)
    by (intro exI[of _ y] exI[of _ "woken (Some C_desc) (curproc ?s) (ptable ?s)"]) (simp add: free_desc_def upd_vd_def)
qed

lemma free_chain_spec:
  assumes h: "kheld H s" "\<And>j. L_proc j \<notin> H" "length (ptable s) = NPROC" and l: "length (desc (vd s)) = NUM" "length (vfree (vd s)) = NUM"
    and i: "i0 < NUM" "i1 < NUM" "i2 < NUM" "distinct [i0, i1, i2]" "vfree (vd s) ! i0 = 0" "vfree (vd s) ! i1 = 0" "vfree (vd s) ! i2 = 0"
    and d: "d_flags (desc (vd s) ! i0) AND VRING_DESC_F_NEXT \<noteq> 0" "unat (d_next (desc (vd s) ! i0)) = i1"
      "d_flags (desc (vd s) ! i1) AND VRING_DESC_F_NEXT \<noteq> 0" "unat (d_next (desc (vd s) ! i1)) = i2" "d_flags (desc (vd s) ! i2) AND VRING_DESC_F_NEXT = 0"
  shows "\<exists>y pt. free_chain i0 s = Ok (s\<lparr>sy := y, ptable := pt,
      vd := (vd s)\<lparr>desc := (desc (vd s))[i0 := zero_desc, i1 := zero_desc, i2 := zero_desc], vfree := (vfree (vd s))[i0 := 1, i1 := 1, i2 := 1]\<rparr>\<rparr>)
    \<and> same_cpu H (sy s) y \<and> length pt = NPROC"
proof -
  obtain y0 p0 where s0: "free_desc i0 s = Ok (s\<lparr>sy := y0, ptable := p0, vd := (vd s)\<lparr>desc := (desc (vd s))[i0 := zero_desc], vfree := (vfree (vd s))[i0 := 1]\<rparr>\<rparr>)"
      "same_cpu H (sy s) y0" "length p0 = NPROC"
    using free_desc_spec[OF h i(1,5)] by blast
  let ?s0 = "s\<lparr>sy := y0, ptable := p0, vd := (vd s)\<lparr>desc := (desc (vd s))[i0 := zero_desc], vfree := (vfree (vd s))[i0 := 1]\<rparr>\<rparr>"
  have "kheld H ?s0" "length (ptable ?s0) = NPROC" "vfree (vd ?s0) ! i1 = 0" using same_cpuD(1)[OF s0(2)] s0(3) i by simp_all
  then obtain y1 p1 where s1: "free_desc i1 ?s0 = Ok (?s0\<lparr>sy := y1, ptable := p1, vd := (vd ?s0)\<lparr>desc := (desc (vd ?s0))[i1 := zero_desc], vfree := (vfree (vd ?s0))[i1 := 1]\<rparr>\<rparr>)"
      "same_cpu H y0 y1" "length p1 = NPROC"
    using free_desc_spec[OF _ h(2), of ?s0 i1] i(2) by auto
  let ?s1 = "s\<lparr>sy := y1, ptable := p1, vd := (vd s)\<lparr>desc := (desc (vd s))[i0 := zero_desc, i1 := zero_desc], vfree := (vfree (vd s))[i0 := 1, i1 := 1]\<rparr>\<rparr>"
  have "kheld H ?s1" "length (ptable ?s1) = NPROC" "vfree (vd ?s1) ! i2 = 0" using same_cpuD(1)[OF s1(2)] s1(3) i by simp_all
  then obtain y2 p2 where s2: "free_desc i2 ?s1 = Ok (?s1\<lparr>sy := y2, ptable := p2, vd := (vd ?s1)\<lparr>desc := (desc (vd ?s1))[i2 := zero_desc], vfree := (vfree (vd ?s1))[i2 := 1]\<rparr>\<rparr>)"
      "same_cpu H y1 y2" "length p2 = NPROC"
    using free_desc_spec[OF _ h(2), of ?s1 i2] i(3) by auto
  obtain k where k: "Suc NUM = Suc (Suc (Suc k))" by (intro that[of 6]) (simp add: NUM_def)
  have e1: "free_desc i1 ?s0 = Ok ?s1" using s1(1) by simp
  have n: "\<not> NUM \<le> i0" "\<not> NUM \<le> i1" "\<not> NUM \<le> i2" using i by simp_all
  have "free_chain i0 s = Ok (?s1\<lparr>sy := y2, ptable := p2, vd := (vd ?s1)\<lparr>desc := (desc (vd ?s1))[i2 := zero_desc], vfree := (vfree (vd ?s1))[i2 := 1]\<rparr>\<rparr>)"
    unfolding free_chain_def k using i(1-4) d n s0(1) e1 s2(1) by simp
  moreover have "same_cpu H (sy s) y2" using s0(2) s1(2) s2(2) same_cpu_trans by blast
  ultimately show ?thesis using s2(3) by (intro exI[of _ y2] exI[of _ p2]) simp
qed

section \<open>The request in the queue\<close>

lemma sector_eq:
  assumes "unat (n :: u32) < 2 ^ 31"
  shows "(ucast (n * of_nat (BSIZE div 512)) :: u64) = 2 * ucast n"
proof -
  have b: "of_nat (BSIZE div 512) = (2 :: u32)" by (simp add: BSIZE_def)
  have "uint n < 2 ^ 31" using assms by (metis nat_less_numeral_power_cancel_iff unat_eq_nat_uint)
  then have e: "uint (n * 2) = uint n * 2" "uint (2 * ucast n :: u64) = 2 * uint n" by (simp_all add: uint_word_ariths unsigned_ucast_eq take_bit_int_eq_self)
  have "uint (ucast (n * 2) :: u64) = uint n * 2"
    using \<open>uint n < 2 ^ 31\<close> unfolding unsigned_ucast_eq e(1) by (simp add: take_bit_int_eq_self)
  then show ?thesis unfolding b word_uint_eq_iff e(2) by simp
qed

lemma submit_fields:
  assumes "vq_idle (vd s)" "i0 < NUM" "i1 < NUM" "i2 < NUM" "distinct [i0, i1, i2]" "unat (b_blockno (the_buf b s)) < 2 ^ 31"
    and v: "v = vd (submit b w i0 i1 i2 s)"
  shows "avail_idx v = used_ring_idx v + 1" "unat (avail_ring v ! (unat (used_ring_idx v) mod NUM)) = i0"
    "is_request v i0 w b (b_blockno (the_buf b s)) i0"
    "d_flags (desc v ! i0) AND VRING_DESC_F_NEXT \<noteq> 0" "unat (d_next (desc v ! i0)) = i1"
      "d_flags (desc v ! i1) AND VRING_DESC_F_NEXT \<noteq> 0" "unat (d_next (desc v ! i1)) = i2" "d_flags (desc v ! i2) AND VRING_DESC_F_NEXT = 0"
    "length (desc v) = NUM" "vfree v = vfree (vd s)" "info_b v = (info_b (vd s))[i0 := Some b]" "length (used_ring v) = NUM" "length (info_status v) = NUM"
    "used_idx v = used_ring_idx v" "used_ring_idx v = used_ring_idx (vd s)"
proof -
  have l: "length (desc (vd s)) = NUM" "length (avail_ring (vd s)) = NUM" "length (info_status (vd s)) = NUM" "length (ops (vd s)) = NUM"
      "length (used_ring (vd s)) = NUM" "avail_idx (vd s) = used_ring_idx (vd s)" "used_idx (vd s) = used_ring_idx (vd s)"
    using assms(1) by (simp_all add: vq_idle_def)
  have n: "unat (of_nat i0 :: u16) = i0" "unat (of_nat i1 :: u16) = i1" "unat (of_nat i2 :: u16) = i2"
    using assms(2-4) by (simp_all add: NUM_def unat_of_nat take_bit_nat_eq_self)
  have m: "unat (used_ring_idx (vd s)) mod NUM < NUM" by (simp add: NUM_def)
  note e = v submit_def Let_def upd_vd_def vio_write_def upd_buf_def format_request_def notify_device_def
  show f: "avail_idx v = used_ring_idx v + 1" "unat (avail_ring v ! (unat (used_ring_idx v) mod NUM)) = i0" "length (desc v) = NUM" "vfree v = vfree (vd s)"
      "info_b v = (info_b (vd s))[i0 := Some b]" "length (used_ring v) = NUM" "length (info_status v) = NUM" "used_idx v = used_ring_idx v"
      "used_ring_idx v = used_ring_idx (vd s)"
    using l m n by (simp_all add: e)
  have d: "desc v ! i0 = \<lparr>d_addr = D_ops i0, d_len = 16, d_flags = VRING_DESC_F_NEXT, d_next = of_nat i1\<rparr>"
      "desc v ! i1 = \<lparr>d_addr = D_data b, d_len = of_nat BSIZE, d_flags = (if w then 0 else VRING_DESC_F_WRITE) OR VRING_DESC_F_NEXT, d_next = of_nat i2\<rparr>"
      "desc v ! i2 = \<lparr>d_addr = D_status i0, d_len = 1, d_flags = VRING_DESC_F_WRITE, d_next = 0\<rparr>"
      "ops v ! i0 = \<lparr>rq_type = (if w then VIRTIO_BLK_T_OUT else VIRTIO_BLK_T_IN), rq_reserved = 0, rq_sector = 2 * ucast (b_blockno (the_buf b s))\<rparr>"
    using l assms(2-5) sector_eq[OF assms(6)] by (simp_all add: e)
  then show "is_request v i0 w b (b_blockno (the_buf b s)) i0" using n by (simp add: is_request_def)
  show "d_flags (desc v ! i0) AND VRING_DESC_F_NEXT \<noteq> 0" "unat (d_next (desc v ! i0)) = i1" "unat (d_next (desc v ! i1)) = i2"
    using d n by (simp_all add: VRING_DESC_F_NEXT_def)
  show "d_flags (desc v ! i1) AND VRING_DESC_F_NEXT \<noteq> 0" "d_flags (desc v ! i2) AND VRING_DESC_F_NEXT = 0"
    using d by (simp_all add: VRING_DESC_F_NEXT_def VRING_DESC_F_WRITE_def)
qed

section \<open>Completion\<close>

lemma virtio_disk_intr_spec:
  assumes "kheld {} t" "length (ptable t) = NPROC" "vio_reads t \<noteq> []" "used_ring_idx (vd t) = used_idx (vd t) + 1"
    "unat (used_ring (vd t) ! (unat (used_idx (vd t)) mod NUM)) = i0" "i0 < NUM" "info_status (vd t) ! i0 = 0" "info_b (vd t) ! i0 = Some b"
  shows "\<exists>t'. virtio_disk_intr t = Ok t' \<and> vd t' = (vd t)\<lparr>used_idx := used_idx (vd t) + 1\<rparr> \<and> bufs t' = (bufs t)[b := (the_buf b t)\<lparr>b_disk := 0\<rparr>]
    \<and> disk t' = disk t \<and> dhist t' = dhist t \<and> kheld {} t'"
proof -
  obtain r rs where r: "vio_reads t = r # rs" using assms(3) by (cases "vio_reads t") auto
  obtain y where y: "kacquire L_vdisk t = Ok (t\<lparr>sy := y\<rparr>)" "same_cpu {L_vdisk} (sy t) y" using kacquire_same[OF assms(1), of L_vdisk] by auto
  let ?t1 = "vio_write 0x064 (r AND 3) (t\<lparr>sy := y, vio_reads := rs\<rparr>)"
  let ?t2 = "upd_buf b (b_disk_update (\<lambda>_. 0)) ?t1"
  have "kheld {L_vdisk} ?t2" "length (ptable ?t2) = NPROC" using same_cpuD(1)[OF y(2)] assms(2) by (simp_all add: vio_write_def upd_buf_def)
  then obtain z where z: "wakeup (Some (C_buf b)) ?t2 = Ok (?t2\<lparr>sy := z, ptable := woken (Some (C_buf b)) (curproc ?t2) (ptable ?t2)\<rparr>)" "held {L_vdisk} z"
    using wakeup_held[of "{L_vdisk}" ?t2 "Some (C_buf b)"] by auto
  let ?t3 = "upd_vd (\<lambda>v. v\<lparr>used_idx := used_idx v + 1\<rparr>) (?t2\<lparr>sy := z, ptable := woken (Some (C_buf b)) (curproc ?t2) (ptable ?t2)\<rparr>)"
  have v: "vd ?t1 = vd t" by (simp add: vio_write_def)
  have one: "intr_one ?t1 = Ok ?t3" using z(1) assms(5-8) unfolding intr_one_def v by (simp add: deref_def)
  have "unat (used_ring_idx (vd ?t1) - used_idx (vd ?t1)) = 1" using assms(4) v by simp
  then have loop: "fold_res (\<lambda>_. intr_one) [0..<unat (used_ring_idx (vd ?t1) - used_idx (vd ?t1))] ?t1 = Ok ?t3" using one by simp
  have "kheld {L_vdisk} ?t3" using z(2) by (simp add: upd_vd_def)
  then obtain w where w: "krelease L_vdisk ?t3 = Ok (?t3\<lparr>sy := w\<rparr>)" "held {} w" using krelease_same[of "{L_vdisk}" ?t3 L_vdisk] by (auto simp: same_cpu_def)
  have "virtio_disk_intr t = Ok (?t3\<lparr>sy := w\<rparr>)"
    unfolding virtio_disk_intr_def using y(1) r loop w(1) by (simp add: vio_read_def Let_def)
  then show ?thesis using w(2) by (intro exI[of _ "?t3\<lparr>sy := w\<rparr>"]) (simp add: upd_vd_def upd_buf_def vio_write_def)
qed

lemma rw_wait_done:
  assumes h: "kheld {L_vdisk} u" "length (ptable u) = NPROC" and l: "length (desc (vd u)) = NUM" "length (vfree (vd u)) = NUM"
    and i: "i0 < NUM" "i1 < NUM" "i2 < NUM" "distinct [i0, i1, i2]" "vfree (vd u) ! i0 = 0" "vfree (vd u) ! i1 = 0" "vfree (vd u) ! i2 = 0"
    and d: "d_flags (desc (vd u) ! i0) AND VRING_DESC_F_NEXT \<noteq> 0" "unat (d_next (desc (vd u) ! i0)) = i1"
      "d_flags (desc (vd u) ! i1) AND VRING_DESC_F_NEXT \<noteq> 0" "unat (d_next (desc (vd u) ! i1)) = i2" "d_flags (desc (vd u) ! i2) AND VRING_DESC_F_NEXT = 0"
    and b: "b_disk (the_buf b u) \<noteq> 1"
  shows "\<exists>u'. rw_wait b i0 u = Ok (Rw_done, u') \<and> kheld {} u' \<and> bufs u' = bufs u \<and> disk u' = disk u \<and> dhist u' = dhist u
    \<and> vd u' = (vd u)\<lparr>desc := (desc (vd u))[i0 := zero_desc, i1 := zero_desc, i2 := zero_desc], vfree := (vfree (vd u))[i0 := 1, i1 := 1, i2 := 1],
        info_b := (info_b (vd u))[i0 := None]\<rparr>"
proof -
  let ?u = "upd_vd (\<lambda>v. v\<lparr>info_b := (info_b v)[i0 := None]\<rparr>) u"
  have p: "kheld {L_vdisk} ?u" "\<And>j. L_proc j \<notin> {L_vdisk}" "length (ptable ?u) = NPROC" "length (desc (vd ?u)) = NUM" "length (vfree (vd ?u)) = NUM"
    "vfree (vd ?u) ! i0 = 0" "vfree (vd ?u) ! i1 = 0" "vfree (vd ?u) ! i2 = 0"
    using h l i by (simp_all add: upd_vd_def)
  have dd: "desc (vd ?u) = desc (vd u)" by (simp add: upd_vd_def)
  obtain y pt where y: "free_chain i0 ?u = Ok (?u\<lparr>sy := y, ptable := pt, vd := (vd ?u)\<lparr>desc := (desc (vd ?u))[i0 := zero_desc, i1 := zero_desc, i2 := zero_desc],
      vfree := (vfree (vd ?u))[i0 := 1, i1 := 1, i2 := 1]\<rparr>\<rparr>)" "same_cpu {L_vdisk} (sy ?u) y"
    using free_chain_spec[OF p(1-5) i(1-4) p(6-8)] d unfolding dd by blast
  let ?w = "?u\<lparr>sy := y, ptable := pt, vd := (vd ?u)\<lparr>desc := (desc (vd ?u))[i0 := zero_desc, i1 := zero_desc, i2 := zero_desc],
      vfree := (vfree (vd ?u))[i0 := 1, i1 := 1, i2 := 1]\<rparr>\<rparr>"
  obtain z where "krelease L_vdisk ?w = Ok (?w\<lparr>sy := z\<rparr>)" "held {} z"
    using krelease_same[of "{L_vdisk}" ?w L_vdisk] same_cpuD(1)[OF y(2)] by (auto simp: same_cpu_def)
  then show ?thesis using y(1) b by (intro exI[of _ "?w\<lparr>sy := z\<rparr>"]) (simp add: rw_wait_def upd_vd_def)
qed

text \<open>States that agree on what driver and device share; the scheduler may have run in between.\<close>

definition same_disk :: "'z virtio_state_scheme \<Rightarrow> 'z virtio_state_scheme \<Rightarrow> bool" where
  "same_disk t u \<longleftrightarrow> vd t = vd u \<and> bufs t = bufs u \<and> disk t = disk u \<and> dhist t = dhist u"

text \<open>The part up to the first sleep.\<close>

lemma virtio_disk_rw_submits:
  assumes "ready p s" "vq_idle (vd s)" "3 \<le> length (free_descs (vd s))" "b < length (bufs s)"
  shows "\<exists>i0 i1 i2 y. i0 < NUM \<and> i1 < NUM \<and> i2 < NUM \<and> distinct [i0, i1, i2] \<and> vfree (vd s) ! i0 = 1 \<and> vfree (vd s) ! i1 = 1 \<and> vfree (vd s) ! i2 = 1
    \<and> virtio_disk_rw b w s = bind_res (sleep_out (Some (C_buf b)) L_vdisk (submit b w i0 i1 i2
        (s\<lparr>sy := y, vd := (vd s)\<lparr>vfree := (vfree (vd s))[i0 := 0, i1 := 0, i2 := 0]\<rparr>\<rparr>))) (\<lambda>(ie, s). Ok (Rw_waits ie i0, s))"
proof -
  obtain y where y: "kacquire L_vdisk s = Ok (s\<lparr>sy := y\<rparr>)" using ready_acquire[OF assms(1), of L_vdisk] by blast
  obtain i0 i1 i2 "is" where f: "free_descs (vd (s\<lparr>sy := y\<rparr>)) = i0 # i1 # i2 # is"
    using assms(3) by (auto simp: numeral_3_eq_3 Suc_le_length_iff)
  have l: "length (vfree (vd (s\<lparr>sy := y\<rparr>))) = NUM" using assms(2) by (simp add: vq_idle_def)
  note a = alloc3_spec[OF f l]
  have "b_disk (the_buf b (submit b w i0 i1 i2 (s\<lparr>sy := y, vd := (vd s)\<lparr>vfree := (vfree (vd s))[i0 := 0, i1 := 0, i2 := 0]\<rparr>\<rparr>))) = 1"
    using assms(4) by (simp add: submit_def Let_def upd_vd_def vio_write_def upd_buf_def)
  then have "virtio_disk_rw b w s = bind_res (sleep_out (Some (C_buf b)) L_vdisk (submit b w i0 i1 i2
        (s\<lparr>sy := y, vd := (vd s)\<lparr>vfree := (vfree (vd s))[i0 := 0, i1 := 0, i2 := 0]\<rparr>\<rparr>))) (\<lambda>(ie, s). Ok (Rw_waits ie i0, s))"
    using y a(1) by (simp add: virtio_disk_rw_def rw_loop_def rw_wait_def)
  moreover have "vfree (vd s) ! i0 = 1" "vfree (vd s) ! i1 = 1" "vfree (vd s) ! i2 = 1"
    using a(2-4,6-8) assms(2) by (auto simp: vq_idle_def)
  ultimately show ?thesis using a(2-5) by blast
qed

text \<open>What the device leaves, with the buffer no longer marked as the device's.\<close>

lemma served_is_disk_rw:
  assumes "ready p s" "b < length (bufs s)" "n = b_blockno (the_buf b s)"
    and r: "r = served i0 w b n i0 (submit b w i0 i1 i2 (s\<lparr>sy := y, vd := v\<rparr>))"
  shows "\<exists>sa. disk_rw b w s = Ok sa \<and> disk r = disk sa \<and> dhist r = dhist sa \<and> (bufs r)[b := (the_buf b r)\<lparr>b_disk := 0\<rparr>] = bufs sa"
proof (cases w)
  case True
  then show ?thesis using disk_rw_write[OF assms(1), of b] assms(2,3)
    by (auto simp: r served_def submit_def Let_def upd_vd_def vio_write_def upd_buf_def)
next
  case False
  then show ?thesis using disk_rw_read[OF assms(1), of b] assms(2,3)
    by (auto simp: r served_def submit_def Let_def upd_vd_def vio_write_def upd_buf_def)
qed

lemma free_descs_restored:
  assumes "length f = NUM" "i0 < NUM" "i1 < NUM" "i2 < NUM" "distinct [i0, i1, i2]" "f ! i0 = 1" "f ! i1 = 1" "f ! i2 = 1"
  shows "f[i0 := 0, i1 := 0, i2 := 0, i0 := 1, i1 := 1, i2 := (1 :: u8)] = f"
  using assms by (intro nth_equalityI) (auto simp: nth_list_update)

text \<open>After the device: the transfer is done, the completion is in the used ring.\<close>

lemma device_serves:
  assumes "virtio_device dev" "ready p s" "b < length (bufs s)" "unat (b_blockno (the_buf b s)) < 2 ^ 31" "vq_idle v"
    "i0 < NUM" "i1 < NUM" "i2 < NUM" "distinct [i0, i1, i2]" and s1: "s1 = submit b w i0 i1 i2 (s\<lparr>sy := y, vd := v\<rparr>)"
  shows "\<exists>sa. disk_rw b w s = Ok sa \<and> disk (dev s1) = disk sa \<and> dhist (dev s1) = dhist sa
      \<and> (bufs (dev s1))[b := (the_buf b (dev s1))\<lparr>b_disk := 0\<rparr>] = bufs sa \<and> b < length (bufs (dev s1))"
    "vd (dev s1) = (vd s1)\<lparr>info_status := (info_status (vd s1))[i0 := 0],
      used_ring := (used_ring (vd s1))[unat (used_ring_idx (vd s1)) mod NUM := of_nat i0], used_ring_idx := used_ring_idx (vd s1) + 1\<rparr>"
    "used_ring_idx (vd (dev s1)) = used_idx (vd (dev s1)) + 1" "unat (used_ring (vd (dev s1)) ! (unat (used_idx (vd (dev s1))) mod NUM)) = i0"
    "info_status (vd (dev s1)) ! i0 = 0" "info_b (vd (dev s1)) ! i0 = Some b"
proof -
  let ?n = "b_blockno (the_buf b s)"
  have v0: "vq_idle (vd (s\<lparr>sy := y, vd := v\<rparr>))" "unat (b_blockno (the_buf b (s\<lparr>sy := y, vd := v\<rparr>))) < 2 ^ 31" using assms(4,5) by simp_all
  note q = submit_fields[OF v0(1) assms(6-9) v0(2) refl, of w, folded s1]
  have r: "dev s1 = served i0 w b ?n i0 s1" using assms(1) q(1,2,3) unfolding virtio_device_def by simp
  obtain sa where "disk_rw b w s = Ok sa" "disk (dev s1) = disk sa" "dhist (dev s1) = dhist sa" "(bufs (dev s1))[b := (the_buf b (dev s1))\<lparr>b_disk := 0\<rparr>] = bufs sa"
    using served_is_disk_rw[OF assms(2,3) refl r[unfolded s1]] unfolding s1 by blast
  moreover have "b < length (bufs (dev s1))" using assms(3) unfolding r by (simp add: s1 served_def submit_def Let_def upd_vd_def upd_buf_def vio_write_def)
  ultimately show "\<exists>sa. disk_rw b w s = Ok sa \<and> disk (dev s1) = disk sa \<and> dhist (dev s1) = dhist sa
      \<and> (bufs (dev s1))[b := (the_buf b (dev s1))\<lparr>b_disk := 0\<rparr>] = bufs sa \<and> b < length (bufs (dev s1))" by blast
  show vr: "vd (dev s1) = (vd s1)\<lparr>info_status := (info_status (vd s1))[i0 := 0],
      used_ring := (used_ring (vd s1))[unat (used_ring_idx (vd s1)) mod NUM := of_nat i0], used_ring_idx := used_ring_idx (vd s1) + 1\<rparr>"
    unfolding r by (simp add: served_def upd_vd_def upd_buf_def)
  have "unat (of_nat i0 :: u32) = i0" using assms(6) by (simp add: NUM_def unat_of_nat take_bit_nat_eq_self)
  moreover have "unat (used_idx (vd s1)) mod NUM < NUM" by (simp add: NUM_def)
  ultimately show "used_ring_idx (vd (dev s1)) = used_idx (vd (dev s1)) + 1" "unat (used_ring (vd (dev s1)) ! (unat (used_idx (vd (dev s1))) mod NUM)) = i0"
      "info_status (vd (dev s1)) ! i0 = 0" "info_b (vd (dev s1)) ! i0 = Some b"
    using vr q(11-14) assms(5,6) by (simp_all add: vq_idle_def)
qed

text \<open>
  C4. The driver does what the buffer cache assumes of the disk. With a device that serves requests as the virtio
  specification says and three free descriptors, \<open>virtio_disk_rw\<close> queues a well-formed request and sleeps on the
  buffer; once the device has served it, whatever else has run, \<open>virtio_disk_intr\<close> hands the buffer back, and the
  sleeper's second test ends the call with disk and buffers exactly as after the abstract transfer, the queue idle
  and the same descriptors free as before.\<close>

theorem virtio_rw_refines_disk_rw:
  fixes s :: "'z virtio_state_scheme"
  assumes "virtio_device dev" "ready p s" "vq_idle (vd s)" "3 \<le> length (free_descs (vd s))" "b < length (bufs s)"
    "unat (b_blockno (the_buf b s)) < 2 ^ 31"
  shows "\<exists>i0 s1 sa. virtio_disk_rw b write s = bind_res (sleep_out (Some (C_buf b)) L_vdisk s1) (\<lambda>(ie, s). Ok (Rw_waits ie i0, s))
    \<and> disk_rw b write s = Ok sa
    \<and> (\<forall>t. same_disk t (dev s1) \<longrightarrow> kheld {} t \<longrightarrow> length (ptable t) = NPROC \<longrightarrow> vio_reads t \<noteq> [] \<longrightarrow>
        (\<exists>t'. virtio_disk_intr t = Ok t' \<and> kheld {} t'
          \<and> (\<forall>u. same_disk u t' \<longrightarrow> kheld {L_vdisk} u \<longrightarrow> length (ptable u) = NPROC \<longrightarrow>
              (\<exists>u'. rw_wait b i0 u = Ok (Rw_done, u') \<and> kheld {} u' \<and> disk u' = disk sa \<and> dhist u' = dhist sa \<and> bufs u' = bufs sa
                \<and> vq_idle (vd u') \<and> free_descs (vd u') = free_descs (vd s)))))"
proof -
  obtain i0 i1 i2 y where i: "i0 < NUM" "i1 < NUM" "i2 < NUM" "distinct [i0, i1, i2]" "vfree (vd s) ! i0 = 1" "vfree (vd s) ! i1 = 1" "vfree (vd s) ! i2 = 1"
      and w: "virtio_disk_rw b write s = bind_res (sleep_out (Some (C_buf b)) L_vdisk (submit b write i0 i1 i2
        (s\<lparr>sy := y, vd := (vd s)\<lparr>vfree := (vfree (vd s))[i0 := 0, i1 := 0, i2 := 0]\<rparr>\<rparr>))) (\<lambda>(ie, s). Ok (Rw_waits ie i0, s))"
    using virtio_disk_rw_submits[OF assms(2-5), of "write"] by blast
  let ?f = "(vfree (vd s))[i0 := 0, i1 := 0, i2 := 0]" and ?n = "b_blockno (the_buf b s)"
  let ?s0 = "s\<lparr>sy := y, vd := (vd s)\<lparr>vfree := ?f\<rparr>\<rparr>"
  let ?s1 = "submit b write i0 i1 i2 ?s0"
  have v0: "vq_idle ((vd s)\<lparr>vfree := ?f\<rparr>)" "vq_idle (vd ?s0)" "unat (b_blockno (the_buf b ?s0)) < 2 ^ 31"
    using assms(3,6) i(1-3) by (auto simp: vq_idle_def nth_list_update)
  note q = submit_fields[OF v0(2) i(1-4) v0(3) refl, of "write"]
  note r = device_serves[OF assms(1,2,5,6) v0(1) i(1-4) refl, of "write" y]
  obtain sa where sa: "disk_rw b write s = Ok sa" "disk (dev ?s1) = disk sa" "dhist (dev ?s1) = dhist sa"
      "(bufs (dev ?s1))[b := (the_buf b (dev ?s1))\<lparr>b_disk := 0\<rparr>] = bufs sa" "b < length (bufs (dev ?s1))"
    using r(1) by blast
  have "\<exists>t'. virtio_disk_intr t = Ok t' \<and> kheld {} t' \<and> (\<forall>u. same_disk u t' \<longrightarrow> kheld {L_vdisk} u \<longrightarrow> length (ptable u) = NPROC \<longrightarrow>
        (\<exists>u'. rw_wait b i0 u = Ok (Rw_done, u') \<and> kheld {} u' \<and> disk u' = disk sa \<and> dhist u' = dhist sa \<and> bufs u' = bufs sa
          \<and> vq_idle (vd u') \<and> free_descs (vd u') = free_descs (vd s)))"
    if t: "same_disk t (dev ?s1)" "kheld {} t" "length (ptable t) = NPROC" "vio_reads t \<noteq> []" for t
  proof -
    have e: "vd t = vd (dev ?s1)" "bufs t = bufs (dev ?s1)" "disk t = disk (dev ?s1)" "dhist t = dhist (dev ?s1)" using t(1) by (simp_all add: same_disk_def)
    obtain t' where t': "virtio_disk_intr t = Ok t'" "kheld {} t'" "vd t' = (vd (dev ?s1))\<lparr>used_idx := used_idx (vd (dev ?s1)) + 1\<rparr>"
        "bufs t' = bufs sa" "disk t' = disk sa" "dhist t' = dhist sa"
      using virtio_disk_intr_spec[OF t(2-4), of i0 b] r(3-6) i(1) sa e by auto
    have "\<exists>u'. rw_wait b i0 u = Ok (Rw_done, u') \<and> kheld {} u' \<and> disk u' = disk sa \<and> dhist u' = dhist sa \<and> bufs u' = bufs sa
        \<and> vq_idle (vd u') \<and> free_descs (vd u') = free_descs (vd s)"
      if u: "same_disk u t'" "kheld {L_vdisk} u" "length (ptable u) = NPROC" for u
    proof -
      have e': "vd u = (vd (dev ?s1))\<lparr>used_idx := used_idx (vd (dev ?s1)) + 1\<rparr>" "bufs u = bufs sa" "disk u = disk sa" "dhist u = dhist sa"
        using u(1) t' by (simp_all add: same_disk_def)
      have vf: "vfree (vd u) = ?f" "desc (vd u) = desc (vd ?s1)" using e'(1) r(2) q(10) by simp_all
      have l: "length (desc (vd u)) = NUM" "length (vfree (vd u)) = NUM" using vf q(9) assms(3) by (simp_all add: vq_idle_def)
      have z: "vfree (vd u) ! i0 = 0" "vfree (vd u) ! i1 = 0" "vfree (vd u) ! i2 = 0" using vf l i by simp_all
      have "b_disk (the_buf b u) \<noteq> 1" using e'(2) sa(4)[symmetric] sa(5) by simp
      then obtain u' where u': "rw_wait b i0 u = Ok (Rw_done, u')" "kheld {} u'" "bufs u' = bufs u" "disk u' = disk u" "dhist u' = dhist u"
          "vd u' = (vd u)\<lparr>desc := (desc (vd u))[i0 := zero_desc, i1 := zero_desc, i2 := zero_desc], vfree := (vfree (vd u))[i0 := 1, i1 := 1, i2 := 1],
            info_b := (info_b (vd u))[i0 := None]\<rparr>"
        using rw_wait_done[OF u(2,3) l i(1-4) z] q(4-8) vf(2) by auto
      have f: "vfree (vd u') = vfree (vd s)" using u'(6) vf(1) free_descs_restored[OF _ i(1-7)] assms(3) by (simp add: vq_idle_def)
      have "vq_idle (vd u')" using assms(3) f u'(6) e'(1) r(2) q(1,9,11-15) v0(1)
        by (simp add: vq_idle_def) (simp add: submit_def Let_def upd_vd_def vio_write_def upd_buf_def format_request_def notify_device_def)
      then show ?thesis using u' e' f by (simp add: free_descs_def)
    qed
    then show ?thesis using t'(1,2) by blast
  qed
  then show ?thesis using w sa(1) by blast
qed

section \<open>A device and an idle queue\<close>

definition plain_device :: "'z virtio_state_scheme \<Rightarrow> 'z virtio_state_scheme" where
  "plain_device s =
     (let v = vd s;
          h = unat (avail_ring v ! (unat (used_ring_idx v) mod NUM));
          d0 = desc v ! h; d1 = desc v ! unat (d_next d0); d2 = desc v ! unat (d_next d1);
          rq = ops v ! (case d_addr d0 of D_ops k \<Rightarrow> k | _ \<Rightarrow> 0)
      in served h (rq_type rq = VIRTIO_BLK_T_OUT) (case d_addr d1 of D_data b \<Rightarrow> b | _ \<Rightarrow> 0) (ucast (rq_sector rq div 2))
           (case d_addr d2 of D_status k \<Rightarrow> k | _ \<Rightarrow> 0) s)"

lemma plain_device_serves: "virtio_device plain_device"
proof -
  have n: "(ucast ((2 * ucast n :: u64) div 2) :: u32) = n" for n :: u32
  proof -
    have "uint n < 2 ^ 32" using uint_lt2p[of n] by simp
    moreover from this have "uint ((2 * ucast n :: u64) div 2) = uint n" by (simp add: uint_div_distrib uint_word_ariths unsigned_ucast_eq take_bit_int_eq_self)
    ultimately have "(2 * ucast n :: u64) div 2 = ucast n" by (simp add: word_uint_eq_iff unsigned_ucast_eq take_bit_int_eq_self)
    moreover have "(ucast (ucast n :: u64) :: u32) = n" by (rule bit_word_eqI) (simp add: bit_ucast_iff)
    ultimately show ?thesis by simp
  qed
  show ?thesis unfolding virtio_device_def
  proof (intro allI impI)
    fix s :: "'a virtio_state_scheme" and h w b n st
    assume h: "h = unat (avail_ring (vd s) ! (unat (used_ring_idx (vd s)) mod NUM))" and r: "is_request (vd s) h w b n st"
    obtain k where k: "d_addr (desc (vd s) ! h) = D_ops k" "rq_type (ops (vd s) ! k) = (if w then VIRTIO_BLK_T_OUT else VIRTIO_BLK_T_IN)"
        "rq_sector (ops (vd s) ! k) = 2 * ucast n"
      using r by (auto simp: is_request_def Let_def)
    then have "(rq_type (ops (vd s) ! k) = VIRTIO_BLK_T_OUT) = w" by (simp add: VIRTIO_BLK_T_OUT_def VIRTIO_BLK_T_IN_def)
    then show "plain_device s = served h w b n st s" using r h k n by (simp add: plain_device_def is_request_def Let_def)
  qed
qed

definition idle_disk :: virtio_state where
  "idle_disk = bio_state.extend cold_bufs (virtio_state.fields
     \<lparr>desc = replicate NUM zero_desc, avail_idx = 0xffff, avail_ring = replicate NUM 0, used_ring_idx = 0xffff, used_ring = replicate NUM 0,
       vfree = replicate NUM 1, used_idx = 0xffff, info_b = replicate NUM None, info_status = replicate NUM 0,
       ops = replicate NUM \<lparr>rq_type = 0, rq_reserved = 0, rq_sector = 0\<rparr>\<rparr> [1] [])"

lemma idle_disk_ready:
  "ready 0 idle_disk" "vq_idle (vd idle_disk)" "3 \<le> length (free_descs (vd idle_disk))" "0 < length (bufs idle_disk)"
  "unat (b_blockno (the_buf 0 idle_disk)) < 2 ^ 31" "vio_reads idle_disk = [1]"
proof -
  show "ready 0 idle_disk" using cold_bufs_ready by (simp add: ready_def idle_disk_def bio_state.extend_def virtio_state.fields_def)
  show "vq_idle (vd idle_disk)" "vio_reads idle_disk = [1]" "0 < length (bufs idle_disk)"
    using cold_bufs_bufs(1) by (simp_all add: vq_idle_def idle_disk_def bio_state.extend_def virtio_state.fields_def)
  show "3 \<le> length (free_descs (vd idle_disk))"
    by (simp add: free_descs_def idle_disk_def bio_state.extend_def virtio_state.fields_def NUM_def)
  show "unat (b_blockno (the_buf 0 idle_disk)) < 2 ^ 31"
    by (simp add: idle_disk_def cold_bufs_def bio_state.extend_def virtio_state.fields_def sleep_state.extend_def bio_state.fields_def nth_append NBUF_def MAXOPBLOCKS_def)
qed

text \<open>A write through the driver, at the point where the 16-bit indices of the rings wrap.\<close>

theorem virtio_rw_refines_disk_rw_witness:
  "\<exists>i0 (t :: virtio_state) t' (u :: virtio_state) u' sa. disk_rw 0 True idle_disk = Ok sa \<and> virtio_disk_intr t = Ok t' \<and> rw_wait 0 i0 u = Ok (Rw_done, u')
    \<and> disk u' = disk sa \<and> bufs u' = bufs sa \<and> free_descs (vd u') = free_descs (vd idle_disk)"
proof -
  have h: "kheld {} idle_disk" "length (ptable idle_disk) = NPROC" using idle_disk_ready(1) by (simp_all add: ready_def)
  obtain i0 and s1 :: virtio_state and sa where sa: "disk_rw 0 True idle_disk = Ok sa"
      and c: "\<forall>t :: virtio_state. same_disk t (plain_device s1) \<longrightarrow> kheld {} t \<longrightarrow> length (ptable t) = NPROC \<longrightarrow> vio_reads t \<noteq> [] \<longrightarrow>
        (\<exists>t'. virtio_disk_intr t = Ok t' \<and> kheld {} t'
          \<and> (\<forall>u :: virtio_state. same_disk u t' \<longrightarrow> kheld {L_vdisk} u \<longrightarrow> length (ptable u) = NPROC \<longrightarrow>
              (\<exists>u'. rw_wait 0 i0 u = Ok (Rw_done, u') \<and> kheld {} u' \<and> disk u' = disk sa \<and> dhist u' = dhist sa \<and> bufs u' = bufs sa
                \<and> vq_idle (vd u') \<and> free_descs (vd u') = free_descs (vd idle_disk))))"
    using virtio_rw_refines_disk_rw[OF plain_device_serves idle_disk_ready(1-5), of True] by blast
  let ?on = "\<lambda>z x. idle_disk\<lparr>sy := z, bufs := bufs x, disk := disk x, dhist := dhist x, vd := vd x\<rparr>"
  have "same_disk (?on (sy idle_disk) (plain_device s1)) (plain_device s1)" by (simp add: same_disk_def)
  then obtain t' where t': "virtio_disk_intr (?on (sy idle_disk) (plain_device s1)) = Ok t'"
      "\<forall>u. same_disk u t' \<longrightarrow> kheld {L_vdisk} u \<longrightarrow> length (ptable u) = NPROC \<longrightarrow>
              (\<exists>u'. rw_wait 0 i0 u = Ok (Rw_done, u') \<and> kheld {} u' \<and> disk u' = disk sa \<and> dhist u' = dhist sa \<and> bufs u' = bufs sa
                \<and> vq_idle (vd u') \<and> free_descs (vd u') = free_descs (vd idle_disk))"
    using c h idle_disk_ready(6) by auto
  obtain y where y: "held {L_vdisk} y" using ready_acquire[OF idle_disk_ready(1), of L_vdisk] by blast
  have "same_disk (?on y t') t'" by (simp add: same_disk_def)
  then obtain u' where "rw_wait 0 i0 (?on y t') = Ok (Rw_done, u')" "disk u' = disk sa" "bufs u' = bufs sa" "free_descs (vd u') = free_descs (vd idle_disk)"
    using t'(2) y h(2) by auto
  then show ?thesis using sa t'(1) by blast
qed

end
