(* ===== verification/File.thy ===== *)
theory File
  imports Fs_Name
begin

text \<open>
  kernel/fs/file.c: the table of open files, and \<open>pipealloc\<close> of kernel/ipc/pipe.c, which takes
  two files from it. A file pointer is an index into \<open>ftable.file[]\<close>.

  No code of the kernel stores into the table \<open>devsw[]\<close>, which starts as zeros: both function
  pointers of every device are null. \<open>k_var\<close> gives the address of a local variable of a
  system call, by the name of the function and of the variable.
\<close>

section \<open>State\<close>

definition NFILE :: nat where "NFILE = 100"
definition NDEV :: nat where "NDEV = 10"

datatype filetype = FD_NONE | FD_PIPE | FD_INODE | FD_DEVICE

record kfile =
  f_type :: filetype
  f_ref :: i32
  f_readable :: u8
  f_writable :: u8
  f_pipe :: u64
  f_ip :: "nat option"
  f_off :: u32
  f_major :: u16

record file_state = fs_state +
  ftable :: "kfile list"
  k_var :: "string \<Rightarrow> u64"

abbreviation the_file :: "nat \<Rightarrow> 'z file_state_scheme \<Rightarrow> kfile" where
  "the_file f s \<equiv> ftable s ! f"

definition upd_file :: "nat \<Rightarrow> (kfile \<Rightarrow> kfile) \<Rightarrow> 'z file_state_scheme \<Rightarrow> 'z file_state_scheme" where
  "upd_file f g s = s\<lparr>ftable := (ftable s)[f := g (ftable s ! f)]\<rparr>"

text \<open>\<open>devsw[major].read\<close> and \<open>devsw[major].write\<close> are not null.\<close>

definition devsw_read :: "u16 \<Rightarrow> bool" where "devsw_read major = False"
definition devsw_write :: "u16 \<Rightarrow> bool" where "devsw_write major = False"

section \<open>Operations\<close>

definition fileinit :: "'z file_state_scheme \<Rightarrow> 'z file_state_scheme" where
  "fileinit s = s\<lparr>sy := initlock L_ftable ''ftable'' (sy s)\<rparr>"

definition free_file :: "kfile list \<Rightarrow> nat option" where
  "free_file tab = find (\<lambda>f. f_ref (tab ! f) = 0) [0..<NFILE]"

definition filealloc :: "'z file_state_scheme \<Rightarrow> (nat option \<times> 'z file_state_scheme) res" where
  "filealloc s =
     bind_res (kacquire L_ftable s) (\<lambda>s.
     case free_file (ftable s) of
       Some f \<Rightarrow> bind_res (krelease L_ftable (upd_file f (f_ref_update (\<lambda>_. 1)) s)) (\<lambda>s. Ok (Some f, s))
     | None \<Rightarrow> bind_res (krelease L_ftable s) (\<lambda>s. Ok (None, s)))"

definition filedup :: "nat \<Rightarrow> 'z file_state_scheme \<Rightarrow> (nat \<times> 'z file_state_scheme) res" where
  "filedup f s =
     bind_res (kacquire L_ftable s) (\<lambda>s.
     if sint (f_ref (the_file f s)) < 1 then Panic ''filedup''
     else bind_res (krelease L_ftable (upd_file f (\<lambda>x. x\<lparr>f_ref := f_ref x + 1\<rparr>) s)) (\<lambda>s. Ok (f, s)))"

definition fileclose :: "nat \<Rightarrow> 'z file_state_scheme \<Rightarrow> 'z file_state_scheme res" where
  "fileclose f s =
     bind_res (kacquire L_ftable s) (\<lambda>s.
     if sint (f_ref (the_file f s)) < 1 then Panic ''fileclose''
     else
       let s = upd_file f (\<lambda>x. x\<lparr>f_ref := f_ref x - 1\<rparr>) s in
       if 0 < sint (f_ref (the_file f s)) then krelease L_ftable s
       else
         let ff = the_file f s;
             s = upd_file f (\<lambda>x. x\<lparr>f_ref := 0, f_type := FD_NONE\<rparr>) s
         in bind_res (krelease L_ftable s) (\<lambda>s.
            case f_type ff of
              FD_PIPE \<Rightarrow> pipeclose (f_pipe ff) (f_writable ff \<noteq> 0) s
            | FD_NONE \<Rightarrow> Ok s
            | _ \<Rightarrow>
                bind_res (begin_op s) (\<lambda>s.
                bind_res (deref (f_ip ff) (\<lambda>i. iput i s)) (\<lambda>s.
                end_op s))))"

definition filestat :: "nat \<Rightarrow> u64 \<Rightarrow> 'z file_state_scheme \<Rightarrow> (i32 \<times> 'z file_state_scheme) res" where
  "filestat f addr s =
     bind_res (myproc s) (\<lambda>(r, s).
     if f_type (the_file f s) = FD_INODE \<or> f_type (the_file f s) = FD_DEVICE
     then
       bind_res (ilock (f_ip (the_file f s)) s) (\<lambda>s.
       bind_res (deref (f_ip (the_file f s)) (\<lambda>i. Ok (stati i (k_var s ''filestat.st'') s))) (\<lambda>s.
       bind_res (iunlock (f_ip (the_file f s)) s) (\<lambda>s.
       deref r (\<lambda>p.
       bind_res (copyout (p_pagetable (the_proc p s)) addr (k_var s ''filestat.st'') STAT_SIZE s) (\<lambda>(c, s).
       Ok (if c < 0 then - 1 else 0, s))))))
     else Ok (- 1, s))"

definition fileread :: "nat \<Rightarrow> u64 \<Rightarrow> i32 \<Rightarrow> 'z file_state_scheme \<Rightarrow> (i32 \<times> 'z file_state_scheme) res" where
  "fileread f addr n s =
     (if f_readable (the_file f s) = 0 then Ok (- 1, s)
      else case f_type (the_file f s) of
        FD_PIPE \<Rightarrow> piperead (f_pipe (the_file f s)) addr n s
      | FD_DEVICE \<Rightarrow>
          let major = f_major (the_file f s) in
          if sint major < 0 \<or> int NDEV \<le> sint major \<or> \<not> devsw_read major then Ok (- 1, s)
          else Panic ''undefined''
      | FD_INODE \<Rightarrow>
          bind_res (ilock (f_ip (the_file f s)) s) (\<lambda>s.
          deref (f_ip (the_file f s)) (\<lambda>i.
          bind_res (readi i True addr (f_off (the_file f s)) n s) (\<lambda>(r, s).
          let s = (if 0 < sint r then upd_file f (\<lambda>x. x\<lparr>f_off := f_off x + r\<rparr>) s else s) in
          bind_res (iunlock (f_ip (the_file f s)) s) (\<lambda>s.
          Ok (r, s)))))
      | FD_NONE \<Rightarrow> Panic ''fileread'')"

text \<open>One transaction of \<open>filewrite\<close>, and its loop: \<open>i\<close> of the \<open>n\<close> bytes are written.\<close>

definition filewrite_max :: nat where
  "filewrite_max = ((MAXOPBLOCKS - 1 - 1 - 2) div 2) * BSIZE"

definition filewrite_some :: "nat \<Rightarrow> u64 \<Rightarrow> i32 \<Rightarrow> 'z file_state_scheme \<Rightarrow> (i32 \<times> 'z file_state_scheme) res" where
  "filewrite_some f addr n1 s =
     bind_res (begin_op s) (\<lambda>s.
     bind_res (ilock (f_ip (the_file f s)) s) (\<lambda>s.
     deref (f_ip (the_file f s)) (\<lambda>i.
     bind_res (writei i True addr (f_off (the_file f s)) n1 s) (\<lambda>(r, s).
     let s = (if 0 < sint r then upd_file f (\<lambda>x. x\<lparr>f_off := f_off x + r\<rparr>) s else s) in
     bind_res (iunlock (f_ip (the_file f s)) s) (\<lambda>s.
     bind_res (end_op s) (\<lambda>s. Ok (r, s)))))))"

function filewrite_loop :: "nat \<Rightarrow> u64 \<Rightarrow> nat \<Rightarrow> nat \<Rightarrow> 'z file_state_scheme \<Rightarrow> (nat \<times> 'z file_state_scheme) res" where
  "filewrite_loop f addr n i s =
     (if i < n
      then
        let n1 = min (n - i) filewrite_max in
        bind_res (filewrite_some f (addr + of_nat i) (of_nat n1) s) (\<lambda>(r, s).
        if r \<noteq> of_nat n1 then Ok (i, s) else filewrite_loop f addr n (i + n1) s)
      else Ok (i, s))"
  by pat_completeness auto
termination
  by (relation "measure (\<lambda>(f, addr, n, i, s). n - i)") (auto simp: filewrite_max_def MAXOPBLOCKS_def BSIZE_def)

declare filewrite_loop.simps [simp del]

definition filewrite :: "nat \<Rightarrow> u64 \<Rightarrow> i32 \<Rightarrow> 'z file_state_scheme \<Rightarrow> (i32 \<times> 'z file_state_scheme) res" where
  "filewrite f addr n s =
     (if f_writable (the_file f s) = 0 then Ok (- 1, s)
      else case f_type (the_file f s) of
        FD_PIPE \<Rightarrow> pipewrite (f_pipe (the_file f s)) addr n s
      | FD_DEVICE \<Rightarrow>
          let major = f_major (the_file f s) in
          if sint major < 0 \<or> int NDEV \<le> sint major \<or> \<not> devsw_write major then Ok (- 1, s)
          else Panic ''undefined''
      | FD_INODE \<Rightarrow>
          bind_res (filewrite_loop f addr (nat (sint n)) 0 s) (\<lambda>(i, s).
          Ok (if int i = sint n then n else - 1, s))
      | FD_NONE \<Rightarrow> Panic ''filewrite'')"

section \<open>Pipes as files\<close>

definition pipe_file :: "u64 \<Rightarrow> u8 \<Rightarrow> u8 \<Rightarrow> kfile \<Rightarrow> kfile" where
  "pipe_file pi rd wr x = x\<lparr>f_type := FD_PIPE, f_readable := rd, f_writable := wr, f_pipe := pi\<rparr>"

text \<open>\<open>None\<close> is the result -1.\<close>

definition pipealloc :: "'z file_state_scheme \<Rightarrow> ((nat \<times> nat) option \<times> 'z file_state_scheme) res" where
  "pipealloc s =
     bind_res (filealloc s) (\<lambda>(f0, s).
     case f0 of
       None \<Rightarrow> Ok (None, s)
     | Some f0 \<Rightarrow>
         bind_res (filealloc s) (\<lambda>(f1, s).
         case f1 of
           None \<Rightarrow> bind_res (fileclose f0 s) (\<lambda>s. Ok (None, s))
         | Some f1 \<Rightarrow>
             bind_res (alloc_page s) (\<lambda>(pi, s).
             if pi = 0
             then bind_res (fileclose f0 s) (\<lambda>s. bind_res (fileclose f1 s) (\<lambda>s. Ok (None, s)))
             else
               let s = pipe_init pi s;
                   s = upd_file f0 (pipe_file pi 1 0) s;
                   s = upd_file f1 (pipe_file pi 0 1) s
               in Ok (Some (f0, f1), s))))"

end
