(* ===== verification/Csr.thy ===== *)
theory Csr
  imports Riscv
begin

text \<open>
  The control and status registers of the hart (kernel/include/riscv.h) as a record, its
  accessors, and the machine-mode start of the kernel (kernel/start.c). A write stores the
  value as it is. The time register is read from outside: \<open>time_reads\<close> holds the values of the coming reads.
  \<open>sstatus\<close> and \<open>tp\<close> are with the locks, in the state of the CPU.
\<close>

section \<open>Registers\<close>

record csrs =
  mhartid :: u64
  mstatus :: u64
  mepc :: u64
  sip :: u64
  sie :: u64
  mie :: u64
  sepc :: u64
  medeleg :: u64
  mideleg :: u64
  stvec :: u64
  stimecmp :: u64
  menvcfg :: u64
  pmpcfg0 :: u64
  pmpaddr0 :: u64
  satp :: u64
  scause :: u64
  stval :: u64
  mcounteren :: u64
  time_reads :: "u64 list"

definition MSTATUS_MPP_MASK :: u64 where "MSTATUS_MPP_MASK = push_bit 11 3"
definition MSTATUS_MPP_Supervisor :: u64 where "MSTATUS_MPP_Supervisor = push_bit 11 1"
definition SIE_SEIE :: u64 where "SIE_SEIE = push_bit 9 1"
definition SIE_STIE :: u64 where "SIE_STIE = push_bit 5 1"
definition MIE_STIE :: u64 where "MIE_STIE = push_bit 5 1"

definition r_mhartid :: "csrs \<Rightarrow> u64" where "r_mhartid c = mhartid c"
definition r_mstatus :: "csrs \<Rightarrow> u64" where "r_mstatus c = mstatus c"
definition w_mstatus :: "u64 \<Rightarrow> csrs \<Rightarrow> csrs" where "w_mstatus x c = c\<lparr>mstatus := x\<rparr>"
definition w_mepc :: "u64 \<Rightarrow> csrs \<Rightarrow> csrs" where "w_mepc x c = c\<lparr>mepc := x\<rparr>"
definition r_sip :: "csrs \<Rightarrow> u64" where "r_sip c = sip c"
definition w_sip :: "u64 \<Rightarrow> csrs \<Rightarrow> csrs" where "w_sip x c = c\<lparr>sip := x\<rparr>"
definition r_sie :: "csrs \<Rightarrow> u64" where "r_sie c = sie c"
definition w_sie :: "u64 \<Rightarrow> csrs \<Rightarrow> csrs" where "w_sie x c = c\<lparr>sie := x\<rparr>"
definition r_mie :: "csrs \<Rightarrow> u64" where "r_mie c = mie c"
definition w_mie :: "u64 \<Rightarrow> csrs \<Rightarrow> csrs" where "w_mie x c = c\<lparr>mie := x\<rparr>"
definition w_sepc :: "u64 \<Rightarrow> csrs \<Rightarrow> csrs" where "w_sepc x c = c\<lparr>sepc := x\<rparr>"
definition r_sepc :: "csrs \<Rightarrow> u64" where "r_sepc c = sepc c"
definition r_medeleg :: "csrs \<Rightarrow> u64" where "r_medeleg c = medeleg c"
definition w_medeleg :: "u64 \<Rightarrow> csrs \<Rightarrow> csrs" where "w_medeleg x c = c\<lparr>medeleg := x\<rparr>"
definition r_mideleg :: "csrs \<Rightarrow> u64" where "r_mideleg c = mideleg c"
definition w_mideleg :: "u64 \<Rightarrow> csrs \<Rightarrow> csrs" where "w_mideleg x c = c\<lparr>mideleg := x\<rparr>"
definition w_stvec :: "u64 \<Rightarrow> csrs \<Rightarrow> csrs" where "w_stvec x c = c\<lparr>stvec := x\<rparr>"
definition r_stvec :: "csrs \<Rightarrow> u64" where "r_stvec c = stvec c"
definition r_stimecmp :: "csrs \<Rightarrow> u64" where "r_stimecmp c = stimecmp c"
definition w_stimecmp :: "u64 \<Rightarrow> csrs \<Rightarrow> csrs" where "w_stimecmp x c = c\<lparr>stimecmp := x\<rparr>"
definition r_menvcfg :: "csrs \<Rightarrow> u64" where "r_menvcfg c = menvcfg c"
definition w_menvcfg :: "u64 \<Rightarrow> csrs \<Rightarrow> csrs" where "w_menvcfg x c = c\<lparr>menvcfg := x\<rparr>"
definition w_pmpcfg0 :: "u64 \<Rightarrow> csrs \<Rightarrow> csrs" where "w_pmpcfg0 x c = c\<lparr>pmpcfg0 := x\<rparr>"
definition w_pmpaddr0 :: "u64 \<Rightarrow> csrs \<Rightarrow> csrs" where "w_pmpaddr0 x c = c\<lparr>pmpaddr0 := x\<rparr>"
definition w_satp :: "u64 \<Rightarrow> csrs \<Rightarrow> csrs" where "w_satp x c = c\<lparr>satp := x\<rparr>"
definition r_satp :: "csrs \<Rightarrow> u64" where "r_satp c = satp c"
definition r_scause :: "csrs \<Rightarrow> u64" where "r_scause c = scause c"
definition r_stval :: "csrs \<Rightarrow> u64" where "r_stval c = stval c"
definition w_mcounteren :: "u64 \<Rightarrow> csrs \<Rightarrow> csrs" where "w_mcounteren x c = c\<lparr>mcounteren := x\<rparr>"
definition r_mcounteren :: "csrs \<Rightarrow> u64" where "r_mcounteren c = mcounteren c"

definition r_time :: "csrs \<Rightarrow> (u64 \<times> csrs) res" where
  "r_time c = (case time_reads c of [] \<Rightarrow> Hang | t # ts \<Rightarrow> Ok (t, c\<lparr>time_reads := ts\<rparr>))"

lemmas csr_defs = r_mhartid_def r_mstatus_def w_mstatus_def w_mepc_def r_sip_def w_sip_def r_sie_def w_sie_def r_mie_def w_mie_def
  w_sepc_def r_sepc_def r_medeleg_def w_medeleg_def r_mideleg_def w_mideleg_def w_stvec_def r_stvec_def r_stimecmp_def
  w_stimecmp_def r_menvcfg_def w_menvcfg_def w_pmpcfg0_def w_pmpaddr0_def w_satp_def r_satp_def r_scause_def r_stval_def
  w_mcounteren_def r_mcounteren_def

section \<open>start.c\<close>

definition timerinit :: "csrs \<Rightarrow> csrs res" where
  "timerinit c =
     (let c = w_mie (r_mie c OR MIE_STIE) c;
          c = w_menvcfg (r_menvcfg c OR push_bit 63 1) c;
          c = w_mcounteren (r_mcounteren c OR 2) c
      in bind_res (r_time c) (\<lambda>(t, c). Ok (w_stimecmp (t + 1000000) c)))"

text \<open>
  \<open>start\<close> up to the \<open>mret\<close>: the registers, and the value of \<open>tp\<close>. \<open>main\<close> is the address of the function \<open>main\<close>.
\<close>

definition start :: "u64 \<Rightarrow> csrs \<Rightarrow> (u64 \<times> csrs) res" where
  "start main c =
     (let x = r_mstatus c;
          x = x AND NOT MSTATUS_MPP_MASK;
          x = x OR MSTATUS_MPP_Supervisor;
          c = w_mstatus x c;
          c = w_mepc main c;
          c = w_satp 0 c;
          c = w_medeleg 0xffff c;
          c = w_mideleg 0xffff c;
          c = w_sie (r_sie c OR SIE_SEIE OR SIE_STIE) c;
          c = w_pmpaddr0 0x3fffffffffffff c;
          c = w_pmpcfg0 0xf c
      in bind_res (timerinit c) (\<lambda>c.
         let id = ucast (r_mhartid c) :: i32 in
         Ok (scast id, c)))"

text \<open>The privilege \<open>mret\<close> switches to is the field \<open>MPP\<close> of \<open>mstatus\<close>.\<close>

definition mret_mode :: "csrs \<Rightarrow> u64" where
  "mret_mode c = drop_bit 11 (mstatus c AND MSTATUS_MPP_MASK)"

text \<open>
  After \<open>start\<close> the return from machine mode enters \<open>main\<close> in supervisor mode (1), without paging,
  with traps and interrupts delegated and the timer armed one million cycles ahead.
\<close>

lemma start_enters_supervisor:
  assumes "time_reads c = t # ts"
  shows "\<exists>c'. start main c = Ok (scast (ucast (mhartid c) :: i32), c') \<and> mret_mode c' = 1 \<and> mepc c' = main \<and> satp c' = 0
    \<and> medeleg c' = 0xffff \<and> mideleg c' = 0xffff \<and> stimecmp c' = t + 1000000"
proof -
  have "drop_bit 11 ((x AND NOT MSTATUS_MPP_MASK OR MSTATUS_MPP_Supervisor) AND MSTATUS_MPP_MASK) = 1" for x :: u64
  proof -
    have "(x AND NOT MSTATUS_MPP_MASK OR MSTATUS_MPP_Supervisor) AND MSTATUS_MPP_MASK = MSTATUS_MPP_Supervisor"
      by (simp add: bit.conj_disj_distrib2 and.assoc) (simp add: MSTATUS_MPP_MASK_def MSTATUS_MPP_Supervisor_def)
    then show ?thesis by (simp add: MSTATUS_MPP_Supervisor_def)
  qed
  then show ?thesis using assms by (simp add: start_def timerinit_def csr_defs r_time_def mret_mode_def)
qed

end
