(* ===== verification/Sysargs.thy ===== *)
theory Sysargs
  imports File Csr
begin

text \<open>
  The state of kernel/trap, and the functions of kernel/trap/syscall.c that fetch the arguments
  of a system call from the trapframe of the process. The result of a call goes back as a
  64-bit number, sign-extended from an \<open>int\<close>.
\<close>

section \<open>State\<close>

text \<open>
  \<open>ticks\<close>, \<open>test_mode\<close>, \<open>interrupt_cycles\<close> of trap.c, the control registers of the hart and the
  registers of the interrupt controller: what the claim register will deliver is an
  input, \<open>plic_regs\<close> holds the values written. \<open>ld_...\<close> are addresses the linker chooses.
\<close>

record trap_state = file_state +
  ticks :: u32
  test_mode :: i32
  interrupt_cycles :: u64
  csr :: csrs
  plic_claims :: "u32 list"
  plic_regs :: "u64 \<Rightarrow> u32"
  ld_kernelvector :: u64
  ld_uservector :: u64
  ld_usertrap :: u64

definition int_result :: "int \<Rightarrow> u64" where
  "int_result r = of_int r"

definition i32_result :: "i32 \<Rightarrow> u64" where
  "i32_result r = scast r"

section \<open>Arguments\<close>

definition tf_get :: "nat option \<Rightarrow> u64 \<Rightarrow> 'z trap_state_scheme \<Rightarrow> u64 res" where
  "tf_get r off s =
     deref r (\<lambda>p.
     if p_trapframe (the_proc p s) = 0 then Panic ''kerneltrap''
     else Ok (load64 (mem s) (p_trapframe (the_proc p s) + off)))"

definition tf_set :: "nat option \<Rightarrow> u64 \<Rightarrow> u64 \<Rightarrow> 'z trap_state_scheme \<Rightarrow> 'z trap_state_scheme res" where
  "tf_set r off v s =
     deref r (\<lambda>p.
     if p_trapframe (the_proc p s) = 0 then Panic ''kerneltrap''
     else Ok (s\<lparr>mem := store64 (mem s) (p_trapframe (the_proc p s) + off) v\<rparr>))"

definition argraw :: "nat \<Rightarrow> 'z trap_state_scheme \<Rightarrow> (u64 \<times> 'z trap_state_scheme) res" where
  "argraw n s =
     bind_res (myproc s) (\<lambda>(r, s).
     if n < 6 then bind_res (tf_get r (TF_a n) s) (\<lambda>v. Ok (v, s))
     else Panic ''argraw: invalid argument index'')"

definition argint :: "nat \<Rightarrow> 'z trap_state_scheme \<Rightarrow> (i32 \<times> 'z trap_state_scheme) res" where
  "argint n s = bind_res (argraw n s) (\<lambda>(v, s). Ok (ucast v, s))"

definition argaddr :: "nat \<Rightarrow> 'z trap_state_scheme \<Rightarrow> (u64 \<times> 'z trap_state_scheme) res" where
  "argaddr n s = argraw n s"

definition fetchaddr :: "u64 \<Rightarrow> u64 \<Rightarrow> 'z trap_state_scheme \<Rightarrow> (int \<times> 'z trap_state_scheme) res" where
  "fetchaddr addr ip s =
     bind_res (myproc s) (\<lambda>(r, s).
     deref r (\<lambda>p.
     if p_sz (the_proc p s) \<le> addr \<or> p_sz (the_proc p s) < addr + 8 then Ok (- 1, s)
     else
       bind_res (copyin (p_pagetable (the_proc p s)) ip addr 8 s) (\<lambda>(c, s).
       Ok (if c \<noteq> 0 then - 1 else 0, s))))"

definition fetchstr :: "u64 \<Rightarrow> u64 \<Rightarrow> u64 \<Rightarrow> 'z trap_state_scheme \<Rightarrow> (int \<times> 'z trap_state_scheme) res" where
  "fetchstr addr buf mx s =
     bind_res (myproc s) (\<lambda>(r, s).
     deref r (\<lambda>p.
     bind_res (copyinstr (p_pagetable (the_proc p s)) buf addr mx s) (\<lambda>(c, s).
     if c < 0 then Ok (- 1, s)
     else bind_res (or_hang (strlen (chars_at (mem s) buf))) (\<lambda>n. Ok (sint (of_nat n :: i32), s)))))"

definition argstr :: "nat \<Rightarrow> u64 \<Rightarrow> 'z trap_state_scheme \<Rightarrow> (int \<times> 'z trap_state_scheme) res" where
  "argstr n buf s = bind_res (argaddr n s) (\<lambda>(addr, s). fetchstr addr buf (of_nat MAXPATH) s)"

text \<open>\<open>argfd\<close> of sysfile.c and of sysproc.c: the descriptor and the file, or -1.\<close>


definition argfd :: "nat \<Rightarrow> 'z trap_state_scheme \<Rightarrow> ((nat \<times> nat) option \<times> 'z trap_state_scheme) res" where
  "argfd n s =
     bind_res (argint n s) (\<lambda>(fd, s).
     if sint fd < 0 \<or> int NOFILE \<le> sint fd then Ok (None, s)
     else
       bind_res (myproc s) (\<lambda>(r, s).
       deref r (\<lambda>p.
       case p_ofile (the_proc p s) ! nat (sint fd) of
         None \<Rightarrow> Ok (None, s)
       | Some f \<Rightarrow> Ok (Some (nat (sint fd), f), s))))"

end
