(* ===== verification/Sysfile.thy ===== *)
theory Sysfile
  imports Sysargs
begin

text \<open>
  kernel/trap/sysfile.c: the system calls on files. Their local buffers and the string literals they
  use are in kernel memory at \<open>k_var\<close>, under the name of the function and of the
  variable. The abbreviations \<open>dot\<close> and \<open>dotdot\<close> below stand for the addresses of the two literals.
\<close>

section \<open>Descriptors\<close>

definition free_fd :: "nat option list \<Rightarrow> nat option" where
  "free_fd ofile = find (\<lambda>fd. ofile ! fd = None) [0..<NOFILE]"

definition fdalloc :: "nat \<Rightarrow> 'z trap_state_scheme \<Rightarrow> (nat option \<times> 'z trap_state_scheme) res" where
  "fdalloc f s =
     bind_res (myproc s) (\<lambda>(r, s).
     deref r (\<lambda>p.
     case free_fd (p_ofile (the_proc p s)) of
       Some fd \<Rightarrow> Ok (Some fd, upd_proc p (p_ofile_update (\<lambda>fs. fs[fd := Some f])) s)
     | None \<Rightarrow> Ok (None, s)))"

section \<open>Links\<close>

definition add_nlink :: "nat \<Rightarrow> u16 \<Rightarrow> 'z trap_state_scheme \<Rightarrow> 'z trap_state_scheme" where
  "add_nlink i d s = upd_inode i (\<lambda>ip. ip\<lparr>i_nlink := i_nlink ip + d\<rparr>) s"

text \<open>The label \<open>bad\<close> of \<open>sys_link\<close>.\<close>

definition sys_link_bad :: "nat \<Rightarrow> 'z trap_state_scheme \<Rightarrow> (u64 \<times> 'z trap_state_scheme) res" where
  "sys_link_bad ip s =
     bind_res (ilock (Some ip) s) (\<lambda>s.
     bind_res (iupdate ip (add_nlink ip (- 1) s)) (\<lambda>s.
     bind_res (iunlockput ip s) (\<lambda>s.
     bind_res (end_op s) (\<lambda>s. Ok (- 1, s)))))"

text \<open>From the lookup of the new path's parent on.\<close>

definition sys_link_new :: "nat \<Rightarrow> 'z trap_state_scheme \<Rightarrow> (u64 \<times> 'z trap_state_scheme) res" where
  "sys_link_new ip s =
     bind_res (nameiparent (k_var s ''sys_link.new'') (k_var s ''sys_link.name'') s) (\<lambda>(r, s).
     case r of
       None \<Rightarrow> sys_link_bad ip s
     | Some dp \<Rightarrow>
         bind_res (ilock (Some dp) s) (\<lambda>s.
         bind_res
           (if i_dev (the_inode dp s) \<noteq> i_dev (the_inode ip s) then Ok (- 1, s)
            else dirlink dp (k_var s ''sys_link.name'') (i_inum (the_inode ip s)) s) (\<lambda>(c, s).
         if sint c < 0 then bind_res (iunlockput dp s) (sys_link_bad ip)
         else
           bind_res (iunlockput dp s) (\<lambda>s.
           bind_res (iput ip s) (\<lambda>s.
           bind_res (end_op s) (\<lambda>s. Ok (0, s)))))))"

definition sys_link :: "'z trap_state_scheme \<Rightarrow> (u64 \<times> 'z trap_state_scheme) res" where
  "sys_link s =
     bind_res (argstr 0 (k_var s ''sys_link.old'') s) (\<lambda>(n0, s).
     if n0 < 0 then Ok (- 1, s)
     else
     bind_res (argstr 1 (k_var s ''sys_link.new'') s) (\<lambda>(n1, s).
     if n1 < 0 then Ok (- 1, s)
     else
     bind_res (begin_op s) (\<lambda>s.
     bind_res (namei (k_var s ''sys_link.old'') s) (\<lambda>(r, s).
     case r of
       None \<Rightarrow> bind_res (end_op s) (\<lambda>s. Ok (- 1, s))
     | Some ip \<Rightarrow>
         bind_res (ilock (Some ip) s) (\<lambda>s.
         if i_type (the_inode ip s) = T_DIR
         then bind_res (iunlockput ip s) (\<lambda>s. bind_res (end_op s) (\<lambda>s. Ok (- 1, s)))
         else
           bind_res (iupdate ip (add_nlink ip 1 s)) (\<lambda>s.
           bind_res (iunlock (Some ip) s) (sys_link_new ip)))))))"

primrec isdirempty_loop :: "nat \<Rightarrow> u32 list \<Rightarrow> 'z trap_state_scheme \<Rightarrow> (bool \<times> 'z trap_state_scheme) res" where
  "isdirempty_loop dp [] s = Ok (True, s)"
| "isdirempty_loop dp (off # offs) s =
     (if 2 ^ 31 \<le> unat off then Panic ''undefined''
      else
        bind_res (readi dp False (k_var s ''isdirempty.de'') off (of_nat DIRENT_SIZE) s) (\<lambda>(r, s).
        if r \<noteq> of_nat DIRENT_SIZE then Panic ''isdirempty: readi''
        else if load16 (mem s) (k_var s ''isdirempty.de'') \<noteq> 0 then Ok (False, s)
        else isdirempty_loop dp offs s))"

definition isdirempty :: "nat \<Rightarrow> 'z trap_state_scheme \<Rightarrow> (bool \<times> 'z trap_state_scheme) res" where
  "isdirempty dp s = isdirempty_loop dp (dirent_offs 2 (i_size (the_inode dp s))) s"

abbreviation dot :: "'z trap_state_scheme \<Rightarrow> u64" where "dot s \<equiv> k_var s ''.''"
abbreviation dotdot :: "'z trap_state_scheme \<Rightarrow> u64" where "dotdot s \<equiv> k_var s ''..''"

definition sys_unlink_bad :: "nat \<Rightarrow> 'z trap_state_scheme \<Rightarrow> (u64 \<times> 'z trap_state_scheme) res" where
  "sys_unlink_bad dp s =
     bind_res (iunlockput dp s) (\<lambda>s.
     bind_res (end_op s) (\<lambda>s. Ok (- 1, s)))"

text \<open>The removal of the entry, with both inodes locked.\<close>

definition sys_unlink_entry :: "nat \<Rightarrow> nat \<Rightarrow> 'z trap_state_scheme \<Rightarrow> (u64 \<times> 'z trap_state_scheme) res" where
  "sys_unlink_entry dp ip s =
     (let de = k_var s ''sys_unlink.de'';
          s = s\<lparr>mem := memset (mem s) de 0 (of_nat DIRENT_SIZE)\<rparr>;
          off = load32 (mem s) (k_var s ''sys_unlink.off'')
      in bind_res (writei dp False de off (of_nat DIRENT_SIZE) s) (\<lambda>(r, s).
         if r \<noteq> of_nat DIRENT_SIZE then Panic ''unlink: writei''
         else
           bind_res (if i_type (the_inode ip s) = T_DIR then iupdate dp (add_nlink dp (- 1) s) else Ok s) (\<lambda>s.
           bind_res (iunlockput dp s) (\<lambda>s.
           bind_res (iupdate ip (add_nlink ip (- 1) s)) (\<lambda>s.
           bind_res (iunlockput ip s) (\<lambda>s.
           bind_res (end_op s) (\<lambda>s. Ok (0, s))))))))"

definition sys_unlink :: "'z trap_state_scheme \<Rightarrow> (u64 \<times> 'z trap_state_scheme) res" where
  "sys_unlink s =
     bind_res (argstr 0 (k_var s ''sys_unlink.path'') s) (\<lambda>(n, s).
     if n < 0 then Ok (- 1, s)
     else
     bind_res (begin_op s) (\<lambda>s.
     let name = k_var s ''sys_unlink.name'' in
     bind_res (nameiparent (k_var s ''sys_unlink.path'') name s) (\<lambda>(r, s).
     case r of
       None \<Rightarrow> bind_res (end_op s) (\<lambda>s. Ok (- 1, s))
     | Some dp \<Rightarrow>
         bind_res (ilock (Some dp) s) (\<lambda>s.
         if namecmp (mem s) name (dot s) = 0 \<or> namecmp (mem s) name (dotdot s) = 0 then sys_unlink_bad dp s
         else
           bind_res (dirlookup dp name (k_var s ''sys_unlink.off'') s) (\<lambda>(r, s).
           case r of
             None \<Rightarrow> sys_unlink_bad dp s
           | Some ip \<Rightarrow>
               bind_res (ilock (Some ip) s) (\<lambda>s.
               if sint (i_nlink (the_inode ip s)) < 1 then Panic ''unlink: nlink < 1''
               else
                 bind_res (if i_type (the_inode ip s) = T_DIR then isdirempty ip s else Ok (True, s)) (\<lambda>(e, s).
                 if \<not> e then bind_res (iunlockput ip s) (sys_unlink_bad dp)
                 else sys_unlink_entry dp ip s)))))))"

section \<open>Creating\<close>

definition create_fail :: "nat \<Rightarrow> nat \<Rightarrow> 'z trap_state_scheme \<Rightarrow> (nat option \<times> 'z trap_state_scheme) res" where
  "create_fail dp ip s =
     bind_res (iupdate ip (upd_inode ip (i_nlink_update (\<lambda>_. 0)) s)) (\<lambda>s.
     bind_res (iunlockput ip s) (\<lambda>s.
     bind_res (iunlockput dp s) (\<lambda>s. Ok (None, s))))"

text \<open>The entries of a new directory, then the entry in the parent, with \<open>ip\<close> and \<open>dp\<close> locked.\<close>

definition create_links :: "nat \<Rightarrow> nat \<Rightarrow> u16 \<Rightarrow> 'z trap_state_scheme \<Rightarrow> (nat option \<times> 'z trap_state_scheme) res" where
  "create_links dp ip typ s =
     bind_res
       (if typ = T_DIR
        then
          bind_res (dirlink ip (dot s) (i_inum (the_inode ip s)) s) (\<lambda>(c, s).
          if sint c < 0 then Ok (False, s)
          else
            bind_res (dirlink ip (dotdot s) (i_inum (the_inode dp s)) s) (\<lambda>(c, s).
            Ok (\<not> sint c < 0, s)))
        else Ok (True, s)) (\<lambda>(fine, s).
     if \<not> fine then create_fail dp ip s
     else
       bind_res (dirlink dp (k_var s ''create.name'') (i_inum (the_inode ip s)) s) (\<lambda>(c, s).
       if sint c < 0 then create_fail dp ip s
       else
         bind_res (if typ = T_DIR then iupdate dp (add_nlink dp 1 s) else Ok s) (\<lambda>s.
         bind_res (iunlockput dp s) (\<lambda>s. Ok (Some ip, s)))))"

definition create :: "u64 \<Rightarrow> u16 \<Rightarrow> u16 \<Rightarrow> u16 \<Rightarrow> 'z trap_state_scheme \<Rightarrow> (nat option \<times> 'z trap_state_scheme) res" where
  "create path typ major minor s =
     bind_res (nameiparent path (k_var s ''create.name'') s) (\<lambda>(r, s).
     case r of
       None \<Rightarrow> Ok (None, s)
     | Some dp \<Rightarrow>
         bind_res (ilock (Some dp) s) (\<lambda>s.
         bind_res (dirlookup dp (k_var s ''create.name'') 0 s) (\<lambda>(r, s).
         case r of
           Some ip \<Rightarrow>
             bind_res (iunlockput dp s) (\<lambda>s.
             bind_res (ilock (Some ip) s) (\<lambda>s.
             if typ = T_FILE \<and> (i_type (the_inode ip s) = T_FILE \<or> i_type (the_inode ip s) = T_DEVICE)
             then Ok (Some ip, s)
             else bind_res (iunlockput ip s) (\<lambda>s. Ok (None, s))))
         | None \<Rightarrow>
             bind_res (ialloc (i_dev (the_inode dp s)) typ s) (\<lambda>(r, s).
             case r of
               None \<Rightarrow> bind_res (iunlockput dp s) (\<lambda>s. Ok (None, s))
             | Some ip \<Rightarrow>
                 bind_res (ilock (Some ip) s) (\<lambda>s.
                 let s = upd_inode ip (\<lambda>x. x\<lparr>i_major := major, i_minor := minor, i_nlink := 1\<rparr>) s in
                 bind_res (iupdate ip s) (create_links dp ip typ))))))"

section \<open>Opening\<close>

definition O_RDONLY :: i32 where "O_RDONLY = 0"
definition O_WRONLY :: i32 where "O_WRONLY = 1"
definition O_RDWR :: i32 where "O_RDWR = 2"
definition O_CREATE :: i32 where "O_CREATE = 0x200"
definition O_TRUNC :: i32 where "O_TRUNC = 0x400"

text \<open>The inode to open, locked, or \<open>None\<close> for the returns of -1.\<close>

definition sys_open_inode :: "i32 \<Rightarrow> 'z trap_state_scheme \<Rightarrow> (nat option \<times> 'z trap_state_scheme) res" where
  "sys_open_inode omode s =
     (let path = k_var s ''sys_open.path'' in
      if omode AND O_CREATE \<noteq> 0 then create path T_FILE 0 0 s
      else
        bind_res (namei path s) (\<lambda>(r, s).
        case r of
          None \<Rightarrow> Ok (None, s)
        | Some ip \<Rightarrow>
            bind_res (ilock (Some ip) s) (\<lambda>s.
            if i_type (the_inode ip s) = T_DIR \<and> omode \<noteq> O_RDONLY
            then bind_res (iunlockput ip s) (\<lambda>s. Ok (None, s))
            else Ok (Some ip, s))))"

definition open_file :: "nat \<Rightarrow> i32 \<Rightarrow> inode \<Rightarrow> kfile \<Rightarrow> kfile" where
  "open_file ip omode di x =
     (let x = (if i_type di = T_DEVICE then x\<lparr>f_type := FD_DEVICE, f_major := i_major di\<rparr>
               else x\<lparr>f_type := FD_INODE, f_off := 0\<rparr>)
      in x\<lparr>f_ip := Some ip,
           f_readable := (if omode AND O_WRONLY = 0 then 1 else 0),
           f_writable := (if omode AND O_WRONLY \<noteq> 0 \<or> omode AND O_RDWR \<noteq> 0 then 1 else 0)\<rparr>)"

definition sys_open_file :: "i32 \<Rightarrow> nat \<Rightarrow> 'z trap_state_scheme \<Rightarrow> (u64 \<times> 'z trap_state_scheme) res" where
  "sys_open_file omode ip s =
     (let bad = (\<lambda>s. bind_res (iunlockput ip s) (\<lambda>s. bind_res (end_op s) (\<lambda>s. Ok (- 1, s)))) in
      if i_type (the_inode ip s) = T_DEVICE
         \<and> (sint (i_major (the_inode ip s)) < 0 \<or> int NDEV \<le> sint (i_major (the_inode ip s)))
      then bad s
      else
        bind_res (filealloc s) (\<lambda>(f, s).
        case f of
          None \<Rightarrow> bad s
        | Some f \<Rightarrow>
            bind_res (fdalloc f s) (\<lambda>(fd, s).
            case fd of
              None \<Rightarrow> bind_res (fileclose f s) bad
            | Some fd \<Rightarrow>
                let s = upd_file f (open_file ip omode (the_inode ip s)) s in
                bind_res (if omode AND O_TRUNC \<noteq> 0 \<and> i_type (the_inode ip s) = T_FILE then itrunc ip s else Ok s) (\<lambda>s.
                bind_res (iunlock (Some ip) s) (\<lambda>s.
                bind_res (end_op s) (\<lambda>s. Ok (of_nat fd, s)))))))"

definition sys_open :: "'z trap_state_scheme \<Rightarrow> (u64 \<times> 'z trap_state_scheme) res" where
  "sys_open s =
     bind_res (argint 1 s) (\<lambda>(omode, s).
     bind_res (argstr 0 (k_var s ''sys_open.path'') s) (\<lambda>(n, s).
     if n < 0 then Ok (- 1, s)
     else
       bind_res (begin_op s) (\<lambda>s.
       bind_res (sys_open_inode omode s) (\<lambda>(r, s).
       case r of
         None \<Rightarrow> bind_res (end_op s) (\<lambda>s. Ok (- 1, s))
       | Some ip \<Rightarrow> sys_open_file omode ip s))))"

text \<open>What \<open>sys_mkdir\<close> and \<open>sys_mknod\<close> do after \<open>create\<close>.\<close>

definition created :: "nat option \<Rightarrow> 'z trap_state_scheme \<Rightarrow> (u64 \<times> 'z trap_state_scheme) res" where
  "created r s =
     (case r of
        None \<Rightarrow> bind_res (end_op s) (\<lambda>s. Ok (- 1, s))
      | Some ip \<Rightarrow> bind_res (iunlockput ip s) (\<lambda>s. bind_res (end_op s) (\<lambda>s. Ok (0, s))))"

definition sys_mkdir :: "'z trap_state_scheme \<Rightarrow> (u64 \<times> 'z trap_state_scheme) res" where
  "sys_mkdir s =
     bind_res (begin_op s) (\<lambda>s.
     bind_res (argstr 0 (k_var s ''sys_mkdir.path'') s) (\<lambda>(n, s).
     if n < 0 then created None s
     else bind_res (create (k_var s ''sys_mkdir.path'') T_DIR 0 0 s) (\<lambda>(r, s). created r s)))"

definition sys_mknod :: "'z trap_state_scheme \<Rightarrow> (u64 \<times> 'z trap_state_scheme) res" where
  "sys_mknod s =
     bind_res (begin_op s) (\<lambda>s.
     bind_res (argint 1 s) (\<lambda>(major, s).
     bind_res (argint 2 s) (\<lambda>(minor, s).
     bind_res (argstr 0 (k_var s ''sys_mknod.path'') s) (\<lambda>(n, s).
     if n < 0 then created None s
     else bind_res (create (k_var s ''sys_mknod.path'') T_DEVICE (ucast major) (ucast minor) s) (\<lambda>(r, s). created r s)))))"

definition sys_chdir :: "'z trap_state_scheme \<Rightarrow> (u64 \<times> 'z trap_state_scheme) res" where
  "sys_chdir s =
     bind_res (myproc s) (\<lambda>(p, s).
     bind_res (begin_op s) (\<lambda>s.
     bind_res (argstr 0 (k_var s ''sys_chdir.path'') s) (\<lambda>(n, s).
     bind_res (if n < 0 then Ok (None, s) else namei (k_var s ''sys_chdir.path'') s) (\<lambda>(r, s).
     case r of
       None \<Rightarrow> bind_res (end_op s) (\<lambda>s. Ok (- 1, s))
     | Some ip \<Rightarrow>
         bind_res (ilock (Some ip) s) (\<lambda>s.
         if i_type (the_inode ip s) \<noteq> T_DIR
         then bind_res (iunlockput ip s) (\<lambda>s. bind_res (end_op s) (\<lambda>s. Ok (- 1, s)))
         else
           bind_res (iunlock (Some ip) s) (\<lambda>s.
           deref p (\<lambda>p.
           bind_res (deref (p_cwd (the_proc p s)) (\<lambda>i. iput i s)) (\<lambda>s.
           bind_res (end_op s) (\<lambda>s.
           Ok (0, upd_proc p (p_cwd_update (\<lambda>_. Some ip)) s))))))))))"

section \<open>Descriptors of open files\<close>

definition sys_dup :: "'z trap_state_scheme \<Rightarrow> (u64 \<times> 'z trap_state_scheme) res" where
  "sys_dup s =
     bind_res (argfd 0 s) (\<lambda>(r, s).
     case r of
       None \<Rightarrow> Ok (- 1, s)
     | Some (fd0, f) \<Rightarrow>
         bind_res (fdalloc f s) (\<lambda>(fd, s).
         case fd of
           None \<Rightarrow> Ok (- 1, s)
         | Some fd \<Rightarrow> bind_res (filedup f s) (\<lambda>(f, s). Ok (of_nat fd, s))))"

definition clear_fd :: "nat option \<Rightarrow> nat \<Rightarrow> 'z trap_state_scheme \<Rightarrow> 'z trap_state_scheme res" where
  "clear_fd r fd s = deref r (\<lambda>p. Ok (upd_proc p (p_ofile_update (\<lambda>fs. fs[fd := None])) s))"

definition sys_close :: "'z trap_state_scheme \<Rightarrow> (u64 \<times> 'z trap_state_scheme) res" where
  "sys_close s =
     bind_res (argfd 0 s) (\<lambda>(r, s).
     case r of
       None \<Rightarrow> Ok (- 1, s)
     | Some (fd, f) \<Rightarrow>
         bind_res (myproc s) (\<lambda>(p, s).
         bind_res (clear_fd p fd s) (\<lambda>s.
         bind_res (fileclose f s) (\<lambda>s. Ok (0, s)))))"

definition sys_fstat :: "'z trap_state_scheme \<Rightarrow> (u64 \<times> 'z trap_state_scheme) res" where
  "sys_fstat s =
     bind_res (argaddr 1 s) (\<lambda>(st, s).
     bind_res (argfd 0 s) (\<lambda>(r, s).
     case r of
       None \<Rightarrow> Ok (- 1, s)
     | Some (fd, f) \<Rightarrow> bind_res (filestat f st s) (\<lambda>(r, s). Ok (i32_result r, s))))"

definition sys_pipe_undo :: "nat \<Rightarrow> nat \<Rightarrow> 'z trap_state_scheme \<Rightarrow> (u64 \<times> 'z trap_state_scheme) res" where
  "sys_pipe_undo rfile wfile s =
     bind_res (fileclose rfile s) (\<lambda>s.
     bind_res (fileclose wfile s) (\<lambda>s. Ok (- 1, s)))"

text \<open>The copies of the two descriptors to the user.\<close>

definition sys_pipe_copy :: "nat option \<Rightarrow> u64 \<Rightarrow> nat \<Rightarrow> nat \<Rightarrow> 'z trap_state_scheme \<Rightarrow> (bool \<times> 'z trap_state_scheme) res" where
  "sys_pipe_copy r fdarray fd0 fd1 s =
     deref r (\<lambda>p.
     let a0 = k_var s ''sys_pipe.fd0'';
         a1 = k_var s ''sys_pipe.fd1'';
         s = s\<lparr>mem := store32 (store32 (mem s) a0 (of_nat fd0)) a1 (of_nat fd1)\<rparr>
     in bind_res (copyout (p_pagetable (the_proc p s)) fdarray a0 4 s) (\<lambda>(c, s).
        if c < 0 then Ok (False, s)
        else
          bind_res (copyout (p_pagetable (the_proc p s)) (fdarray + 4) a1 4 s) (\<lambda>(c, s).
          Ok (\<not> c < 0, s))))"

definition sys_pipe :: "'z trap_state_scheme \<Rightarrow> (u64 \<times> 'z trap_state_scheme) res" where
  "sys_pipe s =
     bind_res (myproc s) (\<lambda>(r, s).
     bind_res (argaddr 0 s) (\<lambda>(fdarray, s).
     bind_res (pipealloc s) (\<lambda>(fs, s).
     case fs of
       None \<Rightarrow> Ok (- 1, s)
     | Some (rfile, wfile) \<Rightarrow>
         bind_res (fdalloc rfile s) (\<lambda>(fd0, s).
         case fd0 of
           None \<Rightarrow> sys_pipe_undo rfile wfile s
         | Some fd0 \<Rightarrow>
             bind_res (fdalloc wfile s) (\<lambda>(fd1, s).
             case fd1 of
               None \<Rightarrow> bind_res (clear_fd r fd0 s) (sys_pipe_undo rfile wfile)
             | Some fd1 \<Rightarrow>
                 bind_res (sys_pipe_copy r fdarray fd0 fd1 s) (\<lambda>(fine, s).
                 if fine then Ok (0, s)
                 else
                   bind_res (clear_fd r fd0 s) (\<lambda>s.
                   bind_res (clear_fd r fd1 s) (sys_pipe_undo rfile wfile))))))))"

end
