(* ===== verification/Sysproc.thy ===== *)
theory Sysproc
  imports Sysargs
begin

text \<open>
  kernel/trap/sysproc.c: the system calls on processes and memory, and \<open>read\<close> and \<open>write\<close>. The calls
  that switch away (\<open>exit\<close>, \<open>wait\<close>, \<open>sleep\<close>) are cut there, as in the theory of processes.
\<close>

definition sys_fork :: "'z trap_state_scheme \<Rightarrow> (u64 \<times> 'z trap_state_scheme) res" where
  "sys_fork s = bind_res (fork s) (\<lambda>(pid, s). Ok (i32_result pid, s))"

text \<open>\<open>exit\<close> does not return: the call ends in the switch to the scheduler.\<close>

definition sys_exit :: "'z trap_state_scheme \<Rightarrow> (u32 \<times> 'z trap_state_scheme) res" where
  "sys_exit s = bind_res (argint 0 s) (\<lambda>(n, s). exit_out n s)"

definition sys_wait :: "'z trap_state_scheme \<Rightarrow> (u64 wait_result \<times> 'z trap_state_scheme) res" where
  "sys_wait s =
     bind_res (argaddr 0 s) (\<lambda>(p, s).
     bind_res (wait_start p s) (\<lambda>(w, s).
     Ok (map_wait_result i32_result w, s)))"

definition sys_getpid :: "'z trap_state_scheme \<Rightarrow> (u64 \<times> 'z trap_state_scheme) res" where
  "sys_getpid s =
     bind_res (myproc s) (\<lambda>(r, s). deref r (\<lambda>p. Ok (i32_result (p_pid (the_proc p s)), s)))"

definition sys_kill :: "'z trap_state_scheme \<Rightarrow> (u64 \<times> 'z trap_state_scheme) res" where
  "sys_kill s =
     bind_res (argint 0 s) (\<lambda>(pid, s).
     bind_res (kill pid s) (\<lambda>(r, s). Ok (int_result r, s)))"

text \<open>The loop of \<open>sys_sleep\<close>, entered with \<open>tickslock\<close> held.\<close>

definition sys_sleep_loop :: "i32 \<Rightarrow> u32 \<Rightarrow> 'z trap_state_scheme \<Rightarrow> (u64 wait_result \<times> 'z trap_state_scheme) res" where
  "sys_sleep_loop n ticks0 s =
     (if ticks s - ticks0 < n
      then
        bind_res (myproc s) (\<lambda>(r, s).
        deref r (\<lambda>p.
        bind_res (killed p s) (\<lambda>(k, s).
        if k \<noteq> 0 then bind_res (krelease L_ticks s) (\<lambda>s. Ok (Wait_returns (- 1), s))
        else bind_res (sleep_out (Some C_ticks) L_ticks s) (\<lambda>(ie, s). Ok (Wait_sleeps ie, s)))))
      else bind_res (krelease L_ticks s) (\<lambda>s. Ok (Wait_returns 0, s)))"

definition sys_sleep :: "'z trap_state_scheme \<Rightarrow> (u64 wait_result \<times> 'z trap_state_scheme) res" where
  "sys_sleep s =
     bind_res (argint 0 s) (\<lambda>(n, s).
     let n = (if sint n < 0 then 0 else n) in
     bind_res (kacquire L_ticks s) (\<lambda>s.
     sys_sleep_loop n (ticks s) s))"

definition sys_sleep_resume :: "nat \<Rightarrow> i32 \<Rightarrow> u32 \<Rightarrow> u32 \<Rightarrow> 'z trap_state_scheme \<Rightarrow> (u64 wait_result \<times> 'z trap_state_scheme) res" where
  "sys_sleep_resume p n ticks0 ie s =
     bind_res (sleep_in p L_ticks ie s) (sys_sleep_loop n ticks0)"

definition sys_sbrk :: "'z trap_state_scheme \<Rightarrow> (u64 \<times> 'z trap_state_scheme) res" where
  "sys_sbrk s =
     bind_res (argint 0 s) (\<lambda>(n, s).
     bind_res (myproc s) (\<lambda>(r, s).
     deref r (\<lambda>p.
     let addr = p_sz (the_proc p s) in
     bind_res (growproc n s) (\<lambda>(c, s).
     Ok (if c < 0 then - 1 else addr, s)))))"

definition sys_uptime :: "'z trap_state_scheme \<Rightarrow> (u64 \<times> 'z trap_state_scheme) res" where
  "sys_uptime s =
     bind_res (kacquire L_ticks s) (\<lambda>s.
     let xticks = ticks s in
     bind_res (krelease L_ticks s) (\<lambda>s. Ok (ucast xticks, s)))"

definition sys_write :: "'z trap_state_scheme \<Rightarrow> (u64 \<times> 'z trap_state_scheme) res" where
  "sys_write s =
     bind_res (argaddr 1 s) (\<lambda>(p, s).
     bind_res (argint 2 s) (\<lambda>(n, s).
     bind_res (argfd 0 s) (\<lambda>(r, s).
     case r of
       None \<Rightarrow> Ok (- 1, s)
     | Some (fd, f) \<Rightarrow> bind_res (filewrite f p n s) (\<lambda>(r, s). Ok (i32_result r, s)))))"

definition sys_read :: "'z trap_state_scheme \<Rightarrow> (u64 \<times> 'z trap_state_scheme) res" where
  "sys_read s =
     bind_res (argaddr 1 s) (\<lambda>(p, s).
     bind_res (argint 2 s) (\<lambda>(n, s).
     bind_res (argfd 0 s) (\<lambda>(r, s).
     case r of
       None \<Rightarrow> Ok (- 1, s)
     | Some (fd, f) \<Rightarrow> bind_res (fileread f p n s) (\<lambda>(r, s). Ok (i32_result r, s)))))"

text \<open>What \<open>sys_hello\<close> prints is left out.\<close>

definition sys_hello :: "'z trap_state_scheme \<Rightarrow> (u64 \<times> 'z trap_state_scheme) res" where
  "sys_hello s =
     bind_res (myproc s) (\<lambda>(r, s). deref r (\<lambda>p. Ok (i32_result (p_pid (the_proc p s)), s)))"

end
