(* ===== verification/Trap.thy ===== *)
theory Trap
  imports Sysfile Sysproc
begin

text \<open>
  The dispatch of system calls (kernel/trap/syscall.c), traps from user mode and from the kernel
  (kernel/trap/trap.c) and the interrupt controller (kernel/driver/plic.c). What these functions print is
  left out. A trap handler is cut where the process gives up the CPU: \<open>Wait_sleeps\<close>, with the
  part that follows as a function of its own.
\<close>

section \<open>System calls\<close>

definition returns :: "('s \<Rightarrow> ('a \<times> 's) res) \<Rightarrow> 's \<Rightarrow> ('a wait_result \<times> 's) res" where
  "returns f s = bind_res (f s) (\<lambda>(v, s). Ok (Wait_returns v, s))"

definition leaves :: "('s \<Rightarrow> (u32 \<times> 's) res) \<Rightarrow> 's \<Rightarrow> ('a wait_result \<times> 's) res" where
  "leaves f s = bind_res (f s) (\<lambda>(ie, s). Ok (Wait_sleeps ie, s))"

text \<open>The table \<open>syscalls[]\<close>; entry 0 is null.\<close>

definition syscalls :: "('z trap_state_scheme \<Rightarrow> (u64 wait_result \<times> 'z trap_state_scheme) res) option list" where
  "syscalls =
     [None, Some (returns sys_fork), Some (leaves sys_exit), Some sys_wait, Some (returns sys_getpid), Some (returns sys_kill),
      Some sys_sleep, Some (returns sys_sbrk), Some (returns sys_uptime), Some (returns sys_write), Some (returns sys_read),
      Some (returns sys_open), Some (returns sys_close), Some (returns sys_fstat), Some (returns sys_pipe), Some (returns sys_dup),
      Some (returns sys_chdir), Some (returns sys_mkdir), Some (returns sys_mknod), Some (returns sys_unlink), Some (returns sys_link)]"

definition syscall :: "'z trap_state_scheme \<Rightarrow> (unit wait_result \<times> 'z trap_state_scheme) res" where
  "syscall s =
     bind_res (myproc s) (\<lambda>(r, s).
     bind_res (tf_get r (TF_a 7) s) (\<lambda>a7.
     let num = ucast a7 :: i32;
         entry = (if 0 < sint num \<and> nat (sint num) < length (syscalls :: ('z trap_state_scheme \<Rightarrow> _) option list)
                  then syscalls ! nat (sint num) else None)
     in case entry of
          None \<Rightarrow> bind_res (tf_set r (TF_a 0) (- 1) s) (\<lambda>s. Ok (Wait_returns (), s))
        | Some f \<Rightarrow>
            bind_res (f s) (\<lambda>(w, s).
            case w of
              Wait_returns v \<Rightarrow> bind_res (tf_set r (TF_a 0) v s) (\<lambda>s. Ok (Wait_returns (), s))
            | Wait_sleeps ie \<Rightarrow> Ok (Wait_sleeps ie, s))))"

section \<open>The interrupt controller\<close>

definition UART0_IRQ :: u32 where "UART0_IRQ = 10"
definition VIRTIO0_IRQ :: u32 where "VIRTIO0_IRQ = 1"

definition PLIC_SENABLE :: "u64 \<Rightarrow> u64" where "PLIC_SENABLE hart = PLIC + 0x2080 + hart * 0x100"
definition PLIC_SPRIORITY :: "u64 \<Rightarrow> u64" where "PLIC_SPRIORITY hart = PLIC + 0x201000 + hart * 0x2000"
definition PLIC_SCLAIM :: "u64 \<Rightarrow> u64" where "PLIC_SCLAIM hart = PLIC + 0x201004 + hart * 0x2000"

definition plic_set :: "u64 \<Rightarrow> u32 \<Rightarrow> 'z trap_state_scheme \<Rightarrow> 'z trap_state_scheme" where
  "plic_set a v s = s\<lparr>plic_regs := (plic_regs s)(a := v)\<rparr>"

definition plicinit :: "'z trap_state_scheme \<Rightarrow> 'z trap_state_scheme" where
  "plicinit s = plic_set (PLIC + ucast VIRTIO0_IRQ * 4) 1 (plic_set (PLIC + ucast UART0_IRQ * 4) 1 s)"

definition plicinithart :: "'z trap_state_scheme \<Rightarrow> 'z trap_state_scheme" where
  "plicinithart s =
     (let hart = scast (cpuid (sy s)) in
      plic_set (PLIC_SPRIORITY hart) 0
        (plic_set (PLIC_SENABLE hart) (push_bit (unat UART0_IRQ) 1 OR push_bit (unat VIRTIO0_IRQ) 1) s))"

definition plic_claim :: "'z trap_state_scheme \<Rightarrow> (i32 \<times> 'z trap_state_scheme) res" where
  "plic_claim s = (case plic_claims s of [] \<Rightarrow> Hang | irq # irqs \<Rightarrow> Ok (irq, s\<lparr>plic_claims := irqs\<rparr>))"

definition plic_complete :: "i32 \<Rightarrow> 'z trap_state_scheme \<Rightarrow> 'z trap_state_scheme" where
  "plic_complete irq s = plic_set (PLIC_SCLAIM (scast (cpuid (sy s)))) irq s"

section \<open>Interrupts\<close>

definition trapinit :: "'z trap_state_scheme \<Rightarrow> 'z trap_state_scheme" where
  "trapinit s = s\<lparr>ticks := 0, sy := initlock L_ticks ''time'' (sy s)\<rparr>"

definition trapinithart :: "'z trap_state_scheme \<Rightarrow> 'z trap_state_scheme" where
  "trapinithart s = s\<lparr>csr := w_stvec (ld_kernelvector s) (csr s)\<rparr>"

text \<open>vm.c: \<open>kernel_pagetable\<close> is what \<open>kvm_init\<close> returned; there is no translation cache here for the fences to empty.\<close>

definition kvm_inithart :: "u64 \<Rightarrow> 'z trap_state_scheme \<Rightarrow> 'z trap_state_scheme" where
  "kvm_inithart kernel_pagetable s = s\<lparr>csr := w_satp (MAKE_SATP kernel_pagetable) (csr s)\<rparr>"

definition read_time :: "'z trap_state_scheme \<Rightarrow> (u64 \<times> 'z trap_state_scheme) res" where
  "read_time s = bind_res (r_time (csr s)) (\<lambda>(t, c). Ok (t, s\<lparr>csr := c\<rparr>))"

definition clockintr :: "'z trap_state_scheme \<Rightarrow> 'z trap_state_scheme res" where
  "clockintr s =
     bind_res (read_time s) (\<lambda>(start, s).
     bind_res (kacquire L_ticks s) (\<lambda>s.
     let s = s\<lparr>ticks := ticks s + 1\<rparr> in
     bind_res (wakeup (Some C_ticks) s) (\<lambda>s.
     bind_res (krelease L_ticks s) (\<lambda>s.
     bind_res (read_time s) (\<lambda>(t, s).
     let s = s\<lparr>csr := w_stimecmp (t + 1000000) (csr s)\<rparr> in
     bind_res (read_time s) (\<lambda>(t, s).
     Ok (s\<lparr>interrupt_cycles := interrupt_cycles s + (t - start)\<rparr>)))))))"

text \<open>The handlers of the UART and of the disk are commented out in the source.\<close>

definition devintr :: "'z trap_state_scheme \<Rightarrow> (nat \<times> 'z trap_state_scheme) res" where
  "devintr s =
     (let cause = r_scause (csr s) in
      if cause = 0x8000000000000009
      then bind_res (plic_claim s) (\<lambda>(irq, s). Ok (1, if irq \<noteq> 0 then plic_complete irq s else s))
      else if cause = 0x8000000000000005 then bind_res (clockintr s) (\<lambda>s. Ok (2, s))
      else Ok (0, s))"

definition get_ticks :: "'z trap_state_scheme \<Rightarrow> (u64 \<times> 'z trap_state_scheme) res" where
  "get_ticks s =
     bind_res (kacquire L_ticks s) (\<lambda>s.
     let t = ticks s in
     bind_res (krelease L_ticks s) (\<lambda>s. Ok (ucast t, s)))"

section \<open>Traps from user mode\<close>

definition usertrapret :: "'z trap_state_scheme \<Rightarrow> 'z trap_state_scheme res" where
  "usertrapret s =
     bind_res (myproc s) (\<lambda>(r, s).
     let s = s\<lparr>sy := intr_off (sy s)\<rparr>;
         s = s\<lparr>csr := w_stvec (TRAMPOLINE + (ld_uservector s - ld_trampoline s)) (csr s)\<rparr>
     in
     bind_res (tf_set r TF_kernel_satp (r_satp (csr s)) s) (\<lambda>s.
     deref r (\<lambda>p.
     bind_res (tf_set r TF_kernel_sp (p_kstack (the_proc p s) + PAGESIZE) s) (\<lambda>s.
     bind_res (tf_set r TF_kernel_trap (ld_usertrap s) s) (\<lambda>s.
     bind_res (tf_set r TF_kernel_hartid (tp (sy s)) s) (\<lambda>s.
     let x = sstatus (sy s);
         x = x AND NOT SSTATUS_SPP;
         x = x OR SSTATUS_SPIE;
         s = s\<lparr>sy := (sy s)\<lparr>sstatus := x\<rparr>\<rparr>
     in
     bind_res (tf_get r TF_epc s) (\<lambda>epc.
     Ok (s\<lparr>csr := w_sepc epc (csr s)\<rparr>))))))))"

text \<open>The end of \<open>usertrap\<close>: the value of \<open>satp\<close> for the trampoline.\<close>

definition usertrap_end :: "nat option \<Rightarrow> 'z trap_state_scheme \<Rightarrow> (u64 wait_result \<times> 'z trap_state_scheme) res" where
  "usertrap_end r s =
     bind_res (usertrapret s) (\<lambda>s.
     deref r (\<lambda>p. Ok (Wait_returns (MAKE_SATP (p_pagetable (the_proc p s))), s)))"

definition usertrap_yield :: "nat option \<Rightarrow> nat \<Rightarrow> 'z trap_state_scheme \<Rightarrow> (u64 wait_result \<times> 'z trap_state_scheme) res" where
  "usertrap_yield r which_dev s =
     (if which_dev = 2 then bind_res (yield_out s) (\<lambda>(ie, s). Ok (Wait_sleeps ie, s))
      else usertrap_end r s)"

text \<open>The system call of a trap with cause 8.\<close>

definition usertrap_syscall :: "nat option \<Rightarrow> 'z trap_state_scheme \<Rightarrow> (u64 wait_result \<times> 'z trap_state_scheme) res" where
  "usertrap_syscall r s =
     deref r (\<lambda>p.
     bind_res (killed p s) (\<lambda>(k, s).
     if k \<noteq> 0 then leaves (exit_out (- 1)) s
     else
       bind_res (tf_get r TF_epc s) (\<lambda>epc.
       bind_res (tf_set r TF_epc (epc + 4) s) (\<lambda>s.
       let s = s\<lparr>sy := intr_on (sy s)\<rparr> in
       bind_res (syscall s) (\<lambda>(w, s).
       case w of
         Wait_returns u \<Rightarrow> usertrap_yield r 0 s
       | Wait_sleeps ie \<Rightarrow> Ok (Wait_sleeps ie, s))))))"

definition usertrap :: "'z trap_state_scheme \<Rightarrow> (u64 wait_result \<times> 'z trap_state_scheme) res" where
  "usertrap s =
     (if sstatus (sy s) AND SSTATUS_SPP \<noteq> 0 then Panic ''usertrap: not from user mode''
      else
        let s = s\<lparr>csr := w_stvec (ld_kernelvector s) (csr s)\<rparr> in
        bind_res (myproc s) (\<lambda>(r, s).
        bind_res (tf_set r TF_epc (r_sepc (csr s)) s) (\<lambda>s.
        let cause = r_scause (csr s) in
        if cause = 8 then usertrap_syscall r s
        else
          bind_res (devintr s) (\<lambda>(which_dev, s).
          if which_dev \<noteq> 0 then usertrap_yield r which_dev s
          else if cause = 15 \<or> cause = 13
          then deref r (\<lambda>p.
               bind_res (vmfault (p_pagetable (the_proc p s)) (r_stval (csr s)) s) (\<lambda>(v, s).
               Panic ''page fault''))
          else Panic ''usertrap''))))"

text \<open>After the process has the CPU again.\<close>

definition usertrap_resume :: "nat \<Rightarrow> u32 \<Rightarrow> 'z trap_state_scheme \<Rightarrow> (u64 wait_result \<times> 'z trap_state_scheme) res" where
  "usertrap_resume p ie s = bind_res (yield_in p ie s) (usertrap_end (Some p))"

section \<open>Traps from the kernel\<close>

definition kerneltrap_end :: "u64 \<Rightarrow> u64 \<Rightarrow> 'z trap_state_scheme \<Rightarrow> 'z trap_state_scheme" where
  "kerneltrap_end epc st s = s\<lparr>csr := w_sepc epc (csr s), sy := (sy s)\<lparr>sstatus := st\<rparr>\<rparr>"

definition kerneltrap :: "'z trap_state_scheme \<Rightarrow> (unit wait_result \<times> 'z trap_state_scheme) res" where
  "kerneltrap s =
     (let epc = r_sepc (csr s);
          st = sstatus (sy s)
      in
      if st AND SSTATUS_SPP = 0 then Panic ''kerneltrap: not from supervisor mode''
      else if intr_get (sy s) then Panic ''kerneltrap: interrupts enabled''
      else
        bind_res (devintr s) (\<lambda>(which_dev, s).
        if which_dev = 0
        then (if test_mode s \<noteq> 0 then Ok (Wait_returns (), kerneltrap_end (epc + 4) st s) else Panic ''kerneltrap'')
        else
          bind_res
            (if which_dev = 2
             then bind_res (myproc s) (\<lambda>(r, s).
                  case r of
                    None \<Rightarrow> Ok (False, s)
                  | Some p \<Rightarrow> bind_res (myproc s) (\<lambda>(r, s). deref r (\<lambda>p. Ok (p_state (the_proc p s) = RUNNING, s))))
             else Ok (False, s)) (\<lambda>(yields, s).
          if yields then bind_res (yield_out s) (\<lambda>(ie, s). Ok (Wait_sleeps ie, s))
          else Ok (Wait_returns (), kerneltrap_end epc st s))))"

definition kerneltrap_resume :: "nat \<Rightarrow> u32 \<Rightarrow> u64 \<Rightarrow> u64 \<Rightarrow> 'z trap_state_scheme \<Rightarrow> 'z trap_state_scheme res" where
  "kerneltrap_resume p ie epc st s = bind_res (yield_in p ie s) (\<lambda>s. Ok (kerneltrap_end epc st s))"

end
