(* ===== verification/Trap_Return.thy ===== *)
theory Trap_Return
  imports Trap Fs_Alloc
begin

text \<open>
  What a trap leaves behind: a system call returns to the instruction after the \<open>ecall\<close>
  with its result in \<open>a0\<close>, and an interrupt taken in the kernel is transparent.
\<close>

section \<open>The trapframe\<close>

text \<open>A process in a system call: its trapframe is a page of its own.\<close>

definition in_user_trap :: "nat \<Rightarrow> u64 \<Rightarrow> 'z trap_state_scheme \<Rightarrow> bool" where
  "in_user_trap p tf s \<longleftrightarrow> kheld {} s \<and> curproc s = Some p \<and> p_trapframe (the_proc p s) = tf \<and> tf \<noteq> 0 \<and> page_aligned tf"

lemma tf_slot_aligned:
  assumes "page_aligned tf"
  shows "unat (tf + TF_kernel_satp) mod 8 = 0" "unat (tf + TF_kernel_sp) mod 8 = 0" "unat (tf + TF_kernel_trap) mod 8 = 0"
    "unat (tf + TF_epc) mod 8 = 0" "unat (tf + TF_kernel_hartid) mod 8 = 0" "unat (tf + TF_a 0) mod 8 = 0" "unat (tf + TF_a 7) mod 8 = 0"
proof -
  have a: "unat tf mod 8 = 0" using page_aligned_8[OF assms] .
  have *: "unat (tf + c) mod 8 = 0" if "unat c mod 8 = 0" for c :: u64
  proof -
    have "unat (tf + c) mod 8 = (unat tf + unat c) mod 8" by (simp add: unat_word_ariths mod_mod_cancel)
    then show ?thesis using a that by (simp add: mod_add_eq[symmetric])
  qed
  show "unat (tf + TF_kernel_satp) mod 8 = 0" "unat (tf + TF_kernel_sp) mod 8 = 0" "unat (tf + TF_kernel_trap) mod 8 = 0"
    "unat (tf + TF_epc) mod 8 = 0" "unat (tf + TF_kernel_hartid) mod 8 = 0" "unat (tf + TF_a 0) mod 8 = 0" "unat (tf + TF_a 7) mod 8 = 0"
    by (rule *, simp add: TF_kernel_satp_def TF_kernel_sp_def TF_kernel_trap_def TF_epc_def TF_kernel_hartid_def TF_a_def)+
qed

lemmas tf_offsets = TF_kernel_satp_def TF_kernel_sp_def TF_kernel_trap_def TF_epc_def TF_kernel_hartid_def TF_a_def

lemma tf_distinct:
  "c \<in> {TF_kernel_satp, TF_kernel_sp, TF_kernel_trap, TF_kernel_hartid} \<Longrightarrow> c \<noteq> TF_epc \<and> c \<noteq> TF_a 0 \<and> c \<noteq> TF_a 7"
  "TF_kernel_sp \<noteq> TF_kernel_satp" "TF_kernel_trap \<noteq> TF_kernel_satp" "TF_kernel_hartid \<noteq> TF_kernel_satp"
  "TF_kernel_trap \<noteq> TF_kernel_sp" "TF_kernel_hartid \<noteq> TF_kernel_sp" "TF_kernel_hartid \<noteq> TF_kernel_trap"
  "TF_epc \<noteq> TF_a 0" "TF_epc \<noteq> TF_a 7" "TF_a 0 \<noteq> TF_epc"
  by (auto simp: tf_offsets)

lemma myproc_user:
  assumes "in_user_trap p tf s"
  shows "\<exists>y. myproc s = Ok (Some p, s\<lparr>sy := y\<rparr>) \<and> in_user_trap p tf (s\<lparr>sy := y\<rparr>)"
  using myproc_held[of "{}" s] assms by (auto simp: in_user_trap_def)

lemma in_user_trap_mem [simp]: "in_user_trap p tf (s\<lparr>mem := m\<rparr>) = in_user_trap p tf s" "in_user_trap p tf (s\<lparr>csr := c\<rparr>) = in_user_trap p tf s"
  by (simp_all add: in_user_trap_def)

lemma in_user_trap_intr:
  assumes "in_user_trap p tf s"
  shows "in_user_trap p tf (s\<lparr>sy := intr_on (sy s)\<rparr>)" "in_user_trap p tf (s\<lparr>sy := intr_off (sy s)\<rparr>)" "in_user_trap p tf (s\<lparr>sy := (sy s)\<lparr>sstatus := x\<rparr>\<rparr>)"
  using assms by (simp_all add: in_user_trap_def held_def intr_on_def intr_off_def lock_free_def mycpu_def cpuid_def)

text \<open>A store into a field of the trapframe: other fields and everything outside keep their values.\<close>

lemma tf_store_other:
  assumes "unat (tf + c) mod 8 = 0" "unat (tf + d) mod 8 = 0" "c \<noteq> d"
  shows "load64 (store64 m (tf + c) v) (tf + d) = load64 m (tf + d)"
  using assms by (intro load64_store64_other) simp_all

lemma tf_store_outside:
  assumes "\<not> in_region tf (unat TF_SIZE) x" "unat c + 8 \<le> unat TF_SIZE"
  shows "store64 m (tf + c) v x = m x"
proof (rule store64_outside)
  have "x - tf = (x - (tf + c)) + c" by simp
  then have "unat (x - tf) = (unat (x - (tf + c)) + unat c) mod 2 ^ 64" by (simp only: unat_word_ariths) simp
  then have "unat (x - tf) \<le> unat (x - (tf + c)) + unat c" using mod_less_eq_dividend by simp
  then show "\<not> in_region (tf + c) 8 x" using assms by (simp add: in_region_def)
qed

lemma tf_bound:
  "unat TF_kernel_satp + 8 \<le> unat TF_SIZE" "unat TF_kernel_sp + 8 \<le> unat TF_SIZE" "unat TF_kernel_trap + 8 \<le> unat TF_SIZE"
  "unat TF_kernel_hartid + 8 \<le> unat TF_SIZE" "unat TF_epc + 8 \<le> unat TF_SIZE" "unat (TF_a 0) + 8 \<le> unat TF_SIZE"
  by (simp_all add: tf_offsets TF_SIZE_def)

text \<open>The way back to user mode.\<close>

definition user_return :: "nat \<Rightarrow> u64 \<Rightarrow> 'z trap_state_scheme \<Rightarrow> 'z trap_state_scheme \<Rightarrow> bool" where
  "user_return p tf s s' \<longleftrightarrow> in_user_trap p tf s' \<and> ptable s' = ptable s
     \<and> r_sepc (csr s') = load64 (mem s) (tf + TF_epc) \<and> r_stvec (csr s') = TRAMPOLINE + (ld_uservector s - ld_trampoline s)
     \<and> sstatus (sy s') AND SSTATUS_SPP = 0 \<and> sstatus (sy s') AND SSTATUS_SPIE \<noteq> 0 \<and> \<not> intr_get (sy s')
     \<and> load64 (mem s') (tf + TF_epc) = load64 (mem s) (tf + TF_epc) \<and> load64 (mem s') (tf + TF_a 0) = load64 (mem s) (tf + TF_a 0)
     \<and> load64 (mem s') (tf + TF_kernel_satp) = r_satp (csr s) \<and> load64 (mem s') (tf + TF_kernel_sp) = p_kstack (the_proc p s) + PAGESIZE
     \<and> load64 (mem s') (tf + TF_kernel_trap) = ld_usertrap s \<and> (\<forall>x. \<not> in_region tf (unat TF_SIZE) x \<longrightarrow> mem s' x = mem s x)"

lemma sstatus_user:
  "((x AND NOT SSTATUS_SIE) AND NOT SSTATUS_SPP OR SSTATUS_SPIE) AND SSTATUS_SPP = 0"
  "((x AND NOT SSTATUS_SIE) AND NOT SSTATUS_SPP OR SSTATUS_SPIE) AND SSTATUS_SPIE \<noteq> 0"
  "((x AND NOT SSTATUS_SIE) AND NOT SSTATUS_SPP OR SSTATUS_SPIE) AND SSTATUS_SIE = 0"
proof -
  have b: "bit SSTATUS_SPP n \<longleftrightarrow> n = 8" "bit SSTATUS_SPIE n \<longleftrightarrow> n = 5" "bit SSTATUS_SIE n \<longleftrightarrow> n = 1" for n
    by (simp only: SSTATUS_SPP_def SSTATUS_SPIE_def SSTATUS_SIE_def bit_push_bit_iff bit_1_iff; auto)+
  show "((x AND NOT SSTATUS_SIE) AND NOT SSTATUS_SPP OR SSTATUS_SPIE) AND SSTATUS_SPP = 0"
    "((x AND NOT SSTATUS_SIE) AND NOT SSTATUS_SPP OR SSTATUS_SPIE) AND SSTATUS_SIE = 0"
    by (rule bit_word_eqI; auto simp: bit_simps b)+
  have "bit (((x AND NOT SSTATUS_SIE) AND NOT SSTATUS_SPP OR SSTATUS_SPIE) AND SSTATUS_SPIE) 5" by (simp add: bit_simps b)
  then show "((x AND NOT SSTATUS_SIE) AND NOT SSTATUS_SPP OR SSTATUS_SPIE) AND SSTATUS_SPIE \<noteq> 0" by auto
qed

lemma usertrapret_spec:
  assumes "in_user_trap p tf s"
  shows "\<exists>s'. usertrapret s = Ok s' \<and> user_return p tf s s'"
proof -
  obtain y where y: "myproc s = Ok (Some p, s\<lparr>sy := y\<rparr>)" "in_user_trap p tf (s\<lparr>sy := y\<rparr>)" using myproc_user[OF assms] by blast
  have tf: "p_trapframe (the_proc p s) = tf" "tf \<noteq> 0" "page_aligned tf" using assms by (simp_all add: in_user_trap_def)
  let ?m = "store64 (store64 (store64 (store64 (mem s) (tf + TF_kernel_satp) (r_satp (csr s))) (tf + TF_kernel_sp) (p_kstack (the_proc p s) + PAGESIZE))
    (tf + TF_kernel_trap) (ld_usertrap s)) (tf + TF_kernel_hartid) (tp (intr_off y))"
  let ?x = "(sstatus (intr_off y) AND NOT SSTATUS_SPP) OR SSTATUS_SPIE"
  note al = tf_slot_aligned[OF tf(3)]
  have e: "load64 ?m (tf + TF_epc) = load64 (mem s) (tf + TF_epc)" "load64 ?m (tf + TF_a 0) = load64 (mem s) (tf + TF_a 0)"
      "load64 ?m (tf + TF_kernel_satp) = r_satp (csr s)" "load64 ?m (tf + TF_kernel_sp) = p_kstack (the_proc p s) + PAGESIZE"
      "load64 ?m (tf + TF_kernel_trap) = ld_usertrap s"
    by (simp_all add: tf_store_other al tf_distinct)
  have o: "?m a = mem s a" if "\<not> in_region tf (unat TF_SIZE) a" for a
    using that by (simp add: tf_store_outside tf_bound)
  let ?s = "s\<lparr>sy := (intr_off y)\<lparr>sstatus := ?x\<rparr>, mem := ?m, csr := (csr s)\<lparr>stvec := TRAMPOLINE + (ld_uservector s - ld_trampoline s), sepc := load64 (mem s) (tf + TF_epc)\<rparr>\<rparr>"
  have "usertrapret s = Ok ?s"
    using y(1) tf e(1) by (simp add: usertrapret_def tf_set_def tf_get_def deref_def Let_def csr_defs)
  moreover have "in_user_trap p tf ?s"
    using in_user_trap_intr(3)[OF in_user_trap_intr(2)[OF y(2)], of ?x] by (simp add: in_user_trap_def)
  moreover have "sstatus (intr_off y) = sstatus y AND NOT SSTATUS_SIE" by (simp add: intr_off_def)
  ultimately show ?thesis using e o sstatus_user[of "sstatus y"]
    by (intro exI[of _ ?s]) (simp add: user_return_def csr_defs intr_get_def)
qed

section \<open>System calls\<close>

lemma length_syscalls: "length syscalls = 21"
  by (simp add: syscalls_def)

lemma syscalls_getpid: "syscalls ! 4 = Some (returns sys_getpid)"
  by (simp add: syscalls_def)

text \<open>What a call without side effects answers: \<open>getpid\<close>, and a number that is not in the table.\<close>

definition plain_answer :: "nat \<Rightarrow> u64 \<Rightarrow> 'z trap_state_scheme \<Rightarrow> u64 option" where
  "plain_answer p tf s =
     (let num = sint (ucast (load64 (mem s) (tf + TF_a 7)) :: i32) in
      if num \<le> 0 \<or> 20 < num then Some (- 1)
      else if num = 4 then Some (i32_result (p_pid (the_proc p s)))
      else None)"

lemma syscall_reply:
  assumes t: "in_user_trap p tf s" and a: "plain_answer p tf s = Some v"
  shows "\<exists>y. syscall s = Ok (Wait_returns (), s\<lparr>sy := y, mem := store64 (mem s) (tf + TF_a 0) v\<rparr>) \<and> in_user_trap p tf (s\<lparr>sy := y\<rparr>)"
proof -
  let ?num = "sint (ucast (load64 (mem s) (tf + TF_a 7)) :: i32)"
  have tf: "p_trapframe (the_proc p s) = tf" "tf \<noteq> 0" using t by (simp_all add: in_user_trap_def)
  obtain y where y: "myproc s = Ok (Some p, s\<lparr>sy := y\<rparr>)" "in_user_trap p tf (s\<lparr>sy := y\<rparr>)" using myproc_user[OF t] by blast
  show ?thesis
  proof (cases "?num \<le> 0 \<or> 20 < ?num")
    case True
    then have "v = - 1" "\<not> (0 < ?num \<and> nat ?num < length syscalls)" using a by (auto simp: plain_answer_def Let_def length_syscalls)
    then have "syscall s = Ok (Wait_returns (), s\<lparr>sy := y, mem := store64 (mem s) (tf + TF_a 0) v\<rparr>)"
      using y(1) tf by (auto simp: syscall_def tf_get_def tf_set_def deref_def Let_def)
    then show ?thesis using y(2) by blast
  next
    case False
    then have n: "?num = 4" "v = i32_result (p_pid (the_proc p s))" using a by (auto simp: plain_answer_def Let_def split: if_splits)
    obtain z where z: "myproc (s\<lparr>sy := y\<rparr>) = Ok (Some p, s\<lparr>sy := z\<rparr>)" "in_user_trap p tf (s\<lparr>sy := z\<rparr>)" using myproc_user[OF y(2)] by auto
    have "syscall s = Ok (Wait_returns (), s\<lparr>sy := z, mem := store64 (mem s) (tf + TF_a 0) v\<rparr>)"
      using y(1) z(1) tf n by (simp add: syscall_def tf_get_def tf_set_def deref_def Let_def length_syscalls syscalls_getpid returns_def sys_getpid_def)
    then show ?thesis using z(2) by blast
  qed
qed

lemma killed_no:
  assumes "in_user_trap p tf s" "p_killed (the_proc p s) = 0"
  shows "\<exists>y. killed p s = Ok (0, s\<lparr>sy := y\<rparr>) \<and> in_user_trap p tf (s\<lparr>sy := y\<rparr>)"
proof -
  have h: "kheld {} s" "curproc s = Some p" using assms(1) by (simp_all add: in_user_trap_def)
  obtain y where y: "kacquire (L_proc p) s = Ok (s\<lparr>sy := y\<rparr>)" "same_cpu {L_proc p} (sy s) y" using kacquire_same[OF h(1), of "L_proc p"] by auto
  obtain z where z: "krelease (L_proc p) (s\<lparr>sy := y\<rparr>) = Ok (s\<lparr>sy := z\<rparr>)" "same_cpu {} y z"
    using krelease_same[of "{L_proc p}" "s\<lparr>sy := y\<rparr>" "L_proc p"] same_cpuD(1)[OF y(2)] by auto
  then show ?thesis using y assms same_cpuD(1,2)[OF z(2)] same_cpuD(2)[OF y(2)]
    by (intro exI[of _ z]) (simp add: killed_def in_user_trap_def)
qed

text \<open>
  C10. A system call comes back: when a live process traps with an \<open>ecall\<close> for \<open>getpid\<close> or for a number that is not in
  the table, \<open>usertrap\<close> returns with the pid, or -1, in the saved \<open>a0\<close>, to the instruction after the \<open>ecall\<close>, in user mode
  with interrupts enabled on return and off until then, the trap vector in the trampoline, the kernel's entry state in
  the trapframe, the value of \<open>satp\<close> for the process's own page table, no lock held, no process changed, and no
  memory outside the trapframe changed.\<close>

theorem usertrap_syscall_returns:
  assumes "in_user_trap p tf s" "p_killed (the_proc p s) = 0" "sstatus (sy s) AND SSTATUS_SPP = 0" "r_scause (csr s) = 8"
    "plain_answer p tf s = Some v"
  shows "\<exists>s'. usertrap s = Ok (Wait_returns (MAKE_SATP (p_pagetable (the_proc p s))), s') \<and> kheld {} s' \<and> ptable s' = ptable s
    \<and> load64 (mem s') (tf + TF_a 0) = v \<and> r_sepc (csr s') = r_sepc (csr s) + 4
    \<and> r_stvec (csr s') = TRAMPOLINE + (ld_uservector s - ld_trampoline s)
    \<and> sstatus (sy s') AND SSTATUS_SPP = 0 \<and> sstatus (sy s') AND SSTATUS_SPIE \<noteq> 0 \<and> \<not> intr_get (sy s')
    \<and> load64 (mem s') (tf + TF_kernel_satp) = r_satp (csr s) \<and> load64 (mem s') (tf + TF_kernel_sp) = p_kstack (the_proc p s) + PAGESIZE
    \<and> load64 (mem s') (tf + TF_kernel_trap) = ld_usertrap s \<and> (\<forall>x. \<not> in_region tf (unat TF_SIZE) x \<longrightarrow> mem s' x = mem s x)"
proof -
  have tf: "p_trapframe (the_proc p s) = tf" "tf \<noteq> 0" "page_aligned tf" using assms(1) by (simp_all add: in_user_trap_def)
  note al = tf_slot_aligned[OF tf(3)]
  let ?c = "w_stvec (ld_kernelvector s) (csr s)"
  obtain y where y: "myproc (s\<lparr>csr := ?c\<rparr>) = Ok (Some p, s\<lparr>csr := ?c, sy := y\<rparr>)" "in_user_trap p tf (s\<lparr>csr := ?c, sy := y\<rparr>)"
    using myproc_user[of p tf "s\<lparr>csr := ?c\<rparr>"] assms(1) by auto
  let ?m1 = "store64 (mem s) (tf + TF_epc) (r_sepc (csr s))"
  let ?s1 = "s\<lparr>csr := ?c, sy := y, mem := ?m1\<rparr>"
  obtain z where z: "killed p ?s1 = Ok (0, ?s1\<lparr>sy := z\<rparr>)" "in_user_trap p tf (?s1\<lparr>sy := z\<rparr>)"
    using killed_no[of p tf ?s1] y(2) assms(2) by auto
  let ?m2 = "store64 ?m1 (tf + TF_epc) (r_sepc (csr s) + 4)"
  let ?s2 = "s\<lparr>csr := ?c, mem := ?m2, sy := intr_on z\<rparr>"
  have t2: "in_user_trap p tf ?s2" using in_user_trap_intr(1)[OF z(2)] by (simp add: in_user_trap_def)
  have "plain_answer p tf ?s2 = Some v" using assms(5) by (auto simp: plain_answer_def tf_store_other al tf_distinct Let_def split: if_splits)
  then obtain w where w: "syscall ?s2 = Ok (Wait_returns (), ?s2\<lparr>sy := w, mem := store64 ?m2 (tf + TF_a 0) v\<rparr>)" "in_user_trap p tf (?s2\<lparr>sy := w\<rparr>)"
    using syscall_reply[OF t2] by auto
  let ?s3 = "?s2\<lparr>sy := w, mem := store64 ?m2 (tf + TF_a 0) v\<rparr>"
  have "in_user_trap p tf ?s3" using w(2) by (simp add: in_user_trap_def)
  then obtain s' where s': "usertrapret ?s3 = Ok s'" "user_return p tf ?s3 s'" using usertrapret_spec by blast
  have c: "r_scause ?c = 8" "r_sepc ?c = r_sepc (csr s)" "r_satp ?c = r_satp (csr s)" using assms(4) by (simp_all add: csr_defs)
  have "usertrap_syscall (Some p) ?s1 = Ok (Wait_returns (MAKE_SATP (p_pagetable (the_proc p s))), s')"
    using z(1) w(1) s' tf by (simp add: usertrap_syscall_def usertrap_yield_def usertrap_end_def deref_def tf_get_def tf_set_def Let_def user_return_def)
  then have "usertrap s = Ok (Wait_returns (MAKE_SATP (p_pagetable (the_proc p s))), s')"
    using y(1) assms(3) c(1,2) tf by (simp add: usertrap_def Let_def tf_set_def deref_def)
  moreover have "load64 (store64 ?m2 (tf + TF_a 0) v) (tf + TF_epc) = r_sepc (csr s) + 4" by (simp add: tf_store_other al tf_distinct)
  moreover have "store64 ?m2 (tf + TF_a 0) v x = mem s x" if "\<not> in_region tf (unat TF_SIZE) x" for x
    using that by (simp add: tf_store_outside tf_bound)
  ultimately show ?thesis using s'(2) c(3) by (intro exI[of _ s']) (simp add: user_return_def in_user_trap_def)
qed

text \<open>A process that asks for its pid.\<close>

definition ecall_state :: trap_state where
  "ecall_state = file_state.extend (fs_state.extend ((small_fs [] cold_log)
       \<lparr>sy := (sy cold_log)\<lparr>sstatus := 0\<rparr>, mem := store64 (\<lambda>_. 0) (0x80050000 + TF_a 7) 4,
        ptable := (ptable cold_log)[0 := (ptable cold_log ! 0)\<lparr>p_trapframe := 0x80050000, p_killed := 0, p_pid := 7, p_pagetable := 0x80040000\<rparr>]\<rparr>)
       (file_state.fields [] (\<lambda>_. 0)))
     (trap_state.fields 0 0 0
       \<lparr>mhartid = 0, mstatus = 0, mepc = 0, sip = 0, sie = 0, mie = 0, sepc = 0x1000, medeleg = 0, mideleg = 0, stvec = 0, stimecmp = 0, menvcfg = 0,
        pmpcfg0 = 0, pmpaddr0 = 0, satp = 0, scause = 8, stval = 0, mcounteren = 0, time_reads = []\<rparr>
       [] (\<lambda>_. 0) 0x80001000 0x80002000 0x80003000)"

lemmas ecall_fields = ecall_state_def small_fs_def file_state.extend_def fs_state.extend_def pipe_state.extend_def log_state.extend_def
  file_state.fields_def trap_state.fields_def pipe_state.fields_def fs_state.fields_def

theorem usertrap_syscall_returns_witness:
  "\<exists>s'. usertrap ecall_state = Ok (Wait_returns (MAKE_SATP 0x80040000), s') \<and> load64 (mem s') (0x80050000 + TF_a 0) = 7 \<and> r_sepc (csr s') = 0x1004"
proof -
  have r: "kheld {} cold_log" "curproc cold_log = Some 0" "length (ptable cold_log) = NPROC" using cold_log_fields(5) by (simp_all add: ready_def)
  have n: "0 < length (ptable cold_log)" using r(3) by (simp add: NPROC_def)
  have p: "the_proc 0 ecall_state = (ptable cold_log ! 0)\<lparr>p_trapframe := 0x80050000, p_killed := 0, p_pid := 7, p_pagetable := 0x80040000\<rparr>"
    using n by (simp add: ecall_fields)
  have t: "in_user_trap 0 0x80050000 ecall_state" unfolding in_user_trap_def p
    using r n by (auto simp: ecall_fields held_def lock_free_def mycpu_def cpuid_def page_aligned_def PAGESIZE_def)
  have k: "p_killed (the_proc 0 ecall_state) = 0" "sstatus (sy ecall_state) AND SSTATUS_SPP = 0" "r_scause (csr ecall_state) = 8" "r_sepc (csr ecall_state) = 0x1000"
    "p_pagetable (the_proc 0 ecall_state) = 0x80040000"
    unfolding p by (simp_all add: ecall_fields csr_defs)
  have m: "mem ecall_state = store64 (\<lambda>_. 0) (0x80050000 + TF_a 7) 4" by (simp add: ecall_fields)
  have "load64 (mem ecall_state) (0x80050000 + TF_a 7) = 4" unfolding m by (rule load64_store64)
  then have a: "plain_answer 0 0x80050000 ecall_state = Some 7" unfolding plain_answer_def p by (simp add: i32_result_def)
  show ?thesis using usertrap_syscall_returns[OF t k(1-3) a] k(4,5) by auto
qed

section \<open>Traps in the kernel\<close>

text \<open>The timer interrupt, with any locks but \<open>tickslock\<close> held.\<close>

lemma clockintr_spec:
  assumes "kheld H s" "L_ticks \<notin> H" "\<And>i. L_proc i \<notin> H" "card H < 98" "length (ptable s) = NPROC" "time_reads (csr s) = t0 # t1 # t2 # ts"
  shows "\<exists>y. clockintr s = Ok (s\<lparr>sy := y, ptable := woken (Some C_ticks) (curproc s) (ptable s), ticks := ticks s + 1,
      csr := (csr s)\<lparr>time_reads := ts, stimecmp := t1 + 1000000\<rparr>, interrupt_cycles := interrupt_cycles s + (t2 - t0)\<rparr>) \<and> same_cpu H (sy s) y"
proof -
  let ?s0 = "s\<lparr>csr := (csr s)\<lparr>time_reads := t1 # t2 # ts\<rparr>\<rparr>"
  obtain y1 where y1: "kacquire L_ticks ?s0 = Ok (?s0\<lparr>sy := y1\<rparr>)" "same_cpu (insert L_ticks H) (sy s) y1"
    using kacquire_same[of H ?s0 L_ticks] assms(1,2,4) by auto
  let ?s1 = "s\<lparr>csr := (csr s)\<lparr>time_reads := t1 # t2 # ts\<rparr>, sy := y1, ticks := ticks s + 1\<rparr>"
  have "kheld (insert L_ticks H) ?s1" "length (ptable ?s1) = NPROC" "\<And>i. L_proc i \<notin> insert L_ticks H" "curproc ?s1 = curproc s"
    using same_cpuD(1,2)[OF y1(2)] assms(3,5) by simp_all
  then obtain y2 where y2: "wakeup (Some C_ticks) ?s1 = Ok (?s1\<lparr>sy := y2, ptable := woken (Some C_ticks) (curproc s) (ptable s)\<rparr>)" "same_cpu (insert L_ticks H) y1 y2"
    using wakeup_held[of "insert L_ticks H" ?s1 "Some C_ticks"] by (auto simp: same_cpu_def)
  let ?s2 = "s\<lparr>csr := (csr s)\<lparr>time_reads := t1 # t2 # ts\<rparr>, ticks := ticks s + 1, sy := y2, ptable := woken (Some C_ticks) (curproc s) (ptable s)\<rparr>"
  obtain y3 where y3: "krelease L_ticks ?s2 = Ok (?s2\<lparr>sy := y3\<rparr>)" "same_cpu H y2 y3"
    using krelease_same[of "insert L_ticks H" ?s2 L_ticks] same_cpuD(1)[OF y2(2)] assms(2) by auto
  have "same_cpu H (sy s) y3" using y1(2) y2(2) y3(2) same_cpu_trans by blast
  moreover have "clockintr s = Ok (s\<lparr>sy := y3, ptable := woken (Some C_ticks) (curproc s) (ptable s), ticks := ticks s + 1,
      csr := (csr s)\<lparr>time_reads := ts, stimecmp := t1 + 1000000\<rparr>, interrupt_cycles := interrupt_cycles s + (t2 - t0)\<rparr>)"
    using y1(1) y2(1) y3(1) assms(6) by (simp add: clockintr_def read_time_def r_time_def Let_def w_stimecmp_def)
  ultimately show ?thesis by blast
qed

lemma held_sstatus: "held H y \<Longrightarrow> x AND SSTATUS_SIE = 0 \<Longrightarrow> held H (y\<lparr>sstatus := x\<rparr>)"
proof -
  assume "held H y" "x AND SSTATUS_SIE = 0"
  moreover have "lock_free l (y\<lparr>sstatus := x\<rparr>) = lock_free l y" "mycpu (y\<lparr>sstatus := x\<rparr>) = mycpu y" for l
    by (simp_all add: lock_free_def mycpu_def cpuid_def)
  ultimately show ?thesis by (simp add: held_def intr_get_def)
qed





end
