(* ===== verification/Spec2Isabelle.thy ===== *)
theory Spec2Isabelle
  imports Schedulers Pipe_Transfer Printf Fs_Inode Fs_Path Virtio_Io Trap_Return
begin

text \<open>
  A verification library for the WHU-OSLab kernel, a teaching kernel for one RISC-V hart in the tradition of xv6.
  Paths below are relative to src/kernel.

  \<^bold>\<open>The program.\<close> start.c prepares the hart and enters supervisor mode. mm/kalloc.c hands out physical pages;
  mm/vm.c builds page tables in them and copies between kernel and user memory. sync/spinlock.c and
  sync/sleeplock.c protect shared state; proc/proc.c has the process table, the schedulers, sleep and wakeup. A
  trap enters trap/trap.c, which handles timer and device interrupts (driver/plic.c) or runs a system call: syscall.c
  fetches the arguments, sysproc.c and sysfile.c do the work. Files (fs/file.c) are inodes or pipes (ipc/pipe.c);
  inodes, directories and paths are in fs/fs.c, which changes disk blocks inside transactions of fs/log.c, on the
  buffer cache of fs/bio.c, on the disk driver driver/virtio_disk.c. lib/string.c and lib/printf.c serve all of them.

  \<^bold>\<open>State and effects.\<close> The state is one record that grows with the components: the machine (byte memory,
  locks and CPU), the page allocator, processes, sleep locks, buffers and disk, log, pipes, file system, open
  files, traps. Each operation works on every extension of the record it needs, so a theorem about a lower
  component holds of the whole kernel. A call returns \<open>Ok\<close> with the new state, \<open>Panic\<close> with the message of the
  panic, or \<open>Hang\<close> when a loop of the source does not end. A dereferenced null pointer is the panic the kernel
  trap would give; what the language leaves undefined is the panic ''undefined''. C integers are words of their
  width, read with \<open>unat\<close> or \<open>sint\<close>. A function that gives up the CPU is cut there: \<open>_out\<close> is the part up to the switch
  and \<open>_in\<close> the part after it; a loop that may sleep has \<open>_start\<close> and \<open>_resume\<close>, whose \<open>wait_result\<close> says whether it
  returned or sleeps. The part after starts from any state the others have left. What functions print besides their result is left out, printf and the console themselves excepted.

  \<^bold>\<open>Theories.\<close>
  \<^item> Prelude, Riscv, Bytes: results, loops, regions of memory, little-endian fields; constants and page table
    entries of include/riscv.h, memlayout.h and param.h.
  \<^item> Csr: the control registers, \<open>start\<close> and \<open>timerinit\<close> of start.c.
  \<^item> Cstring: lib/string.c. memmove copies overlapping regions, strncmp, strncpy, safestrcpy and strlen agree with
    their specifications on lists of bytes.
  \<^item> Spinlock: sync/spinlock.c. Sections restore the interrupt state and nest; \<open>held H\<close> is the state with exactly
    the locks \<open>H\<close> held, which the other components carry.
  \<^item> Kalloc: mm/kalloc.c. The locale \<open>page_allocator\<close> is the contract of allocation and freeing, interpreted on
    \<open>alloc_page\<close> and \<open>free_page\<close>: allocated pages are exclusive, \<open>alloc_pages\<close> is first fit, initialisation frees
    exactly the pages of the range.
  \<^item> Vm, Vm_Map, Usercopy: mm/vm.c. A page table in memory represents a map from pages to entries; map, unmap,
    walk and the copies are described by that map.
  \<^item> Proc, Sched, Schedulers: proc/proc.c. The process table as a machine of kernel steps with its reachable
    states: at most one process runs, sleeping and waking lose no wakeup, the rotating scheduler is fair, the
    priority scheduler picks the highest priority above -1.
  \<^item> Sleeplock: sync/sleeplock.c.
  \<^item> Bio, Bio_Lru, Bio_Cache, Block_Cache: fs/bio.c. The doubly linked list is in order of use; the locale
    \<open>block_cache\<close> is what the layers above rely on, interpreted on bread, bwrite, brelse and bunpin.
  \<^item> Log, Log_Spec, Log_Crash, Log_Tx: fs/log.c. A transaction is atomic under a crash at any disk write and under
    crashes during recovery; the locale \<open>transaction\<close> is the contract of reading and changing a block inside a
    transaction, interpreted on bread, log_write and brelse.
  \<^item> Pipe, Pipe_Fifo, Pipe_Transfer: ipc/pipe.c. The ring with wrapping counters is a bounded queue (locale
    \<open>bounded_fifo\<close>); bytes written from user memory are the bytes read.
  \<^item> Fs, Fs_Name: fs/fs.c. Fs_Alloc, Fs_Inode, Fs_Path: block allocation is first fit and undone by freeing; the
    inode table has one entry per inode in use; ilock reads back what iupdate wrote; skipelem splits a path.
  \<^item> File, Sysargs, Sysproc, Sysfile: fs/file.c, trap/syscall.c, trap/sysproc.c, trap/sysfile.c.
  \<^item> Trap: trap/trap.c, driver/plic.c. Trap_Return: a system call returns to user mode after the ecall, a timer
    interrupt is transparent to the kernel, a user page fault never returns.
  \<^item> Virtio: driver/virtio_disk.c. Virtio_Io: with a device that serves requests, given as a parameter with its
    contract \<open>virtio_device\<close>, the driver implements the transfer \<open>disk_rw\<close> on which Bio rests.
  \<^item> Console, Printf: driver/uart.c, driver/console.c, lib/printf.c. print_int stays in its buffer and its output
    reads back as the number.

  \<^bold>\<open>Bounds and fuel.\<close> Loops over lists in memory and over characters are partial functions whose missing result is
  \<open>Hang\<close>; a theorem that states the result of such an operation also shows that it returns. \<open>free_chain\<close> has \<open>NUM + 1\<close> rounds: each frees one of the \<open>NUM\<close>
  descriptors or panics. \<open>namex\<close> has \<open>MAXPATH + 1\<close> rounds: each passes at least one character of a path shorter than
  \<open>MAXPATH\<close>. Reference and lock counts are bounded in the hypotheses where the C counter would wrap. Block numbers
  are below 2^31 where the driver's 32-bit sector arithmetic would wrap.

  \<^bold>\<open>Inputs.\<close> What devices deliver (UART, interrupt controller, virtio registers, the clock) is a list in the state
  from which reads take; reading past its end hangs. Addresses the linker or the compiler chooses (the end
  of the kernel, the trampoline, local variables whose address is taken) are fields of the state.

  \<^bold>\<open>Not modelled.\<close> main.c selects a lab, and test/ has the tests of the labs: they exercise the operations above, with
  handlers and a shared buffer of their own, and no other part of the kernel relies on them. The assembly (entry.S, swtch.S,
  kernelvector.S, trampoline.S) needs an instruction set: swtch is the exchange of saved contexts and the
  trampoline appears as the conditions on entry to \<open>usertrap\<close>. defs.h and types.h are declarations; src/user has
  the declarations and generated stubs of the system calls. The translation cache and memory ordering are not in
  the state, so fences have no effect. The operations of sysfile.c are sequential: a call that would sleep hangs.
  readi, writei, the directories, \<open>namex\<close>, File, Sysfile and most calls of Sysproc have definitions and no
  properties of their own.
\<close>

end
